theory Spec2Isabelle
  imports Main "HOL-Library.Monad_Syntax" "HOL-Library.Multiset"
begin

section \<open>Data model of \<^verbatim>\<open>nand.c\<close>\<close>

text \<open>
  The gates of \<^verbatim>\<open>nand.c\<close> live on the C heap and refer to each other by pointer.
  The store is modelled as a list of cells addressed by their index; a cell is \<open>None\<close>
  before allocation and after \<^verbatim>\<open>free\<close>.  A \<^verbatim>\<open>void *\<close> held in an input slot is
  \<open>NULL\<close>, the address of a gate, or the address of a caller-owned boolean.  The
  caller's booleans are read through a memory \<open>sg :: nat \<Rightarrow> bool\<close>.

  Counts and indices (C \<^verbatim>\<open>unsigned\<close> and \<^verbatim>\<open>size_t\<close>) are natural numbers: the model
  covers arities, fan-outs and request arrays below \<open>2 ^ 32\<close>, where no conversion
  truncates.  The index of \<^verbatim>\<open>nand_output\<close> and the critical path length are
  \<^verbatim>\<open>ssize_t\<close> and are integers.

  Since two C structs may not share field names in one theory, the fields
  \<^verbatim>\<open>gate\<close>, \<^verbatim>\<open>ind\<close>, \<^verbatim>\<open>ptr\<close>, \<^verbatim>\<open>type\<close> carry the prefix of their struct.
\<close>

datatype input_type = EMPTY_INPUT | BOOLEAN_SIGNAL_INPUT | NAND_GATE_INPUT

datatype topo_sort_status = VISITED | NOT_VISITED | CURRENTLY_PROCESSING

datatype ptr = NULL | GatePtr nat | BoolPtr nat

record dfs_info_t =
  dfs_gate :: nat
  dfs_ind :: nat

record out_info_t =
  out_gate :: nat
  out_ind :: nat

record in_info_t =
  in_ptr :: ptr
  in_type :: input_type
  in_ind :: nat

record nand_t =
  crit_path_len :: int
  inputs :: "in_info_t list"
  outputs :: "out_info_t list"
  input_count :: nat
  status :: topo_sort_status
  signal :: bool

type_synonym heap = "nand_t option list"

text \<open>
  The allocator is outside the program.  Every call that may allocate consumes one
  answer of an oracle (\<open>True\<close>: the allocation succeeds); an exhausted oracle always
  succeeds.  Theorems quantify over the oracle, so they hold for every allocator.
\<close>

record world =
  heap :: heap
  alloc :: "bool list"

datatype errno = EINVAL | ENOMEM | ECANCELED

text \<open>
  The outcome of a call: \<open>Done v\<close> is a normal return of \<open>v\<close>; \<open>Errno e\<close> is the error
  return (\<open>-1\<close> or \<open>NULL\<close>) with \<^verbatim>\<open>errno\<close> set to \<open>e\<close>; \<open>Undef\<close> marks an execution that
  leaves defined behaviour (a failed \<^verbatim>\<open>assert\<close>, a read outside an array, a dangling
  or null dereference).  A state paired with \<open>Undef\<close> carries no meaning.
\<close>

datatype 'a result = Done 'a | Errno errno | Undef

definition get_gate :: "heap \<Rightarrow> nat \<Rightarrow> nand_t option" where
  "get_gate h a = (if a < length h then h ! a else None)"

definition set_gate :: "heap \<Rightarrow> nat \<Rightarrow> nand_t \<Rightarrow> heap" where
  "set_gate h a g = h[a := Some g]"

definition array_get :: "'a list \<Rightarrow> nat \<Rightarrow> 'a option" where
  "array_get xs i = (if i < length xs then Some (xs ! i) else None)"

text \<open>
  The array \<^verbatim>\<open>inputs\<close> of a gate has \<^verbatim>\<open>input_count\<close> cells (\<^verbatim>\<open>nand_new\<close> allocates that
  many): a read of \<^verbatim>\<open>g->inputs[k]\<close> is defined only below that bound.
\<close>

definition input_at :: "nand_t \<Rightarrow> nat \<Rightarrow> in_info_t option" where
  "input_at g k = (if k < input_count g then array_get (inputs g) k else None)"

definition c_assert :: "bool \<Rightarrow> unit option" where
  "c_assert b = (if b then Some () else None)"

definition alloc_ok :: "bool list \<Rightarrow> bool" where
  "alloc_ok al = (case al of [] \<Rightarrow> True | b # _ \<Rightarrow> b)"

definition empty_slot :: in_info_t where
  "empty_slot = \<lparr>in_ptr = NULL, in_type = EMPTY_INPUT, in_ind = 0\<rparr>"

subsection \<open>The dynamic array and the stack\<close>

text \<open>
  Modelled from the spec: \<^verbatim>\<open>darray.h\<close> is not among the sources.  The consumer list is
  a growable array with access by index, swap of two cells, removal of the last cell
  and an append that may fail on allocation and then leaves the array as it was.
\<close>

definition darray_size :: "'a list \<Rightarrow> nat" where
  "darray_size xs = length xs"

definition darray_get :: "'a list \<Rightarrow> nat \<Rightarrow> 'a option" where
  "darray_get xs i = array_get xs i"

definition darray_back :: "'a list \<Rightarrow> 'a option" where
  "darray_back xs = (if xs = [] then None else Some (last xs))"

definition darray_swap_elements :: "'a list \<Rightarrow> nat \<Rightarrow> nat \<Rightarrow> 'a list" where
  "darray_swap_elements xs i j = xs[i := xs ! j, j := xs ! i]"

definition darray_pop_back :: "'a list \<Rightarrow> 'a list" where
  "darray_pop_back xs = butlast xs"

definition darray_push_back :: "bool list \<Rightarrow> 'a list \<Rightarrow> 'a \<Rightarrow> 'a list option \<times> bool list" where
  "darray_push_back al xs x = (if alloc_ok al then Some (xs @ [x]) else None, tl al)"

text \<open>
  Modelled from the spec: \<^verbatim>\<open>stack.h\<close> is not among the sources.  A stack is a list whose
  head is the top; a push may fail on allocation and then leaves the stack as it was;
  \<^verbatim>\<open>stack_reverse\<close> turns the stack over.
\<close>

definition stack_push :: "bool list \<Rightarrow> 'a list \<Rightarrow> 'a \<Rightarrow> 'a list option \<times> bool list" where
  "stack_push al s x = (if alloc_ok al then Some (x # s) else None, tl al)"

definition stack_reverse :: "'a list \<Rightarrow> 'a list" where
  "stack_reverse s = rev s"

section \<open>Connection management\<close>

text \<open>
  \<open>move_last_output\<close> is the block of \<^verbatim>\<open>nand_disconnect_nand\<close> guarded by
  \<^verbatim>\<open>out_ind + 1 != g_out_sz\<close>: it swaps record \<open>oi\<close> of \<open>g_out\<close> with the last record and
  writes the new position into the input slot that the moved record names.
\<close>

definition move_last_output :: "heap \<Rightarrow> nat \<Rightarrow> nat \<Rightarrow> heap option" where
  "move_last_output h g_out oi = do {
     go \<leftarrow> get_gate h g_out;
     let h' = set_gate h g_out
        (go\<lparr>outputs := darray_swap_elements (outputs go) oi (darray_size (outputs go) - 1)\<rparr>);
     go' \<leftarrow> get_gate h' g_out;
     out_info \<leftarrow> darray_get (outputs go') oi;
     t \<leftarrow> get_gate h' (out_gate out_info);
     tslot \<leftarrow> input_at t (out_ind out_info);
     Some (set_gate h' (out_gate out_info)
        (t\<lparr>inputs := (inputs t)[out_ind out_info := tslot\<lparr>in_ind := oi\<rparr>]\<rparr>))
   }"

definition nand_disconnect_nand :: "heap \<Rightarrow> nat \<Rightarrow> nat \<Rightarrow> nat \<Rightarrow> heap option" where
  "nand_disconnect_nand h g_out g_in k = do {
     go \<leftarrow> get_gate h g_out;
     gi \<leftarrow> get_gate h g_in;
     c_assert (k < input_count gi);
     slot \<leftarrow> input_at gi k;
     c_assert (in_ind slot < darray_size (outputs go));
     h1 \<leftarrow> (if in_ind slot + 1 \<noteq> darray_size (outputs go)
            then move_last_output h g_out (in_ind slot) else Some h);
     go1 \<leftarrow> get_gate h1 g_out;
     let h2 = set_gate h1 g_out (go1\<lparr>outputs := darray_pop_back (outputs go1)\<rparr>);
     gi2 \<leftarrow> get_gate h2 g_in;
     Some (set_gate h2 g_in (gi2\<lparr>inputs := (inputs gi2)[k := empty_slot]\<rparr>))
   }"

definition nand_disconnect_signal :: "heap \<Rightarrow> nat \<Rightarrow> nat \<Rightarrow> heap option" where
  "nand_disconnect_signal h g k = do {
     gr \<leftarrow> get_gate h g;
     c_assert (k < input_count gr);
     slot \<leftarrow> input_at gr k;
     Some (set_gate h g (gr\<lparr>inputs := (inputs gr)[k := empty_slot]\<rparr>))
   }"

definition nand_disconnect_input :: "heap \<Rightarrow> nat \<Rightarrow> nat \<Rightarrow> heap option" where
  "nand_disconnect_input h g k = do {
     gr \<leftarrow> get_gate h g;
     slot \<leftarrow> input_at gr k;
     h1 \<leftarrow> (if in_type slot = BOOLEAN_SIGNAL_INPUT then nand_disconnect_signal h g k
            else Some h);
     gr1 \<leftarrow> get_gate h1 g;
     slot1 \<leftarrow> input_at gr1 k;
     (if in_type slot1 = NAND_GATE_INPUT then
        (case in_ptr slot1 of GatePtr s \<Rightarrow> nand_disconnect_nand h1 s g k | _ \<Rightarrow> None)
      else Some h1)
   }"

definition nand_connect_nand :: "world \<Rightarrow> nat option \<Rightarrow> nat option \<Rightarrow> nat \<Rightarrow> unit result \<times> world" where
  "nand_connect_nand w g_out g_in k =
     (case (g_out, g_in) of
        (Some go_a, Some gi_a) \<Rightarrow>
          (case get_gate (heap w) gi_a of
             None \<Rightarrow> (Undef, w)
           | Some gi \<Rightarrow>
               if k \<ge> input_count gi then (Errno EINVAL, w)
               else (case input_at gi k of
                  None \<Rightarrow> (Undef, w)
                | Some slot \<Rightarrow>
                    if in_ptr slot = GatePtr go_a then (Done (), w)
                    else (case get_gate (heap w) go_a of
                       None \<Rightarrow> (Undef, w)
                     | Some go \<Rightarrow>
                        (case darray_push_back (alloc w) (outputs go)
                                \<lparr>out_gate = gi_a, out_ind = k\<rparr> of
                           (None, al) \<Rightarrow> (Errno ENOMEM, w\<lparr>alloc := al\<rparr>)
                         | (Some outs, al) \<Rightarrow>
                            (case nand_disconnect_input
                                    (set_gate (heap w) go_a (go\<lparr>outputs := outs\<rparr>)) gi_a k of
                               None \<Rightarrow> (Undef, w)
                             | Some h2 \<Rightarrow>
                                 (case (get_gate h2 gi_a, get_gate h2 go_a) of
                                    (Some gi2, Some go2) \<Rightarrow>
                                      (Done (),
                                       \<lparr>heap = set_gate h2 gi_a (gi2\<lparr>inputs := (inputs gi2)
                                           [k := \<lparr>in_ptr = GatePtr go_a, in_type = NAND_GATE_INPUT,
                                                  in_ind = darray_size (outputs go2) - 1\<rparr>]\<rparr>),
                                        alloc = al\<rparr>)
                                  | _ \<Rightarrow> (Undef, w)))))))
      | _ \<Rightarrow> (Errno EINVAL, w))"

definition nand_connect_signal :: "heap \<Rightarrow> nat option \<Rightarrow> nat option \<Rightarrow> nat \<Rightarrow> unit result \<times> heap" where
  "nand_connect_signal h s g k =
     (case (s, g) of
        (Some s_a, Some g_a) \<Rightarrow>
          (case get_gate h g_a of
             None \<Rightarrow> (Undef, h)
           | Some gr \<Rightarrow>
               if k \<ge> input_count gr then (Errno EINVAL, h)
               else (case nand_disconnect_input h g_a k of
                  None \<Rightarrow> (Undef, h)
                | Some h1 \<Rightarrow>
                    (case get_gate h1 g_a of
                       None \<Rightarrow> (Undef, h)
                     | Some gr1 \<Rightarrow>
                         (Done (), set_gate h1 g_a (gr1\<lparr>inputs := (inputs gr1)
                            [k := \<lparr>in_ptr = BoolPtr s_a, in_type = BOOLEAN_SIGNAL_INPUT,
                                   in_ind = 0\<rparr>]\<rparr>)))))
      | _ \<Rightarrow> (Errno EINVAL, h))"

section \<open>Creation and deletion\<close>

text \<open>
  \<^verbatim>\<open>nand_new\<close> asks the allocator three times: for the gate, for its consumer array and
  for its input array (the last two are both attempted before either is tested).  The
  new gate is stored in a fresh cell at the end of the store.
\<close>

definition nand_new :: "world \<Rightarrow> nat \<Rightarrow> nat result \<times> world" where
  "nand_new w n =
     (if \<not> alloc_ok (alloc w) then (Errno ENOMEM, w\<lparr>alloc := tl (alloc w)\<rparr>)
      else let al1 = tl (alloc w); al2 = tl al1; al3 = tl al2 in
        if \<not> alloc_ok al1 \<or> \<not> alloc_ok al2 then (Errno ENOMEM, w\<lparr>alloc := al3\<rparr>)
        else (Done (length (heap w)),
              \<lparr>heap = heap w @ [Some \<lparr>crit_path_len = 0, inputs = replicate n empty_slot,
                   outputs = [], input_count = n, status = NOT_VISITED, signal = False\<rparr>],
               alloc = al3\<rparr>))"

fun delete_inputs :: "heap \<Rightarrow> nat \<Rightarrow> nat list \<Rightarrow> heap option" where
  "delete_inputs h g [] = Some h"
| "delete_inputs h g (i # is) = do {
     gr \<leftarrow> get_gate h g;
     slot \<leftarrow> input_at gr i;
     h1 \<leftarrow> (if in_type slot \<noteq> EMPTY_INPUT then nand_disconnect_input h g i else Some h);
     delete_inputs h1 g is
   }"

text \<open>
  The second loop of \<^verbatim>\<open>nand_delete\<close> runs while the consumer array is not empty.  Every
  defined call of \<^verbatim>\<open>nand_disconnect_nand\<close> pops one record of it, which is the
  termination argument.
\<close>

function delete_outputs :: "heap \<Rightarrow> nat \<Rightarrow> heap option" where
  "delete_outputs h g =
     (case get_gate h g of
        None \<Rightarrow> None
      | Some gr \<Rightarrow>
          if darray_size (outputs gr) > 0 then
            (case darray_back (outputs gr) of
               None \<Rightarrow> None
             | Some info \<Rightarrow>
                 (case nand_disconnect_nand h g (out_gate info) (out_ind info) of
                    None \<Rightarrow> None
                  | Some h1 \<Rightarrow> delete_outputs h1 g))
          else Some h)"
  by pat_completeness auto

definition nand_delete :: "heap \<Rightarrow> nat option \<Rightarrow> heap option" where
  "nand_delete h g =
     (case g of
        None \<Rightarrow> Some h
      | Some g_a \<Rightarrow> do {
          gr \<leftarrow> get_gate h g_a;
          h1 \<leftarrow> delete_inputs h g_a [0..<input_count gr];
          h2 \<leftarrow> delete_outputs h1 g_a;
          Some (h2[g_a := None])
        })"

section \<open>Topological sorting\<close>

text \<open>
  The three stacks that \<^verbatim>\<open>topo_sort\<close> threads through its helpers, together with the
  store and the allocator's oracle, form the state of the traversal.
\<close>

record dfs_state =
  st_heap :: heap
  st_alloc :: "bool list"
  stack :: "dfs_info_t list"
  topo_order :: "nat list"
  all_gates :: "nat list"

definition process_input_nand :: "nat \<Rightarrow> dfs_state \<Rightarrow> unit result \<times> dfs_state" where
  "process_input_nand g st =
     (case get_gate (st_heap st) g of
        None \<Rightarrow> (Undef, st)
      | Some gr \<Rightarrow>
          if status gr = CURRENTLY_PROCESSING then (Errno ECANCELED, st)
          else if status gr = NOT_VISITED then
            (case stack_push (st_alloc st) (all_gates st) g of
               (None, al) \<Rightarrow> (Errno ENOMEM, st\<lparr>st_alloc := al\<rparr>)
             | (Some ag, al) \<Rightarrow>
                 (case stack_push al (stack st) \<lparr>dfs_gate = g, dfs_ind = 0\<rparr> of
                    (None, al') \<Rightarrow>
                      (Errno ENOMEM,
                       st\<lparr>st_heap := set_gate (st_heap st) g (gr\<lparr>status := CURRENTLY_PROCESSING\<rparr>),
                          st_alloc := al', all_gates := ag\<rparr>)
                  | (Some s', al') \<Rightarrow>
                      (Done (),
                       st\<lparr>st_heap := set_gate (st_heap st) g (gr\<lparr>status := CURRENTLY_PROCESSING\<rparr>),
                          st_alloc := al', stack := s', all_gates := ag\<rparr>)))
          else (Done (), st))"

definition process_input :: "in_info_t \<Rightarrow> dfs_state \<Rightarrow> unit result \<times> dfs_state" where
  "process_input input st =
     (if in_type input = EMPTY_INPUT then (Errno ECANCELED, st)
      else if in_type input = NAND_GATE_INPUT then
        (case in_ptr input of
           GatePtr g \<Rightarrow> process_input_nand g st
         | _ \<Rightarrow> (Undef, st))
      else (Done (), st))"

definition process_node :: "dfs_state \<Rightarrow> unit result \<times> dfs_state" where
  "process_node st =
     (case stack st of
        [] \<Rightarrow> (Undef, st)
      | dfs_info # rest \<Rightarrow>
          (case get_gate (st_heap st) (dfs_gate dfs_info) of
             None \<Rightarrow> (Undef, st)
           | Some gr \<Rightarrow>
               if dfs_ind dfs_info = input_count gr then
                 (case stack_push (st_alloc st) (topo_order st) (dfs_gate dfs_info) of
                    (None, al) \<Rightarrow>
                      (Errno ENOMEM,
                       st\<lparr>st_heap := set_gate (st_heap st) (dfs_gate dfs_info) (gr\<lparr>status := VISITED\<rparr>),
                          st_alloc := al, stack := rest\<rparr>)
                  | (Some t', al) \<Rightarrow>
                      (Done (),
                       st\<lparr>st_heap := set_gate (st_heap st) (dfs_gate dfs_info) (gr\<lparr>status := VISITED\<rparr>),
                          st_alloc := al, stack := rest, topo_order := t'\<rparr>))
               else
                 (case stack_push (st_alloc st) rest (dfs_info\<lparr>dfs_ind := dfs_ind dfs_info + 1\<rparr>) of
                    (None, al) \<Rightarrow> (Errno ENOMEM, st\<lparr>st_alloc := al, stack := rest\<rparr>)
                  | (Some s', al) \<Rightarrow>
                      (case input_at gr (dfs_ind dfs_info) of
                         None \<Rightarrow> (Undef, st)
                       | Some input \<Rightarrow> process_input input (st\<lparr>st_alloc := al, stack := s'\<rparr>)))))"

text \<open>
  The loop of \<^verbatim>\<open>topo_sort_dfs\<close> terminates: every round that returns \<open>0\<close> either
  advances or removes the top frame, and a new frame is pushed only for a gate that
  leaves the status \<open>NOT_VISITED\<close> for good.
\<close>

definition frame_weight :: "heap \<Rightarrow> dfs_info_t \<Rightarrow> nat" where
  "frame_weight h f =
     (case get_gate h (dfs_gate f) of
        None \<Rightarrow> 0
      | Some gr \<Rightarrow> Suc (input_count gr) - dfs_ind f)"

definition gate_weight :: "nand_t option \<Rightarrow> nat" where
  "gate_weight c =
     (case c of
        None \<Rightarrow> 0
      | Some gr \<Rightarrow> if status gr = NOT_VISITED then input_count gr + 2 else 0)"

definition dfs_measure :: "dfs_state \<Rightarrow> nat" where
  "dfs_measure st =
     sum_list (map (frame_weight (st_heap st)) (stack st)) + sum_list (map gate_weight (st_heap st))"

function dfs_loop :: "dfs_state \<Rightarrow> unit result \<times> dfs_state" where
  "dfs_loop st =
     (if 0 < length (stack st) then
        (case process_node st of
           (Done u, st') \<Rightarrow> dfs_loop st'
         | (r, st') \<Rightarrow> (r, st'))
      else (Done (), st))"
  by pat_completeness auto

definition topo_sort_dfs :: "nat \<Rightarrow> dfs_state \<Rightarrow> unit result \<times> dfs_state" where
  "topo_sort_dfs g st =
     (case stack_push (st_alloc st) (all_gates st) g of
        (None, al) \<Rightarrow> (Errno ENOMEM, st\<lparr>st_alloc := al\<rparr>)
      | (Some ag, al) \<Rightarrow>
          (case stack_push al (stack st) \<lparr>dfs_gate = g, dfs_ind = 0\<rparr> of
             (None, al') \<Rightarrow> (Errno ENOMEM, st\<lparr>st_alloc := al', all_gates := ag\<rparr>)
           | (Some s', al') \<Rightarrow>
               (case get_gate (st_heap st) g of
                  None \<Rightarrow> (Undef, st)
                | Some gr \<Rightarrow>
                    dfs_loop (st\<lparr>st_heap := set_gate (st_heap st) g (gr\<lparr>status := CURRENTLY_PROCESSING\<rparr>),
                                st_alloc := al', stack := s', all_gates := ag\<rparr>))))"

fun clear_gates :: "heap \<Rightarrow> nat list \<Rightarrow> heap option" where
  "clear_gates h [] = Some h"
| "clear_gates h (a # as) =
     (case get_gate h a of
        None \<Rightarrow> None
      | Some gr \<Rightarrow> clear_gates (set_gate h a (gr\<lparr>status := NOT_VISITED\<rparr>)) as)"

fun topo_sort_for :: "nat list \<Rightarrow> dfs_state \<Rightarrow> unit result \<times> dfs_state" where
  "topo_sort_for [] st = (Done (), st)"
| "topo_sort_for (g # gs) st =
     (case get_gate (st_heap st) g of
        None \<Rightarrow> (Undef, st)
      | Some gr \<Rightarrow>
          if status gr = VISITED then topo_sort_for gs st
          else (case topo_sort_dfs g st of
                  (Done u, st') \<Rightarrow> topo_sort_for gs st'
                | (r, st') \<Rightarrow> (r, st')))"

text \<open>
  \<^verbatim>\<open>topo_sort\<close> receives the empty \<^verbatim>\<open>topo_order\<close> stack of its caller and returns it
  reversed, whatever the outcome of the traversal.
\<close>

definition topo_sort :: "world \<Rightarrow> nat list \<Rightarrow> nat list \<Rightarrow> unit result \<times> world \<times> nat list" where
  "topo_sort w g topo =
     (if \<not> alloc_ok (alloc w) then (Errno ENOMEM, w\<lparr>alloc := tl (alloc w)\<rparr>, topo)
      else if \<not> alloc_ok (tl (alloc w)) then (Errno ENOMEM, w\<lparr>alloc := tl (tl (alloc w))\<rparr>, topo)
      else
        (case topo_sort_for g \<lparr>st_heap = heap w, st_alloc = tl (tl (alloc w)), stack = [],
                                topo_order = topo, all_gates = []\<rparr> of
           (r, st) \<Rightarrow>
             (case clear_gates (st_heap st) (all_gates st) of
                None \<Rightarrow> (Undef, w, topo)
              | Some h \<Rightarrow>
                  (r, \<lparr>heap = h, alloc = st_alloc st\<rparr>, stack_reverse (topo_order st)))))"

section \<open>Evaluation\<close>

definition evaluate_input :: "(nat \<Rightarrow> bool) \<Rightarrow> nat \<Rightarrow> nat \<Rightarrow> heap \<Rightarrow> heap option" where
  "evaluate_input sg g i h = do {
     gr \<leftarrow> get_gate h g;
     input \<leftarrow> input_at gr i;
     c_assert (in_type input \<noteq> EMPTY_INPUT);
     (if in_type input = BOOLEAN_SIGNAL_INPUT then
        (case in_ptr input of
           BoolPtr b \<Rightarrow>
             Some (set_gate h g
               (gr\<lparr>crit_path_len := (if crit_path_len gr < 1 then 1 else crit_path_len gr),
                   signal := (signal gr \<and> sg b)\<rparr>))
         | _ \<Rightarrow> None)
      else
        (case in_ptr input of
           GatePtr s \<Rightarrow> do {
             hr \<leftarrow> get_gate h s;
             Some (set_gate h g
               (gr\<lparr>crit_path_len := (if crit_path_len gr < crit_path_len hr + 1
                                      then crit_path_len hr + 1 else crit_path_len gr),
                   signal := (signal gr \<and> signal hr)\<rparr>))
           }
         | _ \<Rightarrow> None))
   }"

fun evaluate_inputs :: "(nat \<Rightarrow> bool) \<Rightarrow> nat \<Rightarrow> nat list \<Rightarrow> heap \<Rightarrow> heap option" where
  "evaluate_inputs sg g [] h = Some h"
| "evaluate_inputs sg g (i # is) h =
     (case evaluate_input sg g i h of
        None \<Rightarrow> None
      | Some h' \<Rightarrow> evaluate_inputs sg g is h')"

definition evaluate_gate :: "(nat \<Rightarrow> bool) \<Rightarrow> nat \<Rightarrow> heap \<Rightarrow> heap option" where
  "evaluate_gate sg g h = do {
     gr \<leftarrow> get_gate h g;
     h1 \<leftarrow> evaluate_inputs sg g [0..<input_count gr]
            (set_gate h g (gr\<lparr>crit_path_len := 0, signal := True\<rparr>));
     gr1 \<leftarrow> get_gate h1 g;
     Some (set_gate h1 g (gr1\<lparr>signal := \<not> signal gr1\<rparr>))
   }"

fun evaluate_sorted :: "(nat \<Rightarrow> bool) \<Rightarrow> nat list \<Rightarrow> heap \<Rightarrow> heap option" where
  "evaluate_sorted sg [] h = Some h"
| "evaluate_sorted sg (g # s) h =
     (case evaluate_gate sg g h of
        None \<Rightarrow> None
      | Some h' \<Rightarrow> evaluate_sorted sg s h')"

fun collect_results :: "heap \<Rightarrow> nat list \<Rightarrow> int \<Rightarrow> (bool list \<times> int) option" where
  "collect_results h [] l = Some ([], l)"
| "collect_results h (g # gs) l =
     (case get_gate h g of
        None \<Rightarrow> None
      | Some gr \<Rightarrow>
          (case collect_results h gs (if l < crit_path_len gr then crit_path_len gr else l) of
             None \<Rightarrow> None
           | Some (s, l') \<Rightarrow> Some (signal gr # s, l')))"

definition nand_evaluate_all :: "world \<Rightarrow> (nat \<Rightarrow> bool) \<Rightarrow> nat list \<Rightarrow> (bool list \<times> int) result \<times> world" where
  "nand_evaluate_all w sg g =
     (if \<not> alloc_ok (alloc w) then (Errno ENOMEM, w\<lparr>alloc := tl (alloc w)\<rparr>)
      else
        (case topo_sort (w\<lparr>alloc := tl (alloc w)\<rparr>) g [] of
           (Done u, w', topo) \<Rightarrow>
             (case evaluate_sorted sg topo (heap w') of
                None \<Rightarrow> (Undef, w')
              | Some h \<Rightarrow>
                  (case collect_results h g 0 of
                     None \<Rightarrow> (Undef, w')
                   | Some r \<Rightarrow> (Done r, w'\<lparr>heap := h\<rparr>)))
         | (Errno e, w', topo) \<Rightarrow> (Errno e, w')
         | (Undef, w', topo) \<Rightarrow> (Undef, w')))"

text \<open>
  The request array \<^verbatim>\<open>g\<close> of \<^verbatim>\<open>nand_evaluate\<close> is the list of its \<^verbatim>\<open>m\<close> cells, each
  a gate address or \<^verbatim>\<open>NULL\<close>; the arrays \<^verbatim>\<open>g\<close> and \<^verbatim>\<open>s\<close> themselves are taken to be
  present.  The count \<^verbatim>\<open>m\<close> is a \<^verbatim>\<open>size_t\<close> in \<^verbatim>\<open>nand_evaluate\<close>, which tests all \<^verbatim>\<open>m\<close>
  cells, and an \<^verbatim>\<open>unsigned\<close> in \<^verbatim>\<open>nand_evaluate_all\<close>: the call converts it modulo
  \<open>2 ^ 32\<close>, so that \<^verbatim>\<open>nand_evaluate_all\<close> sees the first \<open>m mod 2 ^ 32\<close> cells only.  The
  result carries the cells written to \<^verbatim>\<open>s\<close> and the returned length.
\<close>

definition nand_evaluate :: "world \<Rightarrow> (nat \<Rightarrow> bool) \<Rightarrow> nat option list \<Rightarrow> (bool list \<times> int) result \<times> world" where
  "nand_evaluate w sg g =
     (if length g = 0 then (Errno EINVAL, w)
      else if None \<in> set g then (Errno EINVAL, w)
      else nand_evaluate_all w sg (map the (take (length g mod 2 ^ 32) g)))"

section \<open>Queries\<close>

definition nand_fan_out :: "heap \<Rightarrow> nat option \<Rightarrow> int result" where
  "nand_fan_out h g =
     (case g of
        None \<Rightarrow> Errno EINVAL
      | Some g_a \<Rightarrow>
          (case get_gate h g_a of
             None \<Rightarrow> Undef
           | Some gr \<Rightarrow> Done (int (darray_size (outputs gr)))))"

definition nand_input :: "heap \<Rightarrow> nat option \<Rightarrow> nat \<Rightarrow> ptr result" where
  "nand_input h g k =
     (case g of
        None \<Rightarrow> Errno EINVAL
      | Some g_a \<Rightarrow>
          (case get_gate h g_a of
             None \<Rightarrow> Undef
           | Some gr \<Rightarrow>
               if k \<ge> input_count gr then Errno EINVAL
               else (case input_at gr k of
                  None \<Rightarrow> Undef
                | Some input \<Rightarrow>
                    if in_type input = EMPTY_INPUT then Done NULL else Done (in_ptr input))))"

text \<open>
  \<^verbatim>\<open>nand_output\<close> compares the signed index with the fan-out and then passes it to
  \<^verbatim>\<open>darray_get\<close>, whose index is a \<^verbatim>\<open>size_t\<close>: the conversion takes a negative index
  modulo \<open>2 ^ 64\<close>.
\<close>

definition nand_output :: "heap \<Rightarrow> nat option \<Rightarrow> int \<Rightarrow> nat result" where
  "nand_output h g k =
     (case g of
        None \<Rightarrow> Errno EINVAL
      | Some g_a \<Rightarrow>
          (case nand_fan_out h g of
             Done n \<Rightarrow>
               if k \<ge> n then Errno EINVAL
               else (case get_gate h g_a of
                  None \<Rightarrow> Undef
                | Some gr \<Rightarrow>
                    (case darray_get (outputs gr) (nat (k mod 2 ^ 64)) of
                       None \<Rightarrow> Undef
                     | Some info \<Rightarrow> Done (out_gate info)))
           | Errno e \<Rightarrow> Errno EINVAL
           | Undef \<Rightarrow> Undef))"

section \<open>Basic facts about the store\<close>


lemma length_set_gate [simp]: "length (set_gate h a g) = length h"
  by (simp add: set_gate_def)

lemma get_gate_set_gate:
  "a < length h \<Longrightarrow> get_gate (set_gate h a g) b = (if b = a then Some g else get_gate h b)"
  by (auto simp: get_gate_def set_gate_def)

lemma get_gate_set_gate_same [simp]:
  "a < length h \<Longrightarrow> get_gate (set_gate h a g) a = Some g"
  by (simp add: get_gate_set_gate)

lemma get_gate_valid: "get_gate h a = Some g \<Longrightarrow> a < length h"
  by (auto simp: get_gate_def split: if_splits)

lemma array_get_Some [simp]: "array_get xs i = Some x \<longleftrightarrow> i < length xs \<and> x = xs ! i"
  by (auto simp: array_get_def)

lemma input_at_Some [simp]:
  "input_at g k = Some x \<longleftrightarrow> k < input_count g \<and> k < length (inputs g) \<and> x = inputs g ! k"
  by (auto simp: input_at_def)

lemma c_assert_Some [simp]: "c_assert b = Some u \<longleftrightarrow> b"
  by (auto simp: c_assert_def)

text \<open>
  A heap transformer \<open>acts\<close> gate by gate: it keeps every cell allocated or free
  and rewrites each gate by a function of its address.
\<close>

definition acts :: "heap \<Rightarrow> heap \<Rightarrow> (nat \<Rightarrow> nand_t \<Rightarrow> nand_t) \<Rightarrow> bool" where
  "acts h h' F \<longleftrightarrow> length h' = length h \<and> (\<forall>a. get_gate h' a = map_option (F a) (get_gate h a))"

lemma acts_set_gate:
  assumes "get_gate h a0 = Some g0"
  shows "acts h (set_gate h a0 (f g0)) (\<lambda>a g. if a = a0 then f g else g)"
  using assms get_gate_valid[OF assms] by (auto simp: acts_def get_gate_set_gate option.map_ident)

lemma acts_trans: "acts h h1 F \<Longrightarrow> acts h1 h2 G \<Longrightarrow> acts h h2 (\<lambda>a. G a \<circ> F a)"
  by (auto simp: acts_def option.map_comp)

lemma acts_cong: "acts h h' F \<Longrightarrow> (\<And>a g. get_gate h a = Some g \<Longrightarrow> F a g = G a g) \<Longrightarrow> acts h h' G"
  by (auto simp: acts_def map_option_case split: option.splits)

lemmas darray_defs = darray_size_def darray_get_def darray_back_def darray_swap_elements_def
  darray_pop_back_def

lemma move_last_output_effect:
  assumes "move_last_output h S oi = Some h'" "oi < length (outputs s)" "get_gate h S = Some s"
  shows "acts h h' (\<lambda>a g.
           g\<lparr>outputs := (if a = S then (outputs g)[oi := last (outputs g), length (outputs g) - 1 := outputs g ! oi] else outputs g),
             inputs := (if a = out_gate (last (outputs s))
                        then (inputs g)[out_ind (last (outputs s)) := (inputs g ! out_ind (last (outputs s)))\<lparr>in_ind := oi\<rparr>]
                        else inputs g)\<rparr>)"
    and "\<exists>m. get_gate h (out_gate (last (outputs s))) = Some m \<and> out_ind (last (outputs s)) < length (inputs m)
           \<and> out_ind (last (outputs s)) < input_count m"
proof -
  have S: "S < length h" using assms(3) by (rule get_gate_valid)
  have ne: "outputs s \<noteq> []" using assms(2) by auto
  have lt: "length (outputs s) - Suc 0 < length (outputs s)" using assms(2) by auto
  let ?m = "last (outputs s)"
  let ?sw = "\<lambda>g::nand_t. g\<lparr>outputs := (outputs g)[oi := outputs g ! (length (outputs g) - Suc 0), length (outputs g) - Suc 0 := outputs g ! oi]\<rparr>"
  let ?fx = "\<lambda>g::nand_t. g\<lparr>inputs := (inputs g)[out_ind ?m := (inputs g ! out_ind ?m)\<lparr>in_ind := oi\<rparr>]\<rparr>"
  let ?h1 = "set_gate h S (?sw s)"
  have a1: "acts h ?h1 (\<lambda>a g. if a = S then ?sw g else g)"
    by (rule acts_set_gate[OF assms(3)])
  have m: "(outputs s)[oi := outputs s ! (length (outputs s) - Suc 0), length (outputs s) - Suc 0 := outputs s ! oi] ! oi = ?m"
    using assms(2) ne lt by (auto simp: last_conv_nth nth_list_update)
  have "\<exists>t. get_gate ?h1 (out_gate ?m) = Some t
      \<and> out_ind ?m < length (inputs t) \<and> out_ind ?m < input_count t
      \<and> h' = set_gate ?h1 (out_gate ?m) (?fx t)"
    using assms S
    by (auto simp add: move_last_output_def darray_defs Let_def bind_eq_Some_conv m)
  then obtain t where
    t: "get_gate ?h1 (out_gate ?m) = Some t"
    and tk: "out_ind ?m < length (inputs t)" "out_ind ?m < input_count t"
    and h': "h' = set_gate ?h1 (out_gate ?m) (?fx t)"
    by blast
  have a2: "acts ?h1 h' (\<lambda>a g. if a = out_gate ?m then ?fx g else g)"
    unfolding h' by (rule acts_set_gate[OF t])
  show "acts h h' (\<lambda>a g.
           g\<lparr>outputs := (if a = S then (outputs g)[oi := last (outputs g), length (outputs g) - 1 := outputs g ! oi] else outputs g),
             inputs := (if a = out_gate (last (outputs s))
                        then (inputs g)[out_ind (last (outputs s)) := (inputs g ! out_ind (last (outputs s)))\<lparr>in_ind := oi\<rparr>]
                        else inputs g)\<rparr>)"
    apply (rule acts_cong[OF acts_trans[OF a1 a2]])
    using assms(3) ne apply (auto simp: last_conv_nth)
    done
  from t show "\<exists>m. get_gate h (out_gate (last (outputs s))) = Some m \<and> out_ind (last (outputs s)) < length (inputs m)
           \<and> out_ind (last (outputs s)) < input_count m"
    using tk S assms(3) by (auto simp: get_gate_set_gate split: if_splits)
qed


definition disconnect_effect :: "nat \<Rightarrow> nat \<Rightarrow> nat \<Rightarrow> nat \<Rightarrow> out_info_t \<Rightarrow> bool \<Rightarrow> nat \<Rightarrow> nand_t \<Rightarrow> nand_t" where
  "disconnect_effect S T k oi m moved a g =
     g\<lparr>outputs := (if a = S then (butlast (outputs g))[oi := last (outputs g)] else outputs g),
       inputs := (let ins = (if moved \<and> a = out_gate m
                             then (inputs g)[out_ind m := (inputs g ! out_ind m)\<lparr>in_ind := oi\<rparr>]
                             else inputs g)
                  in if a = T then ins[k := empty_slot] else ins)\<rparr>"

lemma acts_validD: "acts h h' F \<Longrightarrow> get_gate h a = Some g \<Longrightarrow> get_gate h' a = Some (F a g)"
  by (simp add: acts_def)

lemma acts_refl: "acts h h (\<lambda>a g. g)"
  by (simp add: acts_def option.map_ident)

lemma nand_disconnect_nand_effect:
  assumes "nand_disconnect_nand h S T k = Some h'"
  obtains s t where
    "get_gate h S = Some s" "get_gate h T = Some t" "k < input_count t" "k < length (inputs t)"
    "in_ind (inputs t ! k) < length (outputs s)"
    "acts h h' (disconnect_effect S T k (in_ind (inputs t ! k)) (last (outputs s))
                  (Suc (in_ind (inputs t ! k)) \<noteq> length (outputs s)))"
    "Suc (in_ind (inputs t ! k)) \<noteq> length (outputs s) \<Longrightarrow>
       \<exists>m. get_gate h (out_gate (last (outputs s))) = Some m \<and> out_ind (last (outputs s)) < length (inputs m)
           \<and> out_ind (last (outputs s)) < input_count m"
proof -
  from assms obtain s t where s: "get_gate h S = Some s" and t: "get_gate h T = Some t"
    and k: "k < input_count t" "k < length (inputs t)"
    and oi: "in_ind (inputs t ! k) < length (outputs s)"
    by (auto simp: nand_disconnect_nand_def bind_eq_Some_conv darray_defs)
  let ?oi = "in_ind (inputs t ! k)"
  let ?m = "last (outputs s)"
  let ?moved = "Suc ?oi \<noteq> length (outputs s)"
  let ?F1 = "\<lambda>a (g::nand_t). if ?moved then
           g\<lparr>outputs := (if a = S then (outputs g)[?oi := last (outputs g), length (outputs g) - 1 := outputs g ! ?oi] else outputs g),
             inputs := (if a = out_gate ?m
                        then (inputs g)[out_ind ?m := (inputs g ! out_ind ?m)\<lparr>in_ind := ?oi\<rparr>]
                        else inputs g)\<rparr> else g"
  let ?pop = "\<lambda>g::nand_t. g\<lparr>outputs := butlast (outputs g)\<rparr>"
  let ?clr = "\<lambda>g::nand_t. g\<lparr>inputs := (inputs g)[k := empty_slot]\<rparr>"
  from assms s t k oi obtain h1 where
    h1: "(if ?moved then move_last_output h S ?oi else Some h) = Some h1"
    and rest: "do { go1 \<leftarrow> get_gate h1 S;
       let h2 = set_gate h1 S (?pop go1);
       gi2 \<leftarrow> get_gate h2 T;
       Some (set_gate h2 T (?clr gi2)) } = Some h'"
    by (auto simp: nand_disconnect_nand_def bind_eq_Some_conv darray_defs)
  have a1: "acts h h1 ?F1"
  proof (cases ?moved)
    case True
    with h1 have "move_last_output h S ?oi = Some h1" by simp
    from move_last_output_effect(1)[OF this oi s] True show ?thesis by simp
  next
    case False
    with h1 show ?thesis by (simp add: acts_refl)
  qed
  have mv: "?moved \<Longrightarrow> \<exists>m. get_gate h (out_gate ?m) = Some m \<and> out_ind ?m < length (inputs m)
     \<and> out_ind ?m < input_count m"
  proof -
    assume mvd: ?moved
    with h1 have "move_last_output h S ?oi = Some h1" by simp
    from move_last_output_effect(2)[OF this oi s] show ?thesis .
  qed
  from acts_validD[OF a1 s] obtain s1 where s1: "get_gate h1 S = Some s1" by blast
  let ?h2 = "set_gate h1 S (?pop s1)"
  have a2: "acts h1 ?h2 (\<lambda>a g. if a = S then ?pop g else g)"
    by (rule acts_set_gate[OF s1])
  from acts_validD[OF acts_trans[OF a1 a2] t] obtain t2 where t2: "get_gate ?h2 T = Some t2" by blast
  from rest s1 t2 have h': "h' = set_gate ?h2 T (?clr t2)"
    by (simp add: Let_def)
  have a3: "acts ?h2 h' (\<lambda>a g. if a = T then ?clr g else g)"
    unfolding h' by (rule acts_set_gate[OF t2])
  have "acts h h' (disconnect_effect S T k ?oi ?m ?moved)"
    apply (rule acts_cong[OF acts_trans[OF acts_trans[OF a1 a2] a3]])
    using s oi
    apply (auto simp: disconnect_effect_def Let_def butlast_list_update last_conv_nth list_update_beyond)
    done
  with s t k oi mv show ?thesis using that by blast
qed


lemma disconnect_nand_outputs:
  assumes "nand_disconnect_nand h g t k = Some h1" "get_gate h g = Some gr"
  shows "\<exists>gr1. get_gate h1 g = Some gr1 \<and> length (outputs gr1) < length (outputs gr)"
proof (rule nand_disconnect_nand_effect[OF assms(1)])
  fix s t'
  assume s: "get_gate h g = Some s"
    and oi: "in_ind (inputs t' ! k) < length (outputs s)"
    and a: "acts h h1 (disconnect_effect g t k (in_ind (inputs t' ! k)) (last (outputs s))
                  (Suc (in_ind (inputs t' ! k)) \<noteq> length (outputs s)))"
  from acts_validD[OF a s] assms(2) s oi show ?thesis
    by (auto simp: disconnect_effect_def)
qed

termination delete_outputs
proof (relation "measure (\<lambda>(h, g). case get_gate h g of None \<Rightarrow> 0 | Some gr \<Rightarrow> length (outputs gr))")
  show "wf (measure (\<lambda>(h, g). case get_gate h g of None \<Rightarrow> 0 | Some gr \<Rightarrow> length (outputs gr)))"
    by simp
next
  fix h g gr and info :: out_info_t and h1
  assume "get_gate h g = Some gr" "nand_disconnect_nand h g (out_gate info) (out_ind info) = Some h1"
  from disconnect_nand_outputs[OF this(2,1)] this(1)
  show "((h1, g), (h, g)) \<in> measure (\<lambda>(h, g). case get_gate h g of None \<Rightarrow> 0 | Some gr \<Rightarrow> length (outputs gr))"
    by auto
qed

lemma frame_weight_set_gate:
  assumes "get_gate h a = Some gr" "input_count g' = input_count gr"
  shows "frame_weight (set_gate h a g') = frame_weight h"
  using assms get_gate_valid[OF assms(1)]
  by (auto simp: frame_weight_def fun_eq_iff get_gate_set_gate)

lemma gate_weight_set_gate:
  assumes "get_gate h a = Some gr"
  shows "sum_list (map gate_weight (set_gate h a g')) + gate_weight (Some gr)
          = sum_list (map gate_weight h) + gate_weight (Some g')"
proof -
  have a: "a < length h" and e: "h ! a = Some gr"
    using assms by (auto simp: get_gate_def split: if_splits)
  have "sum_list (map gate_weight (h[a := Some g'])) = sum_list ((map gate_weight h)[a := gate_weight (Some g')])"
    by (simp add: map_update)
  also have "\<dots> = sum_list (map gate_weight h) + gate_weight (Some g') - (map gate_weight h) ! a"
    using a by (simp add: sum_list_update)
  finally have "sum_list (map gate_weight (h[a := Some g'])) = sum_list (map gate_weight h) + gate_weight (Some g') - gate_weight (Some gr)"
    using a e by simp
  moreover have "gate_weight (Some gr) \<le> sum_list (map gate_weight h)"
  proof -
    have "gate_weight (h ! a) \<in> set (map gate_weight h)" using a by simp
    from member_le_sum_list[OF this] e show ?thesis by simp
  qed
  ultimately show ?thesis by (simp add: set_gate_def)
qed

lemma process_input_nand_measure:
  assumes "process_input_nand g st = (Done u, st')"
  shows "dfs_measure st' \<le> dfs_measure st"
proof -
  from assms obtain gr where gr: "get_gate (st_heap st) g = Some gr"
    by (auto simp: process_input_nand_def split: option.splits)
  show ?thesis
  proof (cases "status gr = NOT_VISITED")
    case False
    with assms gr show ?thesis
      by (auto simp: process_input_nand_def split: if_splits)
  next
    case True
    let ?h' = "set_gate (st_heap st) g (gr\<lparr>status := CURRENTLY_PROCESSING\<rparr>)"
    from assms gr True have st': "st_heap st' = ?h'" "stack st' = \<lparr>dfs_gate = g, dfs_ind = 0\<rparr> # stack st"
      by (auto simp: process_input_nand_def stack_push_def split: if_splits prod.splits option.splits)
    have fw: "frame_weight ?h' = frame_weight (st_heap st)"
      by (rule frame_weight_set_gate[OF gr]) simp
    have gw: "sum_list (map gate_weight ?h') + (input_count gr + 2) = sum_list (map gate_weight (st_heap st))"
      using gate_weight_set_gate[OF gr, of "gr\<lparr>status := CURRENTLY_PROCESSING\<rparr>"] True
      by (simp add: gate_weight_def)
    have "frame_weight (st_heap st) \<lparr>dfs_gate = g, dfs_ind = 0\<rparr> = Suc (input_count gr)"
      using gr by (simp add: frame_weight_def)
    with fw gw st' show ?thesis
      by (simp add: dfs_measure_def)
  qed
qed

lemma process_input_measure:
  assumes "process_input input st = (Done u, st')"
  shows "dfs_measure st' \<le> dfs_measure st"
  using assms process_input_nand_measure
  by (auto simp: process_input_def split: if_splits ptr.splits)

lemma process_node_measure:
  assumes "process_node st = (Done u, st')"
  shows "dfs_measure st' < dfs_measure st"
proof -
  from assms obtain f rest gr where stk: "stack st = f # rest"
    and gr: "get_gate (st_heap st) (dfs_gate f) = Some gr"
    by (auto simp: process_node_def split: list.splits option.splits)
  show ?thesis
  proof (cases "dfs_ind f = input_count gr")
    case True
    let ?h' = "set_gate (st_heap st) (dfs_gate f) (gr\<lparr>status := VISITED\<rparr>)"
    from assms stk gr True have st': "st_heap st' = ?h'" "stack st' = rest"
      by (auto simp: process_node_def stack_push_def split: if_splits prod.splits option.splits)
    have fw: "frame_weight ?h' = frame_weight (st_heap st)"
      by (rule frame_weight_set_gate[OF gr]) simp
    have gw: "sum_list (map gate_weight ?h') \<le> sum_list (map gate_weight (st_heap st))"
      using gate_weight_set_gate[OF gr, of "gr\<lparr>status := VISITED\<rparr>"]
      by (simp add: gate_weight_def)
    have "frame_weight (st_heap st) f = 1"
      using gr True by (simp add: frame_weight_def)
    with fw gw st' stk show ?thesis
      by (simp add: dfs_measure_def)
  next
    case False
    from assms stk gr False obtain al input where
      k: "dfs_ind f < input_count gr"
      and pi: "process_input input (st\<lparr>st_alloc := al, stack := f\<lparr>dfs_ind := dfs_ind f + 1\<rparr> # rest\<rparr>) = (Done u, st')"
      by (auto simp: process_node_def stack_push_def split: if_splits prod.splits option.splits)
    have "frame_weight (st_heap st) (f\<lparr>dfs_ind := dfs_ind f + 1\<rparr>) < frame_weight (st_heap st) f"
      using gr k by (simp add: frame_weight_def)
    then have "dfs_measure (st\<lparr>st_alloc := al, stack := f\<lparr>dfs_ind := dfs_ind f + 1\<rparr> # rest\<rparr>) < dfs_measure st"
      using stk by (simp add: dfs_measure_def)
    with process_input_measure[OF pi] show ?thesis by simp
  qed
qed

termination dfs_loop
proof (relation "measure dfs_measure")
  show "wf (measure dfs_measure)" by simp
next
  fix st :: dfs_state and r st' u
  assume "(r, st') = process_node st" "r = Done u"
  then have "process_node st = (Done u, st')" by simp
  from process_node_measure[OF this] show "(st', st) \<in> measure dfs_measure" by simp
qed

section \<open>Argument validation\<close>


text \<open>
  C7: \<^verbatim>\<open>nand_connect_nand\<close> validates its arguments before anything else: a \<^verbatim>\<open>NULL\<close> handle
  or a slot index that is not below the arity of the target gives \<open>EINVAL\<close> and leaves
  the world as it was, whatever the input array holds; a valid call whose slot already
  points at the source gate returns \<open>0\<close> and changes nothing; and a call that fails
  with \<open>ENOMEM\<close> leaves the store, and with it the target slot, unchanged.
\<close>

theorem connect_nand_validation_and_noop:
  "(g_out = None \<or> g_in = None \<longrightarrow> nand_connect_nand w g_out g_in k = (Errno EINVAL, w))
   \<and> (get_gate (heap w) gi = Some gr \<and> input_count gr \<le> k \<longrightarrow>
        nand_connect_nand w (Some go) (Some gi) k = (Errno EINVAL, w))
   \<and> (get_gate (heap w) gi = Some gr \<and> input_at gr k = Some slot \<and> in_ptr slot = GatePtr go \<longrightarrow>
        nand_connect_nand w (Some go) (Some gi) k = (Done (), w))
   \<and> (fst (nand_connect_nand w g_out g_in k) = Errno ENOMEM \<longrightarrow>
        heap (snd (nand_connect_nand w g_out g_in k)) = heap w)"
proof (intro conjI impI)
  assume "g_out = None \<or> g_in = None"
  then show "nand_connect_nand w g_out g_in k = (Errno EINVAL, w)"
    by (auto simp: nand_connect_nand_def split: option.splits)
next
  assume "get_gate (heap w) gi = Some gr \<and> input_count gr \<le> k"
  then show "nand_connect_nand w (Some go) (Some gi) k = (Errno EINVAL, w)"
    by (simp add: nand_connect_nand_def)
next
  assume "get_gate (heap w) gi = Some gr \<and> input_at gr k = Some slot \<and> in_ptr slot = GatePtr go"
  then show "nand_connect_nand w (Some go) (Some gi) k = (Done (), w)"
    by (auto simp: nand_connect_nand_def split: option.splits)
next
  assume "fst (nand_connect_nand w g_out g_in k) = Errno ENOMEM"
  then show "heap (snd (nand_connect_nand w g_out g_in k)) = heap w"
    by (auto simp: nand_connect_nand_def darray_push_back_def
        split: option.splits if_splits prod.splits)
qed

definition two_gates :: world where
  "two_gates = \<lparr>heap =
     [Some \<lparr>crit_path_len = 0, inputs = [], outputs = [\<lparr>out_gate = 1, out_ind = 0\<rparr>],
            input_count = 0, status = NOT_VISITED, signal = False\<rparr>,
      Some \<lparr>crit_path_len = 0,
            inputs = [\<lparr>in_ptr = GatePtr 0, in_type = NAND_GATE_INPUT, in_ind = 0\<rparr>],
            outputs = [], input_count = 1, status = NOT_VISITED, signal = False\<rparr>],
     alloc = [False]\<rparr>"

theorem connect_nand_validation_and_noop_witness:
  "nand_connect_nand two_gates None (Some 1) 0 = (Errno EINVAL, two_gates)
   \<and> nand_connect_nand two_gates (Some 0) (Some 1) 1 = (Errno EINVAL, two_gates)
   \<and> nand_connect_nand two_gates (Some 0) (Some 1) 0 = (Done (), two_gates)
   \<and> fst (nand_connect_nand two_gates (Some 1) (Some 1) 0) = Errno ENOMEM
   \<and> heap (snd (nand_connect_nand two_gates (Some 1) (Some 1) 0)) = heap two_gates"
proof -
  have g: "get_gate (heap two_gates) 1 =
      Some \<lparr>crit_path_len = 0,
            inputs = [\<lparr>in_ptr = GatePtr 0, in_type = NAND_GATE_INPUT, in_ind = 0\<rparr>],
            outputs = [], input_count = 1, status = NOT_VISITED, signal = False\<rparr>"
    by (simp add: two_gates_def get_gate_def)
  have e: "fst (nand_connect_nand two_gates (Some 1) (Some 1) 0) = Errno ENOMEM"
    by (simp add: nand_connect_nand_def two_gates_def get_gate_def input_at_def array_get_def
        darray_push_back_def alloc_ok_def)
  note inst = connect_nand_validation_and_noop[where w=two_gates and gi=1 and go=0 and
      gr="\<lparr>crit_path_len = 0,
            inputs = [\<lparr>in_ptr = GatePtr 0, in_type = NAND_GATE_INPUT, in_ind = 0\<rparr>],
            outputs = [], input_count = 1, status = NOT_VISITED, signal = False\<rparr>"
      and slot="\<lparr>in_ptr = GatePtr 0, in_type = NAND_GATE_INPUT, in_ind = 0\<rparr>"]
  from inst[where g_out=None and g_in="Some 1" and k=0]
  have 1: "nand_connect_nand two_gates None (Some 1) 0 = (Errno EINVAL, two_gates)" by simp
  from inst[where k=1] g
  have 2: "nand_connect_nand two_gates (Some 0) (Some 1) 1 = (Errno EINVAL, two_gates)" by simp
  from inst[where k=0] g
  have 3: "nand_connect_nand two_gates (Some 0) (Some 1) 0 = (Done (), two_gates)"
    by simp
  from inst[where k=0 and g_out="Some 1" and g_in="Some 1"] e
  have 4: "heap (snd (nand_connect_nand two_gates (Some 1) (Some 1) 0)) = heap two_gates" by simp
  from 1 2 3 e 4 show ?thesis by simp
qed

text \<open>
  C9: \<^verbatim>\<open>nand_output\<close> returns the consumer gate of record \<open>k\<close> for \<open>0 \<le> k < fan-out\<close> and
  reports \<open>EINVAL\<close> for \<open>k\<close> at or above the fan-out, but a negative \<open>k\<close> passes the
  only test and reaches \<^verbatim>\<open>darray_get\<close> with an index far outside the array.
\<close>

theorem nand_output_negative_index:
  assumes "get_gate h g = Some gr" "k < 0" "- (2 ^ 63) \<le> k" "length (outputs gr) < 2 ^ 63"
  shows "nand_output h (Some g) k = Undef"
proof -
  have "k mod 2 ^ 64 = (k + 2 ^ 64) mod 2 ^ 64" by simp
  also have "\<dots> = k + 2 ^ 64"
    using assms(2,3) by (intro mod_pos_pos_trivial) simp_all
  finally have "k mod 2 ^ 64 = k + 2 ^ 64" .
  moreover have "int (length (outputs gr)) < 2 ^ 63" using assms(4) by simp
  moreover have "(2::int) ^ 64 = 2 * 2 ^ 63" by simp
  ultimately have "\<not> nat (k mod 2 ^ 64) < length (outputs gr)"
    using assms(3) by linarith
  then show ?thesis
    using assms(1,2)
    by (simp add: nand_output_def nand_fan_out_def darray_defs array_get_def)
qed

theorem nand_output_negative_index_witness:
  "nand_output (heap two_gates) (Some 0) (- 1) = Undef"
  using nand_output_negative_index[of "heap two_gates" 0 _ "- 1"]
  by (simp add: two_gates_def get_gate_def)


section \<open>The bidirectional pairing invariant\<close>

text \<open>
  Slot \<open>k\<close> of gate \<open>T\<close> is paired when, if it holds a gate source \<open>(S, i)\<close>, record \<open>i\<close>
  of \<open>S\<close> is \<open>(T, k)\<close>.  Record \<open>i\<close> of gate \<open>S\<close> is paired when the slot it names holds
  the gate source \<open>(S, i)\<close>.
\<close>

definition slot_paired :: "heap \<Rightarrow> nat \<Rightarrow> nat \<Rightarrow> in_info_t \<Rightarrow> bool" where
  "slot_paired h T k sl =
     (in_type sl = NAND_GATE_INPUT \<longrightarrow>
        (case in_ptr sl of
           GatePtr S \<Rightarrow>
             (case get_gate h S of
                Some s \<Rightarrow> in_ind sl < length (outputs s)
                          \<and> outputs s ! in_ind sl = \<lparr>out_gate = T, out_ind = k\<rparr>
              | None \<Rightarrow> False)
         | _ \<Rightarrow> False))"

definition record_paired :: "heap \<Rightarrow> nat \<Rightarrow> nat \<Rightarrow> out_info_t \<Rightarrow> bool" where
  "record_paired h S i r =
     (case get_gate h (out_gate r) of
        Some t \<Rightarrow> out_ind r < input_count t \<and> out_ind r < length (inputs t)
                  \<and> inputs t ! out_ind r
                      = \<lparr>in_ptr = GatePtr S, in_type = NAND_GATE_INPUT, in_ind = i\<rparr>
      | None \<Rightarrow> False)"

definition gate_paired :: "heap \<Rightarrow> nat \<Rightarrow> nand_t \<Rightarrow> bool" where
  "gate_paired h a g =
     (length (inputs g) = input_count g
      \<and> list_all (\<lambda>k. slot_paired h a k (inputs g ! k)) [0..<input_count g]
      \<and> list_all (\<lambda>i. record_paired h a i (outputs g ! i)) [0..<length (outputs g)])"

definition pairing :: "heap \<Rightarrow> bool" where
  "pairing h =
     list_all (\<lambda>a. case h ! a of None \<Rightarrow> True | Some g \<Rightarrow> gate_paired h a g) [0..<length h]"

text \<open>
  While \<^verbatim>\<open>nand_connect_nand\<close> runs, the record it has just appended is not yet
  matched by its slot.  \<open>pairing_ex X\<close> is the invariant with the records in \<open>X\<close>
  exempted.
\<close>

definition pairing_ex :: "(nat \<times> nat) set \<Rightarrow> heap \<Rightarrow> bool" where
  "pairing_ex X h \<longleftrightarrow>
     (\<forall>a g. get_gate h a = Some g \<longrightarrow>
        length (inputs g) = input_count g
        \<and> (\<forall>k < input_count g. slot_paired h a k (inputs g ! k))
        \<and> (\<forall>i < length (outputs g). (a, i) \<notin> X \<longrightarrow> record_paired h a i (outputs g ! i)))"

lemma pairing_iff: "pairing h \<longleftrightarrow> pairing_ex {} h"
  by (auto simp: pairing_def pairing_ex_def gate_paired_def get_gate_def list_all_iff
      split: option.splits)

lemma slot_pairedD:
  assumes "slot_paired h T k sl" "in_type sl = NAND_GATE_INPUT"
  obtains S s where "in_ptr sl = GatePtr S" "get_gate h S = Some s"
    "in_ind sl < length (outputs s)" "outputs s ! in_ind sl = \<lparr>out_gate = T, out_ind = k\<rparr>"
  using assms by (auto simp: slot_paired_def split: ptr.splits option.splits)

lemma slot_pairedI:
  assumes "in_type sl = NAND_GATE_INPUT \<Longrightarrow> \<exists>S s. in_ptr sl = GatePtr S \<and> get_gate h S = Some s
     \<and> in_ind sl < length (outputs s) \<and> outputs s ! in_ind sl = \<lparr>out_gate = T, out_ind = k\<rparr>"
  shows "slot_paired h T k sl"
  using assms by (auto simp: slot_paired_def split: ptr.splits option.splits)

lemma record_pairedD:
  assumes "record_paired h S i r"
  obtains t where "get_gate h (out_gate r) = Some t" "out_ind r < input_count t"
    "out_ind r < length (inputs t)"
    "inputs t ! out_ind r = \<lparr>in_ptr = GatePtr S, in_type = NAND_GATE_INPUT, in_ind = i\<rparr>"
  using assms by (auto simp: record_paired_def split: option.splits)

lemma record_pairedI:
  assumes "get_gate h (out_gate r) = Some t" "out_ind r < input_count t"
    "out_ind r < length (inputs t)"
    "inputs t ! out_ind r = \<lparr>in_ptr = GatePtr S, in_type = NAND_GATE_INPUT, in_ind = i\<rparr>"
  shows "record_paired h S i r"
  using assms by (auto simp: record_paired_def)

lemma pairing_exD:
  assumes "pairing_ex X h" "get_gate h a = Some g"
  shows "length (inputs g) = input_count g"
    and "k < input_count g \<Longrightarrow> slot_paired h a k (inputs g ! k)"
    and "i < length (outputs g) \<Longrightarrow> (a, i) \<notin> X \<Longrightarrow> record_paired h a i (outputs g ! i)"
  using assms by (auto simp: pairing_ex_def)

lemma input_at_eq [simp]:
  "k < input_count g \<Longrightarrow> k < length (inputs g) \<Longrightarrow> input_at g k = Some (inputs g ! k)"
  by (simp add: input_at_def array_get_def)

lemma c_assert_True [simp]: "c_assert True = Some ()"
  by (simp add: c_assert_def)

lemma darray_get_swap_last [simp]:
  assumes "i < length xs"
  shows "darray_get (darray_swap_elements xs i (darray_size xs - Suc 0)) i = Some (last xs)"
proof -
  have "xs \<noteq> []" "length xs - Suc 0 < length xs" using assms by auto
  then show ?thesis
    using assms
    by (cases "i = length xs - Suc 0")
       (auto simp: darray_defs array_get_def last_conv_nth nth_list_update)
qed

lemma nand_disconnect_nand_defined:
  assumes s: "get_gate h S = Some s" and t: "get_gate h T = Some t"
    and k: "k < input_count t" "k < length (inputs t)"
    and oi: "in_ind (inputs t ! k) < length (outputs s)"
    and m: "Suc (in_ind (inputs t ! k)) \<noteq> length (outputs s) \<Longrightarrow>
       \<exists>m. get_gate h (out_gate (last (outputs s))) = Some m
          \<and> out_ind (last (outputs s)) < length (inputs m)
          \<and> out_ind (last (outputs s)) < input_count m"
  shows "\<exists>h'. nand_disconnect_nand h S T k = Some h'"
proof -
  have S: "S < length h" and T: "T < length h"
    using s t by (auto dest: get_gate_valid)
  let ?oi = "in_ind (inputs t ! k)"
  have "\<exists>h1. (if ?oi + 1 \<noteq> length (outputs s) then move_last_output h S ?oi else Some h) = Some h1
       \<and> length h1 = length h"
  proof (cases "Suc ?oi = length (outputs s)")
    case True
    then show ?thesis by simp
  next
    case False
    from m[OF False] obtain mg where mg: "get_gate h (out_gate (last (outputs s))) = Some mg"
      "out_ind (last (outputs s)) < length (inputs mg)" "out_ind (last (outputs s)) < input_count mg"
      by blast
    show ?thesis
      using False s S oi mg
      by (auto simp: move_last_output_def Let_def get_gate_set_gate darray_get_swap_last)
  qed
  then obtain h1 where h1: "(if ?oi + 1 \<noteq> length (outputs s) then move_last_output h S ?oi else Some h) = Some h1"
    and len: "length h1 = length h" by blast
  have "\<exists>F. acts h h1 F"
  proof (cases "Suc ?oi = length (outputs s)")
    case True
    with h1 show ?thesis using acts_refl by auto
  next
    case False
    with h1 have "move_last_output h S ?oi = Some h1" by simp
    from move_last_output_effect(1)[OF this oi s] show ?thesis by blast
  qed
  then obtain F where F: "acts h h1 F" by blast
  from acts_validD[OF F s] obtain s1 where s1: "get_gate h1 S = Some s1" by blast
  from acts_validD[OF F t] have "get_gate h1 T \<noteq> None" by simp
  then have "\<exists>t2. get_gate (set_gate h1 S (s1\<lparr>outputs := darray_pop_back (outputs s1)\<rparr>)) T = Some t2"
    using S len by (auto simp: get_gate_set_gate)
  then obtain t2 where t2: "get_gate (set_gate h1 S (s1\<lparr>outputs := darray_pop_back (outputs s1)\<rparr>)) T = Some t2"
    by blast
  show ?thesis
    unfolding nand_disconnect_nand_def
    using s t k oi h1 s1 t2 by (simp add: darray_size_def Let_def)
qed


lemma disconnect_effect_fields [simp]:
  "input_count (disconnect_effect S T k oi m mv a g) = input_count g"
  "status (disconnect_effect S T k oi m mv a g) = status g"
  "signal (disconnect_effect S T k oi m mv a g) = signal g"
  "crit_path_len (disconnect_effect S T k oi m mv a g) = crit_path_len g"
  "length (inputs (disconnect_effect S T k oi m mv a g)) = length (inputs g)"
  "outputs (disconnect_effect S T k oi m mv a g)
     = (if a = S then (butlast (outputs g))[oi := last (outputs g)] else outputs g)"
  by (simp_all add: disconnect_effect_def Let_def)

lemma disconnect_effect_slot:
  "j < length (inputs g) \<Longrightarrow>
   inputs (disconnect_effect S T k oi m mv a g) ! j
     = (if a = T \<and> j = k then empty_slot
        else if mv \<and> a = out_gate m \<and> j = out_ind m then (inputs g ! j)\<lparr>in_ind := oi\<rparr>
        else inputs g ! j)"
  by (auto simp: disconnect_effect_def Let_def nth_list_update)

lemma acts_SomeD:
  assumes "acts h h' F" "get_gate h' a = Some g'"
  obtains g where "get_gate h a = Some g" "g' = F a g"
  using assms by (auto simp: acts_def)

lemma slot_paired_empty [simp]: "slot_paired h T k empty_slot"
  by (simp add: slot_paired_def empty_slot_def)

lemma nand_disconnect_nand_pairing:
  assumes P: "pairing_ex X h" and t: "get_gate h T = Some t" and k: "k < input_count t"
    and ty: "in_type (inputs t ! k) = NAND_GATE_INPUT" and pt: "in_ptr (inputs t ! k) = GatePtr S"
    and X: "\<And>i. (S, i) \<notin> X"
  obtains h' s where "nand_disconnect_nand h S T k = Some h'" "pairing_ex X h'"
    "get_gate h S = Some s"
    "acts h h' (disconnect_effect S T k (in_ind (inputs t ! k)) (last (outputs s))
                  (Suc (in_ind (inputs t ! k)) \<noteq> length (outputs s)))"
proof -
  let ?oi = "in_ind (inputs t ! k)"
  have len: "length (inputs t) = input_count t" by (rule pairing_exD(1)[OF P t])
  have "slot_paired h T k (inputs t ! k)" by (rule pairing_exD(2)[OF P t k])
  from slot_pairedD[OF this ty] pt obtain s where s: "get_gate h S = Some s"
    and oi: "?oi < length (outputs s)" and rec: "outputs s ! ?oi = \<lparr>out_gate = T, out_ind = k\<rparr>"
    by auto
  let ?sz = "length (outputs s)"
  let ?m = "last (outputs s)"
  let ?mv = "Suc ?oi \<noteq> ?sz"
  let ?F = "disconnect_effect S T k ?oi ?m ?mv"
  have ne: "outputs s \<noteq> []" and lt: "?sz - 1 < ?sz" using oi by auto
  have lastrec: "outputs s ! (?sz - 1) = ?m" using ne by (simp add: last_conv_nth)
  have "record_paired h S (?sz - 1) (outputs s ! (?sz - 1))"
    by (rule pairing_exD(3)[OF P s lt X])
  with lastrec have "record_paired h S (?sz - 1) ?m" by simp
  from record_pairedD[OF this] obtain tm where tm: "get_gate h (out_gate ?m) = Some tm"
    and mk: "out_ind ?m < input_count tm" "out_ind ?m < length (inputs tm)"
    and mslot: "inputs tm ! out_ind ?m = \<lparr>in_ptr = GatePtr S, in_type = NAND_GATE_INPUT, in_ind = ?sz - 1\<rparr>"
    by blast
  from nand_disconnect_nand_defined[OF s t k _ oi] len k tm mk
  obtain h' where h': "nand_disconnect_nand h S T k = Some h'" by auto
  have A: "acts h h' ?F"
    by (rule nand_disconnect_nand_effect[OF h']) (use s t in auto)
  have "pairing_ex X h'"
    unfolding pairing_ex_def
  proof (intro allI impI conjI)
    fix a g' assume "get_gate h' a = Some g'"
    from acts_SomeD[OF A this] obtain g where g: "get_gate h a = Some g" and g': "g' = ?F a g" .
    have leng: "length (inputs g) = input_count g" by (rule pairing_exD(1)[OF P g])
    show "length (inputs g') = input_count g'" using leng by (simp add: g')
  next
    fix a g' k' assume ga: "get_gate h' a = Some g'" and k': "k' < input_count g'"
    from acts_SomeD[OF A ga] obtain g where g: "get_gate h a = Some g" and g': "g' = ?F a g" .
    have leng: "length (inputs g) = input_count g" by (rule pairing_exD(1)[OF P g])
    from k' have k'g: "k' < input_count g" "k' < length (inputs g)" by (simp_all add: g' leng)
    have sp: "slot_paired h a k' (inputs g ! k')" by (rule pairing_exD(2)[OF P g k'g(1)])
    consider (cleared) "a = T" "k' = k"
      | (moved) "\<not> (a = T \<and> k' = k)" "?mv" "a = out_gate ?m" "k' = out_ind ?m"
      | (kept) "\<not> (a = T \<and> k' = k)" "\<not> (?mv \<and> a = out_gate ?m \<and> k' = out_ind ?m)"
      by blast
    then show "slot_paired h' a k' (inputs g' ! k')"
    proof cases
      case cleared
      then show ?thesis using k'g by (simp add: g' disconnect_effect_slot)
    next
      case moved
      with g tm have "g = tm" by simp
      with moved k'g mslot have sl: "inputs g' ! k' = \<lparr>in_ptr = GatePtr S, in_type = NAND_GATE_INPUT, in_ind = ?oi\<rparr>"
        by (auto simp: g' disconnect_effect_slot)
      have "get_gate h' S = Some (?F S s)" by (rule acts_validD[OF A s])
      moreover have "?oi < length (outputs (?F S s))" using moved oi by simp
      moreover have "outputs (?F S s) ! ?oi = \<lparr>out_gate = a, out_ind = k'\<rparr>"
        using moved oi by simp
      ultimately show ?thesis unfolding sl by (intro slot_pairedI) simp
    next
      case kept
      then have sl: "inputs g' ! k' = inputs g ! k'" using k'g by (auto simp: g' disconnect_effect_slot)
      show ?thesis unfolding sl
      proof (rule slot_pairedI)
        assume tyk: "in_type (inputs g ! k') = NAND_GATE_INPUT"
        from slot_pairedD[OF sp tyk] obtain S2 s2 where
          p2: "in_ptr (inputs g ! k') = GatePtr S2" and s2: "get_gate h S2 = Some s2"
          and i2: "in_ind (inputs g ! k') < length (outputs s2)"
          and r2: "outputs s2 ! in_ind (inputs g ! k') = \<lparr>out_gate = a, out_ind = k'\<rparr>" .
        let ?i = "in_ind (inputs g ! k')"
        have s2': "get_gate h' S2 = Some (?F S2 s2)" by (rule acts_validD[OF A s2])
        show "\<exists>S s. in_ptr (inputs g ! k') = GatePtr S \<and> get_gate h' S = Some s \<and>
           in_ind (inputs g ! k') < length (outputs s) \<and> outputs s ! in_ind (inputs g ! k') = \<lparr>out_gate = a, out_ind = k'\<rparr>"
        proof (cases "S2 = S")
          case False
          with p2 s2' i2 r2 show ?thesis by simp
        next
          case True
          with s s2 have [simp]: "s2 = s" by simp
          have ne_oi: "?i \<noteq> ?oi" using r2 rec kept(1) by auto
          have ne_last: "?i \<noteq> ?sz - 1"
          proof
            assume e: "?i = ?sz - 1"
            with r2 lastrec have "?m = \<lparr>out_gate = a, out_ind = k'\<rparr>" by simp
            then have "a = out_gate ?m" "k' = out_ind ?m" by simp_all
            with kept(2) have "Suc ?oi = ?sz" by blast
            with e ne_oi show False by simp
          qed
          from i2 ne_last have "?i < ?sz - 1" by simp
          with ne_oi r2 True p2 s2' show ?thesis by (simp add: nth_butlast)
        qed
      qed
    qed
  next
    fix a g' i assume ga: "get_gate h' a = Some g'" and i: "i < length (outputs g')" and nX: "(a, i) \<notin> X"
    from acts_SomeD[OF A ga] obtain g where g: "get_gate h a = Some g" and g': "g' = ?F a g" .
    show "record_paired h' a i (outputs g' ! i)"
    proof (cases "a = S")
      case False
      then have o: "outputs g' = outputs g" by (simp add: g')
      from i o have ig: "i < length (outputs g)" by simp
      from record_pairedD[OF pairing_exD(3)[OF P g ig nX]] obtain tr where
        tr: "get_gate h (out_gate (outputs g ! i)) = Some tr"
        and rk: "out_ind (outputs g ! i) < input_count tr" "out_ind (outputs g ! i) < length (inputs tr)"
        and rs: "inputs tr ! out_ind (outputs g ! i) = \<lparr>in_ptr = GatePtr a, in_type = NAND_GATE_INPUT, in_ind = i\<rparr>" .
      have n1: "\<not> (out_gate (outputs g ! i) = T \<and> out_ind (outputs g ! i) = k)"
        using rs tr t pt False by auto
      have n2: "\<not> (out_gate (outputs g ! i) = out_gate ?m \<and> out_ind (outputs g ! i) = out_ind ?m)"
        using rs tr tm mslot False by auto
      show ?thesis unfolding o
        by (rule record_pairedI[OF acts_validD[OF A tr]])
           (use rk rs n1 n2 in \<open>auto simp: disconnect_effect_slot\<close>)
    next
      case True
      with g s have [simp]: "g = s" by simp
      from i True have i': "i < ?sz - 1" by (simp add: g')
      show ?thesis
      proof (cases "i = ?oi")
        case True
        from i' True have mv: ?mv by simp
        have o: "outputs g' ! i = ?m" using \<open>a = S\<close> True i' by (simp add: g')
        have n1: "\<not> (out_gate ?m = T \<and> out_ind ?m = k)"
          using mslot tm t i' True by auto
        show ?thesis unfolding o
          by (rule record_pairedI[OF acts_validD[OF A tm]])
             (use mk mslot n1 mv True \<open>a = S\<close> in \<open>auto simp: disconnect_effect_slot\<close>)
      next
        case False
        have o: "outputs g' ! i = outputs s ! i" using \<open>a = S\<close> False i' by (simp add: g' nth_butlast)
        from i' have isz: "i < ?sz" by simp
        from record_pairedD[OF pairing_exD(3)[OF P s isz X]] obtain tr where
          tr: "get_gate h (out_gate (outputs s ! i)) = Some tr"
          and rk: "out_ind (outputs s ! i) < input_count tr" "out_ind (outputs s ! i) < length (inputs tr)"
          and rs: "inputs tr ! out_ind (outputs s ! i) = \<lparr>in_ptr = GatePtr S, in_type = NAND_GATE_INPUT, in_ind = i\<rparr>" .
        have n1: "\<not> (out_gate (outputs s ! i) = T \<and> out_ind (outputs s ! i) = k)"
          using rs tr t False by auto
        have n2: "\<not> (out_gate (outputs s ! i) = out_gate ?m \<and> out_ind (outputs s ! i) = out_ind ?m)"
          using rs tr tm mslot i' by auto
        show ?thesis unfolding o
          by (rule record_pairedI[OF acts_validD[OF A tr]])
             (use rk rs n1 n2 \<open>a = S\<close> in \<open>auto simp: disconnect_effect_slot\<close>)
      qed
    qed
  qed
  with h' s A show ?thesis using that by blast
qed


text \<open>
  What a disconnection of slot \<open>k\<close> of gate \<open>T\<close> leaves alone: the set of gates, their
  arity, status, signal and critical path, the type and pointer of every other slot,
  and the consumer array of every gate but the source \<open>src\<close> of the slot.
\<close>

definition slot_frame :: "heap \<Rightarrow> heap \<Rightarrow> nat \<Rightarrow> nat \<Rightarrow> ptr \<Rightarrow> bool" where
  "slot_frame h h' T k src \<longleftrightarrow>
     length h' = length h
     \<and> (\<forall>a. get_gate h a = None \<longrightarrow> get_gate h' a = None)
     \<and> (\<forall>a g. get_gate h a = Some g \<longrightarrow>
          (\<exists>g'. get_gate h' a = Some g'
             \<and> input_count g' = input_count g \<and> status g' = status g
             \<and> signal g' = signal g \<and> crit_path_len g' = crit_path_len g
             \<and> length (inputs g') = length (inputs g)
             \<and> (\<forall>j < length (inputs g).
                   if a = T \<and> j = k then in_type (inputs g' ! j) = EMPTY_INPUT
                   else in_type (inputs g' ! j) = in_type (inputs g ! j)
                        \<and> in_ptr (inputs g' ! j) = in_ptr (inputs g ! j))
             \<and> (GatePtr a \<noteq> src \<longrightarrow> outputs g' = outputs g)))"

lemma slot_frame_refl:
  assumes "get_gate h T = Some t" "k < length (inputs t) \<Longrightarrow> in_type (inputs t ! k) = EMPTY_INPUT"
  shows "slot_frame h h T k src"
  using assms by (auto simp: slot_frame_def)

lemma acts_NoneD: "acts h h' F \<Longrightarrow> get_gate h a = None \<Longrightarrow> get_gate h' a = None"
  by (simp add: acts_def)

lemma acts_length: "acts h h' F \<Longrightarrow> length h' = length h"
  by (simp add: acts_def)

lemma slot_frame_disconnect:
  assumes "acts h h' (disconnect_effect S T k oi m mv)"
  shows "slot_frame h h' T k (GatePtr S)"
  unfolding slot_frame_def
proof (intro conjI allI impI)
  show "length h' = length h" by (rule acts_length[OF assms])
next
  fix a assume "get_gate h a = None"
  then show "get_gate h' a = None" by (rule acts_NoneD[OF assms])
next
  fix a g assume g: "get_gate h a = Some g"
  let ?g' = "disconnect_effect S T k oi m mv a g"
  have "get_gate h' a = Some ?g'" by (rule acts_validD[OF assms g])
  moreover have "\<forall>j < length (inputs g).
                   if a = T \<and> j = k then in_type (inputs ?g' ! j) = EMPTY_INPUT
                   else in_type (inputs ?g' ! j) = in_type (inputs g ! j)
                        \<and> in_ptr (inputs ?g' ! j) = in_ptr (inputs g ! j)"
    by (auto simp: disconnect_effect_slot empty_slot_def)
  ultimately show "\<exists>g'. get_gate h' a = Some g'
             \<and> input_count g' = input_count g \<and> status g' = status g
             \<and> signal g' = signal g \<and> crit_path_len g' = crit_path_len g
             \<and> length (inputs g') = length (inputs g)
             \<and> (\<forall>j < length (inputs g).
                   if a = T \<and> j = k then in_type (inputs g' ! j) = EMPTY_INPUT
                   else in_type (inputs g' ! j) = in_type (inputs g ! j)
                        \<and> in_ptr (inputs g' ! j) = in_ptr (inputs g ! j))
             \<and> (GatePtr a \<noteq> GatePtr S \<longrightarrow> outputs g' = outputs g)"
    by (intro exI[of _ ?g']) simp
qed

text \<open>Writing a slot that holds no gate source.\<close>

lemma set_slot_pairing:
  assumes P: "pairing_ex X h" and t: "get_gate h T = Some t" and k: "k < input_count t"
    and old: "in_type (inputs t ! k) \<noteq> NAND_GATE_INPUT"
    and new: "in_type v = NAND_GATE_INPUT \<Longrightarrow>
        \<exists>S s. in_ptr v = GatePtr S \<and> get_gate h S = Some s \<and> in_ind v < length (outputs s)
           \<and> outputs s ! in_ind v = \<lparr>out_gate = T, out_ind = k\<rparr> \<and> X' = X - {(S, in_ind v)}"
    and new': "in_type v \<noteq> NAND_GATE_INPUT \<Longrightarrow> X' = X"
  shows "pairing_ex X' (set_gate h T (t\<lparr>inputs := (inputs t)[k := v]\<rparr>))"
proof -
  let ?h' = "set_gate h T (t\<lparr>inputs := (inputs t)[k := v]\<rparr>)"
  let ?F = "\<lambda>a (g::nand_t). if a = T then g\<lparr>inputs := (inputs g)[k := v]\<rparr> else g"
  have A: "acts h ?h' ?F"
    by (rule acts_set_gate[OF t, where f = "\<lambda>g::nand_t. g\<lparr>inputs := (inputs g)[k := v]\<rparr>"])
  have lent: "length (inputs t) = input_count t" by (rule pairing_exD(1)[OF P t])
  have outs: "\<And>a g. outputs (?F a g) = outputs g" by simp
  have fld: "\<And>a g. input_count (?F a g) = input_count g"
    "\<And>a g. length (inputs (?F a g)) = length (inputs g)" by simp_all
  show ?thesis
    unfolding pairing_ex_def
  proof (intro allI impI conjI)
    fix a g' assume "get_gate ?h' a = Some g'"
    from acts_SomeD[OF A this] obtain g where g: "get_gate h a = Some g" and g': "g' = ?F a g" .
    show "length (inputs g') = input_count g'"
      using pairing_exD(1)[OF P g] by (simp only: g' fld)
  next
    fix a g' k' assume ga: "get_gate ?h' a = Some g'" and k': "k' < input_count g'"
    from acts_SomeD[OF A ga] obtain g where g: "get_gate h a = Some g" and g': "g' = ?F a g" .
    have leng: "length (inputs g) = input_count g" by (rule pairing_exD(1)[OF P g])
    from k' have k'g: "k' < input_count g" "k' < length (inputs g)" by (simp_all only: g' fld leng)
    have sp: "slot_paired h a k' (inputs g ! k')" by (rule pairing_exD(2)[OF P g k'g(1)])
    show "slot_paired ?h' a k' (inputs g' ! k')"
    proof (cases "a = T \<and> k' = k")
      case True
      then have sl: "inputs g' ! k' = v" using k'g by (simp add: g')
      show ?thesis unfolding sl
      proof (rule slot_pairedI)
        assume "in_type v = NAND_GATE_INPUT"
        from new[OF this] obtain S s where "in_ptr v = GatePtr S" and s: "get_gate h S = Some s"
          and "in_ind v < length (outputs s)" "outputs s ! in_ind v = \<lparr>out_gate = T, out_ind = k\<rparr>"
          by blast
        with acts_validD[OF A s] True
        show "\<exists>S s. in_ptr v = GatePtr S \<and> get_gate ?h' S = Some s \<and> in_ind v < length (outputs s)
           \<and> outputs s ! in_ind v = \<lparr>out_gate = a, out_ind = k'\<rparr>"
          by (intro exI[of _ S] exI[of _ "?F S s"]) (simp del: get_gate_set_gate_same)
      qed
    next
      case False
      then have sl: "inputs g' ! k' = inputs g ! k'" using k'g by (auto simp: g')
      show ?thesis unfolding sl
      proof (rule slot_pairedI)
        assume "in_type (inputs g ! k') = NAND_GATE_INPUT"
        from slot_pairedD[OF sp this] obtain S2 s2 where
          "in_ptr (inputs g ! k') = GatePtr S2" and s2: "get_gate h S2 = Some s2"
          "in_ind (inputs g ! k') < length (outputs s2)"
          "outputs s2 ! in_ind (inputs g ! k') = \<lparr>out_gate = a, out_ind = k'\<rparr>" .
        with acts_validD[OF A s2(1)]
        show "\<exists>S s. in_ptr (inputs g ! k') = GatePtr S \<and> get_gate ?h' S = Some s \<and>
           in_ind (inputs g ! k') < length (outputs s) \<and> outputs s ! in_ind (inputs g ! k') = \<lparr>out_gate = a, out_ind = k'\<rparr>"
          by (intro exI[of _ S2] exI[of _ "?F S2 s2"]) (simp del: get_gate_set_gate_same)
      qed
    qed
  next
    fix a g' i assume ga: "get_gate ?h' a = Some g'" and i: "i < length (outputs g')" and nX: "(a, i) \<notin> X'"
    from acts_SomeD[OF A ga] obtain g where g: "get_gate h a = Some g" and g': "g' = ?F a g" .
    have o: "outputs g' = outputs g" by (simp add: g')
    from i o have ig: "i < length (outputs g)" by simp
    show "record_paired ?h' a i (outputs g' ! i)"
    proof (cases "(a, i) \<in> X")
      case False
      from record_pairedD[OF pairing_exD(3)[OF P g ig False]] obtain tr where
        tr: "get_gate h (out_gate (outputs g ! i)) = Some tr"
        and rk: "out_ind (outputs g ! i) < input_count tr" "out_ind (outputs g ! i) < length (inputs tr)"
        and rs: "inputs tr ! out_ind (outputs g ! i) = \<lparr>in_ptr = GatePtr a, in_type = NAND_GATE_INPUT, in_ind = i\<rparr>" .
      have n1: "\<not> (out_gate (outputs g ! i) = T \<and> out_ind (outputs g ! i) = k)"
        using rs tr t old by auto
      show ?thesis unfolding o
        by (rule record_pairedI[OF acts_validD[OF A tr]]) (use rk rs n1 in auto)
    next
      case True
      with nX new' have tyv: "in_type v = NAND_GATE_INPUT" by auto
      from new[OF this] obtain S s where pv: "in_ptr v = GatePtr S" and s: "get_gate h S = Some s"
          and iv: "in_ind v < length (outputs s)" and ov: "outputs s ! in_ind v = \<lparr>out_gate = T, out_ind = k\<rparr>"
          and X': "X' = X - {(S, in_ind v)}"
        by blast
      from True nX X' have e: "a = S" "i = in_ind v" by auto
      with g s have [simp]: "g = s" by simp
      have veq: "v = \<lparr>in_ptr = GatePtr S, in_type = NAND_GATE_INPUT, in_ind = in_ind v\<rparr>"
        using tyv pv by simp
      have r: "outputs g' ! i = \<lparr>out_gate = T, out_ind = k\<rparr>" using o e ov by simp
      have "get_gate ?h' T = Some (t\<lparr>inputs := (inputs t)[k := v]\<rparr>)"
        using acts_validD[OF A t] by simp
      then show ?thesis unfolding r record_paired_def
        using e k lent veq by simp
    qed
  qed
qed


lemma slot_frame_set_slot:
  assumes t: "get_gate h T = Some t" and ty: "in_type v = EMPTY_INPUT"
  shows "slot_frame h (set_gate h T (t\<lparr>inputs := (inputs t)[k := v]\<rparr>)) T k src"
proof -
  let ?F = "\<lambda>a (g::nand_t). if a = T then g\<lparr>inputs := (inputs g)[k := v]\<rparr> else g"
  have A: "acts h (set_gate h T (t\<lparr>inputs := (inputs t)[k := v]\<rparr>)) ?F"
    by (rule acts_set_gate[OF t, where f = "\<lambda>g::nand_t. g\<lparr>inputs := (inputs g)[k := v]\<rparr>"])
  show ?thesis
    unfolding slot_frame_def
  proof (intro conjI allI impI)
    show "length (set_gate h T (t\<lparr>inputs := (inputs t)[k := v]\<rparr>)) = length h" by simp
  next
    fix a assume "get_gate h a = None"
    then show "get_gate (set_gate h T (t\<lparr>inputs := (inputs t)[k := v]\<rparr>)) a = None"
      by (rule acts_NoneD[OF A])
  next
    fix a g assume g: "get_gate h a = Some g"
    have "get_gate (set_gate h T (t\<lparr>inputs := (inputs t)[k := v]\<rparr>)) a = Some (?F a g)"
      by (rule acts_validD[OF A g])
    then show "\<exists>g'. get_gate (set_gate h T (t\<lparr>inputs := (inputs t)[k := v]\<rparr>)) a = Some g'
             \<and> input_count g' = input_count g \<and> status g' = status g
             \<and> signal g' = signal g \<and> crit_path_len g' = crit_path_len g
             \<and> length (inputs g') = length (inputs g)
             \<and> (\<forall>j < length (inputs g).
                   if a = T \<and> j = k then in_type (inputs g' ! j) = EMPTY_INPUT
                   else in_type (inputs g' ! j) = in_type (inputs g ! j)
                        \<and> in_ptr (inputs g' ! j) = in_ptr (inputs g ! j))
             \<and> (GatePtr a \<noteq> src \<longrightarrow> outputs g' = outputs g)"
      using ty by (intro exI[of _ "?F a g"]) (auto simp: nth_list_update)
  qed
qed

lemma di_empty:
  assumes "get_gate h T = Some t" "k < input_count t" "k < length (inputs t)"
    "in_type (inputs t ! k) = EMPTY_INPUT"
  shows "nand_disconnect_input h T k = Some h"
  using assms by (simp add: nand_disconnect_input_def)

lemma di_bool:
  assumes "get_gate h T = Some t" "k < input_count t" "k < length (inputs t)"
    "in_type (inputs t ! k) = BOOLEAN_SIGNAL_INPUT"
  shows "nand_disconnect_input h T k = Some (set_gate h T (t\<lparr>inputs := (inputs t)[k := empty_slot]\<rparr>))"
proof -
  have T: "T < length h" using assms(1) by (rule get_gate_valid)
  have 1: "nand_disconnect_signal h T k = Some (set_gate h T (t\<lparr>inputs := (inputs t)[k := empty_slot]\<rparr>))"
    using assms by (simp add: nand_disconnect_signal_def)
  have 2: "in_type (inputs (t\<lparr>inputs := (inputs t)[k := empty_slot]\<rparr>) ! k) = EMPTY_INPUT"
    using assms(3) by (simp add: empty_slot_def)
  show ?thesis
    unfolding nand_disconnect_input_def
    using assms T 1 2 by simp
qed

lemma di_gate:
  assumes "get_gate h T = Some t" "k < input_count t" "k < length (inputs t)"
    "in_type (inputs t ! k) = NAND_GATE_INPUT" "in_ptr (inputs t ! k) = GatePtr S"
  shows "nand_disconnect_input h T k = nand_disconnect_nand h S T k"
  using assms by (simp add: nand_disconnect_input_def)


text \<open>
  \<^verbatim>\<open>nand_disconnect_input\<close> on a slot within the arity is defined, keeps the invariant
  and leaves the slot empty.
\<close>

lemma nand_disconnect_input_pairing:
  assumes P: "pairing_ex X h" and t: "get_gate h T = Some t" and k: "k < input_count t"
    and X: "\<And>S i. in_type (inputs t ! k) = NAND_GATE_INPUT \<Longrightarrow>
              in_ptr (inputs t ! k) = GatePtr S \<Longrightarrow> (S, i) \<notin> X"
  obtains h' where "nand_disconnect_input h T k = Some h'" "pairing_ex X h'"
    "slot_frame h h' T k (if in_type (inputs t ! k) = NAND_GATE_INPUT then in_ptr (inputs t ! k) else NULL)"
proof -
  have len: "length (inputs t) = input_count t" by (rule pairing_exD(1)[OF P t])
  with k have kl: "k < length (inputs t)" by simp
  let ?src = "if in_type (inputs t ! k) = NAND_GATE_INPUT then in_ptr (inputs t ! k) else NULL"
  consider (empty) "in_type (inputs t ! k) = EMPTY_INPUT"
    | (bool) "in_type (inputs t ! k) = BOOLEAN_SIGNAL_INPUT"
    | (gate) "in_type (inputs t ! k) = NAND_GATE_INPUT"
    by (cases "in_type (inputs t ! k)") auto
  then show ?thesis
  proof cases
    case empty
    have 1: "nand_disconnect_input h T k = Some h"
      by (rule di_empty[OF t k kl empty])
    have 2: "slot_frame h h T k ?src"
      using empty by (intro slot_frame_refl[OF t]) simp
    show ?thesis by (rule that[OF 1 P 2])
  next
    case bool
    let ?h' = "set_gate h T (t\<lparr>inputs := (inputs t)[k := empty_slot]\<rparr>)"
    have 1: "nand_disconnect_input h T k = Some ?h'"
      by (rule di_bool[OF t k kl bool])
    have 2: "pairing_ex X ?h'"
      by (rule set_slot_pairing[OF P t k]) (use bool in \<open>simp_all add: empty_slot_def\<close>)
    have 3: "slot_frame h ?h' T k ?src"
      by (rule slot_frame_set_slot[OF t]) (simp add: empty_slot_def)
    show ?thesis by (rule that[OF 1 2 3])
  next
    case gate
    from slot_pairedD[OF pairing_exD(2)[OF P t k] gate] obtain S where
      pt: "in_ptr (inputs t ! k) = GatePtr S" by blast
    show ?thesis
    proof (rule nand_disconnect_nand_pairing[OF P t k gate pt X[OF gate pt]])
      fix h' s
      assume h': "nand_disconnect_nand h S T k = Some h'" and P': "pairing_ex X h'"
        and A: "acts h h' (disconnect_effect S T k (in_ind (inputs t ! k)) (last (outputs s))
                  (Suc (in_ind (inputs t ! k)) \<noteq> length (outputs s)))"
      have 1: "nand_disconnect_input h T k = Some h'"
        using di_gate[OF t k kl gate pt] h' by simp
      have 3: "slot_frame h h' T k ?src"
        using slot_frame_disconnect[OF A] gate pt by simp
      show ?thesis by (rule that[OF 1 P' 3])
    qed
  qed
qed

lemma push_output_pairing:
  assumes P: "pairing_ex X h" and s: "get_gate h S = Some s"
  shows "pairing_ex (insert (S, length (outputs s)) X) (set_gate h S (s\<lparr>outputs := outputs s @ [r]\<rparr>))"
proof -
  let ?h' = "set_gate h S (s\<lparr>outputs := outputs s @ [r]\<rparr>)"
  let ?F = "\<lambda>a (g::nand_t). if a = S then g\<lparr>outputs := outputs g @ [r]\<rparr> else g"
  have A: "acts h ?h' ?F"
    by (rule acts_set_gate[OF s, where f = "\<lambda>g::nand_t. g\<lparr>outputs := outputs g @ [r]\<rparr>"])
  have fld: "\<And>a g. input_count (?F a g) = input_count g"
    "\<And>a g. inputs (?F a g) = inputs g" by simp_all
  show ?thesis
    unfolding pairing_ex_def
  proof (intro allI impI conjI)
    fix a g' assume "get_gate ?h' a = Some g'"
    from acts_SomeD[OF A this] obtain g where g: "get_gate h a = Some g" and g': "g' = ?F a g" .
    show "length (inputs g') = input_count g'"
      using pairing_exD(1)[OF P g] by (simp only: g' fld)
  next
    fix a g' k' assume ga: "get_gate ?h' a = Some g'" and k': "k' < input_count g'"
    from acts_SomeD[OF A ga] obtain g where g: "get_gate h a = Some g" and g': "g' = ?F a g" .
    from k' have k'g: "k' < input_count g" by (simp only: g' fld)
    have sp: "slot_paired h a k' (inputs g ! k')" by (rule pairing_exD(2)[OF P g k'g])
    show "slot_paired ?h' a k' (inputs g' ! k')"
      unfolding g' fld
    proof (rule slot_pairedI)
      assume "in_type (inputs g ! k') = NAND_GATE_INPUT"
      from slot_pairedD[OF sp this] obtain S2 s2 where
        "in_ptr (inputs g ! k') = GatePtr S2" and s2: "get_gate h S2 = Some s2"
        "in_ind (inputs g ! k') < length (outputs s2)"
        "outputs s2 ! in_ind (inputs g ! k') = \<lparr>out_gate = a, out_ind = k'\<rparr>" .
      with acts_validD[OF A s2(1)]
      show "\<exists>S s. in_ptr (inputs g ! k') = GatePtr S \<and> get_gate ?h' S = Some s \<and>
         in_ind (inputs g ! k') < length (outputs s) \<and> outputs s ! in_ind (inputs g ! k') = \<lparr>out_gate = a, out_ind = k'\<rparr>"
        by (intro exI[of _ S2] exI[of _ "?F S2 s2"]) (simp del: get_gate_set_gate_same add: nth_append)
    qed
  next
    fix a g' i assume ga: "get_gate ?h' a = Some g'" and i: "i < length (outputs g')"
      and nX: "(a, i) \<notin> insert (S, length (outputs s)) X"
    from acts_SomeD[OF A ga] obtain g where g: "get_gate h a = Some g" and g': "g' = ?F a g" .
    have ig: "i < length (outputs g)" and o: "outputs g' ! i = outputs g ! i"
      using i nX g s by (auto simp: g' nth_append split: if_splits)
    from nX have nX': "(a, i) \<notin> X" by simp
    from record_pairedD[OF pairing_exD(3)[OF P g ig nX']] obtain tr where
      tr: "get_gate h (out_gate (outputs g ! i)) = Some tr"
      and rk: "out_ind (outputs g ! i) < input_count tr" "out_ind (outputs g ! i) < length (inputs tr)"
      and rs: "inputs tr ! out_ind (outputs g ! i) = \<lparr>in_ptr = GatePtr a, in_type = NAND_GATE_INPUT, in_ind = i\<rparr>" .
    show "record_paired ?h' a i (outputs g' ! i)" unfolding o
      by (rule record_pairedI[OF acts_validD[OF A tr]]) (use rk rs in auto)
  qed
qed


lemma slot_frameD:
  assumes "slot_frame h h' T k src" "get_gate h a = Some g"
  obtains g' where "get_gate h' a = Some g'" "input_count g' = input_count g"
    "status g' = status g" "signal g' = signal g" "crit_path_len g' = crit_path_len g"
    "length (inputs g') = length (inputs g)"
    "\<And>j. j < length (inputs g) \<Longrightarrow> a = T \<Longrightarrow> j = k \<Longrightarrow> in_type (inputs g' ! j) = EMPTY_INPUT"
    "\<And>j. j < length (inputs g) \<Longrightarrow> \<not> (a = T \<and> j = k) \<Longrightarrow>
        in_type (inputs g' ! j) = in_type (inputs g ! j) \<and> in_ptr (inputs g' ! j) = in_ptr (inputs g ! j)"
    "GatePtr a \<noteq> src \<Longrightarrow> outputs g' = outputs g"
proof -
  from assms obtain g' where g': "get_gate h' a = Some g'" "input_count g' = input_count g"
    "status g' = status g" "signal g' = signal g" "crit_path_len g' = crit_path_len g"
    "length (inputs g') = length (inputs g)"
    "\<forall>j < length (inputs g).
         if a = T \<and> j = k then in_type (inputs g' ! j) = EMPTY_INPUT
         else in_type (inputs g' ! j) = in_type (inputs g ! j)
              \<and> in_ptr (inputs g' ! j) = in_ptr (inputs g ! j)"
    "GatePtr a \<noteq> src \<longrightarrow> outputs g' = outputs g"
    unfolding slot_frame_def by blast
  show ?thesis
    by (rule that[OF g'(1-6)]) (use g'(7,8) in \<open>auto split: if_splits\<close>)
qed

lemma slot_frame_target:
  assumes "slot_frame h h' T k src" "get_gate h T = Some t" "k < length (inputs t)"
  shows "\<exists>g'. get_gate h' T = Some g' \<and> input_count g' = input_count t
           \<and> length (inputs g') = length (inputs t) \<and> in_type (inputs g' ! k) = EMPTY_INPUT"
proof (rule slot_frameD[OF assms(1,2)])
  fix g'
  assume "get_gate h' T = Some g'" "input_count g' = input_count t"
    "length (inputs g') = length (inputs t)"
    "\<And>j. j < length (inputs t) \<Longrightarrow> T = T \<Longrightarrow> j = k \<Longrightarrow> in_type (inputs g' ! j) = EMPTY_INPUT"
  with assms(3) show ?thesis by simp
qed

lemma slot_frame_outputs:
  assumes "slot_frame h h' T k src" "get_gate h a = Some g" "GatePtr a \<noteq> src"
  shows "\<exists>g'. get_gate h' a = Some g' \<and> outputs g' = outputs g"
proof (rule slot_frameD[OF assms(1,2)])
  fix g'
  assume "get_gate h' a = Some g'" "GatePtr a \<noteq> src \<Longrightarrow> outputs g' = outputs g"
  with assms(3) show ?thesis by simp
qed

text \<open>The main branch of \<^verbatim>\<open>nand_connect_nand\<close>: the append succeeds.\<close>

lemma nand_connect_nand_main:
  assumes P: "pairing (heap w)" and t: "get_gate (heap w) Ti = Some t" and k: "k < input_count t"
    and np: "in_ptr (inputs t ! k) \<noteq> GatePtr So" and s: "get_gate (heap w) So = Some s"
    and al: "alloc_ok (alloc w)"
  obtains h3 g3 where "nand_connect_nand w (Some So) (Some Ti) k = (Done (), \<lparr>heap = h3, alloc = tl (alloc w)\<rparr>)"
    "pairing h3" "get_gate h3 Ti = Some g3" "k < length (inputs g3)"
    "in_type (inputs g3 ! k) = NAND_GATE_INPUT" "in_ptr (inputs g3 ! k) = GatePtr So"
proof -
  let ?h = "heap w"
  let ?n = "length (outputs s)"
  let ?r = "\<lparr>out_gate = Ti, out_ind = k\<rparr>"
  let ?h1 = "set_gate ?h So (s\<lparr>outputs := outputs s @ [?r]\<rparr>)"
  let ?X = "{(So, ?n)}"
  from P have P0: "pairing_ex {} ?h" by (simp add: pairing_iff)
  have lent: "length (inputs t) = input_count t" by (rule pairing_exD(1)[OF P0 t])
  with k have kl: "k < length (inputs t)" by simp
  have So: "So < length ?h" using s by (rule get_gate_valid)
  have P1: "pairing_ex ?X ?h1"
    using push_output_pairing[OF P0 s, of ?r] by simp
  let ?t1 = "if Ti = So then s\<lparr>outputs := outputs s @ [?r]\<rparr> else t"
  have t1: "get_gate ?h1 Ti = Some ?t1"
    using So t s by (simp add: get_gate_set_gate)
  have in1: "inputs ?t1 = inputs t" and c1: "input_count ?t1 = input_count t"
    using t s by auto
  have k1: "k < input_count ?t1" using k c1 by simp
  have s1: "get_gate ?h1 So = Some (s\<lparr>outputs := outputs s @ [?r]\<rparr>)"
    using So by simp
  have X1: "\<And>S i. in_type (inputs ?t1 ! k) = NAND_GATE_INPUT \<Longrightarrow>
              in_ptr (inputs ?t1 ! k) = GatePtr S \<Longrightarrow> (S, i) \<notin> ?X"
    using np unfolding in1 by auto
  show ?thesis
  proof (rule nand_disconnect_input_pairing[OF P1 t1 k1 X1])
    fix h2
    assume d: "nand_disconnect_input ?h1 Ti k = Some h2" and P2: "pairing_ex ?X h2"
      and fr: "slot_frame ?h1 h2 Ti k (if in_type (inputs ?t1 ! k) = NAND_GATE_INPUT then in_ptr (inputs ?t1 ! k) else NULL)"
    have src: "GatePtr So \<noteq> (if in_type (inputs ?t1 ! k) = NAND_GATE_INPUT then in_ptr (inputs ?t1 ! k) else NULL)"
      using np unfolding in1 by auto
    from slot_frame_target[OF fr t1] kl obtain gi2 where gi2: "get_gate h2 Ti = Some gi2"
      and ci2: "input_count gi2 = input_count t" and li2: "length (inputs gi2) = length (inputs t)"
      and e2: "in_type (inputs gi2 ! k) = EMPTY_INPUT"
      unfolding in1 c1 by auto
    from slot_frame_outputs[OF fr s1 src] obtain go2 where go2: "get_gate h2 So = Some go2"
      and o2: "outputs go2 = outputs s @ [?r]"
      by auto
    let ?v = "\<lparr>in_ptr = GatePtr So, in_type = NAND_GATE_INPUT, in_ind = darray_size (outputs go2) - 1\<rparr>"
    let ?h3 = "set_gate h2 Ti (gi2\<lparr>inputs := (inputs gi2)[k := ?v]\<rparr>)"
    have Ti2: "Ti < length h2" using gi2 by (rule get_gate_valid)
    have res: "nand_connect_nand w (Some So) (Some Ti) k = (Done (), \<lparr>heap = ?h3, alloc = tl (alloc w)\<rparr>)"
      unfolding nand_connect_nand_def
      using t k kl np s al d gi2 go2
      by (simp add: darray_push_back_def)
    have P3: "pairing_ex {} ?h3"
    proof (rule set_slot_pairing[OF P2 gi2])
      show "k < input_count gi2" using k ci2 by simp
      show "in_type (inputs gi2 ! k) \<noteq> NAND_GATE_INPUT" using e2 by simp
      show "in_type ?v \<noteq> NAND_GATE_INPUT \<Longrightarrow> {} = ?X" by simp
      show "\<exists>S s. in_ptr ?v = GatePtr S \<and> get_gate h2 S = Some s \<and> in_ind ?v < length (outputs s)
           \<and> outputs s ! in_ind ?v = \<lparr>out_gate = Ti, out_ind = k\<rparr> \<and> {} = ?X - {(S, in_ind ?v)}"
        using go2 o2 by (intro exI[of _ So] exI[of _ go2]) (simp add: darray_size_def)
    qed
    have g3: "get_gate ?h3 Ti = Some (gi2\<lparr>inputs := (inputs gi2)[k := ?v]\<rparr>)"
      using Ti2 by simp
    show ?thesis
      by (rule that[OF res _ g3]) (use P3 kl li2 in \<open>simp_all add: pairing_iff\<close>)
  qed
qed


lemma nand_connect_nand_pairing:
  assumes P: "pairing (heap w)"
  shows "pairing (heap (snd (nand_connect_nand w g_out g_in k)))"
proof (cases "\<exists>So Ti t s. g_out = Some So \<and> g_in = Some Ti \<and> get_gate (heap w) Ti = Some t
         \<and> k < input_count t \<and> in_ptr (inputs t ! k) \<noteq> GatePtr So
         \<and> get_gate (heap w) So = Some s \<and> alloc_ok (alloc w)")
  case True
  then obtain So Ti t s where a: "g_out = Some So" "g_in = Some Ti" and t: "get_gate (heap w) Ti = Some t"
    and k: "k < input_count t" and np: "in_ptr (inputs t ! k) \<noteq> GatePtr So"
    and s: "get_gate (heap w) So = Some s" and al: "alloc_ok (alloc w)" by blast
  show ?thesis
    by (rule nand_connect_nand_main[OF P t k np s al]) (simp add: a)
next
  case False
  from P have P0: "pairing_ex {} (heap w)" by (simp add: pairing_iff)
  have "heap (snd (nand_connect_nand w g_out g_in k)) = heap w"
  proof (cases g_out)
    case None
    then show ?thesis by (simp add: nand_connect_nand_def)
  next
    case So: (Some So)
    show ?thesis
    proof (cases g_in)
      case None
      then show ?thesis by (simp add: nand_connect_nand_def So)
    next
      case Ti: (Some Ti)
      show ?thesis
      proof (cases "get_gate (heap w) Ti")
        case None
        then show ?thesis by (simp add: nand_connect_nand_def So Ti)
      next
        case t: (Some t)
        show ?thesis
        proof (cases "k < input_count t")
          case False
          then show ?thesis by (simp add: nand_connect_nand_def So Ti t)
        next
          case k: True
          have kl: "k < length (inputs t)" using pairing_exD(1)[OF P0 t] k by simp
          show ?thesis
          proof (cases "in_ptr (inputs t ! k) = GatePtr So")
            case True
            then show ?thesis using k kl by (simp add: nand_connect_nand_def So Ti t)
          next
            case np: False
            show ?thesis
            proof (cases "get_gate (heap w) So")
              case None
              then show ?thesis using k kl np by (simp add: nand_connect_nand_def So Ti t)
            next
              case s: (Some s)
              with False So Ti t k np have "\<not> alloc_ok (alloc w)" by blast
              then show ?thesis using k kl np s
                by (simp add: nand_connect_nand_def So Ti t darray_push_back_def)
            qed
          qed
        qed
      qed
    qed
  qed
  with P show ?thesis by simp
qed

lemma nand_connect_nand_defined:
  assumes P: "pairing (heap w)" and s: "get_gate (heap w) So = Some s"
    and t: "get_gate (heap w) Ti = Some t"
  shows "fst (nand_connect_nand w (Some So) (Some Ti) k) \<noteq> Undef"
proof (cases "k < input_count t \<and> in_ptr (inputs t ! k) \<noteq> GatePtr So \<and> alloc_ok (alloc w)")
  case True
  then have k: "k < input_count t" and np: "in_ptr (inputs t ! k) \<noteq> GatePtr So"
    and al: "alloc_ok (alloc w)" by auto
  show ?thesis
    by (rule nand_connect_nand_main[OF P t k np s al]) simp
next
  case False
  from P have P0: "pairing_ex {} (heap w)" by (simp add: pairing_iff)
  have kl: "k < input_count t \<Longrightarrow> k < length (inputs t)" using pairing_exD(1)[OF P0 t] by simp
  from False kl show ?thesis using s t
    by (auto simp: nand_connect_nand_def darray_push_back_def)
qed

lemma nand_connect_signal_main:
  assumes P: "pairing h" and t: "get_gate h Ti = Some t" and k: "k < input_count t"
  obtains h2 g2 where "nand_connect_signal h (Some b) (Some Ti) k = (Done (), h2)" "pairing h2"
    "get_gate h2 Ti = Some g2" "k < length (inputs g2)"
    "inputs g2 ! k = \<lparr>in_ptr = BoolPtr b, in_type = BOOLEAN_SIGNAL_INPUT, in_ind = 0\<rparr>"
proof -
  from P have P0: "pairing_ex {} h" by (simp add: pairing_iff)
  have kl: "k < length (inputs t)" using pairing_exD(1)[OF P0 t] k by simp
  show ?thesis
  proof (rule nand_disconnect_input_pairing[OF P0 t k])
    fix h1
    assume d: "nand_disconnect_input h Ti k = Some h1" and P1: "pairing_ex {} h1"
      and fr: "slot_frame h h1 Ti k (if in_type (inputs t ! k) = NAND_GATE_INPUT then in_ptr (inputs t ! k) else NULL)"
    from slot_frame_target[OF fr t kl] obtain g1 where g1: "get_gate h1 Ti = Some g1"
      and c1: "input_count g1 = input_count t" and l1: "length (inputs g1) = length (inputs t)"
      and e1: "in_type (inputs g1 ! k) = EMPTY_INPUT" by blast
    let ?v = "\<lparr>in_ptr = BoolPtr b, in_type = BOOLEAN_SIGNAL_INPUT, in_ind = 0\<rparr>"
    let ?h2 = "set_gate h1 Ti (g1\<lparr>inputs := (inputs g1)[k := ?v]\<rparr>)"
    have res: "nand_connect_signal h (Some b) (Some Ti) k = (Done (), ?h2)"
      using t k d g1 by (simp add: nand_connect_signal_def)
    have P2: "pairing_ex {} ?h2"
      by (rule set_slot_pairing[OF P1 g1]) (use k c1 e1 in simp_all)
    have g2: "get_gate ?h2 Ti = Some (g1\<lparr>inputs := (inputs g1)[k := ?v]\<rparr>)"
      using get_gate_valid[OF g1] by simp
    show ?thesis
      by (rule that[OF res _ g2]) (use P2 kl l1 in \<open>simp_all add: pairing_iff\<close>)
  qed simp
qed

lemma nand_connect_signal_pairing:
  assumes P: "pairing h"
  shows "pairing (snd (nand_connect_signal h s g k))"
proof (cases "\<exists>b Ti t. s = Some b \<and> g = Some Ti \<and> get_gate h Ti = Some t \<and> k < input_count t")
  case True
  then obtain b Ti t where a: "s = Some b" "g = Some Ti" and t: "get_gate h Ti = Some t"
    and k: "k < input_count t" by blast
  show ?thesis
    by (rule nand_connect_signal_main[OF P t k, of b]) (simp add: a)
next
  case False
  then have "snd (nand_connect_signal h s g k) = h"
    by (auto simp: nand_connect_signal_def split: option.splits)
  with P show ?thesis by simp
qed

lemma get_gate_append:
  "get_gate (h @ [c]) a = (if a < length h then get_gate h a else if a = length h then c else None)"
  by (auto simp: get_gate_def nth_append)

lemma nand_new_pairing:
  assumes P: "pairing (heap w)"
  shows "pairing (heap (snd (nand_new w n)))"
proof (cases "fst (nand_new w n)")
  case (Done a)
  let ?g = "\<lparr>crit_path_len = 0, inputs = replicate n empty_slot,
                   outputs = [], input_count = n, status = NOT_VISITED, signal = False\<rparr>"
  from Done have h': "heap (snd (nand_new w n)) = heap w @ [Some ?g]"
    by (auto simp: nand_new_def Let_def split: if_splits)
  from P have P0: "pairing_ex {} (heap w)" by (simp add: pairing_iff)
  have old: "\<And>a g. get_gate (heap w) a = Some g \<Longrightarrow> get_gate (heap w @ [Some ?g]) a = Some g"
    by (auto simp: get_gate_append dest: get_gate_valid)
  have "pairing_ex {} (heap w @ [Some ?g])"
    unfolding pairing_ex_def
  proof (intro allI impI conjI)
    fix a g assume g: "get_gate (heap w @ [Some ?g]) a = Some g"
    show "length (inputs g) = input_count g"
      using g pairing_exD(1)[OF P0, of a g] by (auto simp: get_gate_append split: if_splits)
  next
    fix a g k assume g: "get_gate (heap w @ [Some ?g]) a = Some g" and k: "k < input_count g"
    show "slot_paired (heap w @ [Some ?g]) a k (inputs g ! k)"
    proof (cases "a < length (heap w)")
      case True
      with g have g0: "get_gate (heap w) a = Some g" by (simp add: get_gate_append)
      show ?thesis
      proof (rule slot_pairedI)
        assume "in_type (inputs g ! k) = NAND_GATE_INPUT"
        from slot_pairedD[OF pairing_exD(2)[OF P0 g0 k] this] obtain S2 s2 where
          f: "in_ptr (inputs g ! k) = GatePtr S2" "get_gate (heap w) S2 = Some s2"
          "in_ind (inputs g ! k) < length (outputs s2)"
          "outputs s2 ! in_ind (inputs g ! k) = \<lparr>out_gate = a, out_ind = k\<rparr>" .
        show "\<exists>S s. in_ptr (inputs g ! k) = GatePtr S \<and> get_gate (heap w @ [Some ?g]) S = Some s \<and>
           in_ind (inputs g ! k) < length (outputs s) \<and> outputs s ! in_ind (inputs g ! k) = \<lparr>out_gate = a, out_ind = k\<rparr>"
          using f(1) old[OF f(2)] f(3,4) by (intro exI[of _ S2] exI[of _ s2]) simp
      qed
    next
      case False
      with g k show ?thesis by (auto simp: get_gate_append split: if_splits)
    qed
  next
    fix a g i assume g: "get_gate (heap w @ [Some ?g]) a = Some g" and i: "i < length (outputs g)"
    show "record_paired (heap w @ [Some ?g]) a i (outputs g ! i)"
    proof (cases "a < length (heap w)")
      case True
      with g have g0: "get_gate (heap w) a = Some g" by (simp add: get_gate_append)
      have "record_paired (heap w) a i (outputs g ! i)"
        by (rule pairing_exD(3)[OF P0 g0 i]) simp
      from record_pairedD[OF this] obtain tr where
        f: "get_gate (heap w) (out_gate (outputs g ! i)) = Some tr"
        "out_ind (outputs g ! i) < input_count tr" "out_ind (outputs g ! i) < length (inputs tr)"
        "inputs tr ! out_ind (outputs g ! i) = \<lparr>in_ptr = GatePtr a, in_type = NAND_GATE_INPUT, in_ind = i\<rparr>" .
      show ?thesis by (rule record_pairedI[OF old[OF f(1)] f(2-4)])
    next
      case False
      with g i show ?thesis by (auto simp: get_gate_append split: if_splits)
    qed
  qed
  then show ?thesis by (simp add: h' pairing_iff)
next
  case (Errno e)
  then have "heap (snd (nand_new w n)) = heap w"
    by (auto simp: nand_new_def Let_def split: if_splits)
  with P show ?thesis by simp
next
  case Undef
  then have "heap (snd (nand_new w n)) = heap w"
    by (auto simp: nand_new_def Let_def split: if_splits)
  with P show ?thesis by simp
qed


definition inputs_empty :: "nand_t \<Rightarrow> nat set \<Rightarrow> bool" where
  "inputs_empty g J \<longleftrightarrow> (\<forall>j \<in> J. j < input_count g \<longrightarrow> in_type (inputs g ! j) = EMPTY_INPUT)"

definition same_gates :: "heap \<Rightarrow> heap \<Rightarrow> bool" where
  "same_gates h h' \<longleftrightarrow> length h' = length h \<and> (\<forall>a. get_gate h' a = None \<longleftrightarrow> get_gate h a = None)"

lemma same_gates_refl [simp]: "same_gates h h"
  by (simp add: same_gates_def)

lemma same_gates_trans: "same_gates h h1 \<Longrightarrow> same_gates h1 h2 \<Longrightarrow> same_gates h h2"
  by (simp add: same_gates_def)

lemma slot_frame_same_gates: "slot_frame h h' T k src \<Longrightarrow> same_gates h h'"
  unfolding slot_frame_def same_gates_def
  by (metis option.exhaust option.distinct(1))

lemma slot_frame_empty_kept:
  assumes fr: "slot_frame h h' T k src" and g: "get_gate h a = Some g"
    and len: "length (inputs g) = input_count g" and e: "inputs_empty g J"
  shows "\<exists>g'. get_gate h' a = Some g' \<and> input_count g' = input_count g
           \<and> inputs_empty g' (if a = T then insert k J else J)"
proof (rule slot_frameD[OF fr g])
  fix g'
  assume 1: "get_gate h' a = Some g'" "input_count g' = input_count g"
    and 2: "\<And>j. j < length (inputs g) \<Longrightarrow> a = T \<Longrightarrow> j = k \<Longrightarrow> in_type (inputs g' ! j) = EMPTY_INPUT"
    and 3: "\<And>j. j < length (inputs g) \<Longrightarrow> \<not> (a = T \<and> j = k) \<Longrightarrow>
        in_type (inputs g' ! j) = in_type (inputs g ! j) \<and> in_ptr (inputs g' ! j) = in_ptr (inputs g ! j)"
  have "inputs_empty g' (if a = T then insert k J else J)"
    unfolding inputs_empty_def
  proof (intro ballI impI)
    fix j assume j: "j \<in> (if a = T then insert k J else J)" "j < input_count g'"
    then have jl: "j < length (inputs g)" using 1 len by simp
    show "in_type (inputs g' ! j) = EMPTY_INPUT"
    proof (cases "a = T \<and> j = k")
      case True
      then show ?thesis using 2[OF jl] by simp
    next
      case False
      with j have "j \<in> J" by (auto split: if_splits)
      with e j 1 have "in_type (inputs g ! j) = EMPTY_INPUT" by (simp add: inputs_empty_def)
      with 3[OF jl False] show ?thesis by simp
    qed
  qed
  with 1 show ?thesis by simp
qed

lemma delete_inputs_pairing:
  assumes "pairing_ex {} h" "get_gate h g = Some gr" "inputs_empty gr J"
    "\<forall>i \<in> set ks. i < input_count gr"
  shows "\<exists>h' gr'. delete_inputs h g ks = Some h' \<and> pairing_ex {} h' \<and> same_gates h h'
           \<and> get_gate h' g = Some gr' \<and> input_count gr' = input_count gr
           \<and> inputs_empty gr' (J \<union> set ks)"
  using assms
proof (induction ks arbitrary: h gr J)
  case Nil
  then show ?case by simp
next
  case (Cons i ks)
  have i: "i < input_count gr" using Cons.prems(4) by simp
  have len: "length (inputs gr) = input_count gr" by (rule pairing_exD(1)[OF Cons.prems(1,2)])
  have "\<exists>h1 gr1. (if in_type (inputs gr ! i) \<noteq> EMPTY_INPUT then nand_disconnect_input h g i else Some h) = Some h1
        \<and> pairing_ex {} h1 \<and> same_gates h h1 \<and> get_gate h1 g = Some gr1
        \<and> input_count gr1 = input_count gr \<and> inputs_empty gr1 (insert i J)"
  proof (cases "in_type (inputs gr ! i) = EMPTY_INPUT")
    case True
    then have "inputs_empty gr (insert i J)" using Cons.prems(3) by (simp add: inputs_empty_def)
    with True Cons.prems show ?thesis by simp
  next
    case False
    show ?thesis
    proof (rule nand_disconnect_input_pairing[OF Cons.prems(1,2) i])
      fix h1
      assume d: "nand_disconnect_input h g i = Some h1" and P1: "pairing_ex {} h1"
        and fr: "slot_frame h h1 g i (if in_type (inputs gr ! i) = NAND_GATE_INPUT then in_ptr (inputs gr ! i) else NULL)"
      from slot_frame_empty_kept[OF fr Cons.prems(2) len Cons.prems(3)]
      obtain gr1 where "get_gate h1 g = Some gr1" "input_count gr1 = input_count gr"
        "inputs_empty gr1 (insert i J)" by auto
      with d P1 slot_frame_same_gates[OF fr] False show ?thesis by simp
    qed simp
  qed
  then obtain h1 gr1 where
    s1: "(if in_type (inputs gr ! i) \<noteq> EMPTY_INPUT then nand_disconnect_input h g i else Some h) = Some h1"
    and P1: "pairing_ex {} h1" and sg: "same_gates h h1" and g1: "get_gate h1 g = Some gr1"
    and c1: "input_count gr1 = input_count gr" and e1: "inputs_empty gr1 (insert i J)"
    by blast
  have "\<forall>i \<in> set ks. i < input_count gr1" using Cons.prems(4) c1 by simp
  from Cons.IH[OF P1 g1 e1 this] obtain h' gr' where
    r: "delete_inputs h1 g ks = Some h'" "pairing_ex {} h'" "same_gates h1 h'"
    "get_gate h' g = Some gr'" "input_count gr' = input_count gr1"
    "inputs_empty gr' (insert i J \<union> set ks)" by blast
  have "delete_inputs h g (i # ks) = Some h'"
    using Cons.prems(2) i len s1 r(1) by simp
  with r c1 same_gates_trans[OF sg r(3)] show ?case by simp
qed


lemma acts_same_gates: "acts h h' F \<Longrightarrow> same_gates h h'"
  by (auto simp: acts_def same_gates_def)

lemma delete_outputs_pairing:
  assumes "pairing_ex {} h" "get_gate h g = Some gr" "inputs_empty gr {..<input_count gr}"
  shows "\<exists>h' gr'. delete_outputs h g = Some h' \<and> pairing_ex {} h' \<and> same_gates h h'
           \<and> get_gate h' g = Some gr' \<and> input_count gr' = input_count gr
           \<and> outputs gr' = [] \<and> inputs_empty gr' {..<input_count gr}"
  using assms
proof (induction "length (outputs gr)" arbitrary: h gr)
  case 0
  then have "delete_outputs h g = Some h"
    by (subst delete_outputs.simps) (simp add: darray_size_def)
  with 0 show ?case by simp
next
  case (Suc n)
  let ?info = "last (outputs gr)"
  have ne: "outputs gr \<noteq> []" and n: "n < length (outputs gr)" and n': "n = length (outputs gr) - 1"
    using Suc.hyps(2) by auto
  have lastrec: "outputs gr ! n = ?info" using ne n' by (simp add: last_conv_nth)
  have "record_paired h g n (outputs gr ! n)"
    by (rule pairing_exD(3)[OF Suc.prems(1,2) n]) simp
  with lastrec have "record_paired h g n ?info" by simp
  from record_pairedD[OF this] obtain tr where tr: "get_gate h (out_gate ?info) = Some tr"
    and k: "out_ind ?info < input_count tr" "out_ind ?info < length (inputs tr)"
    and sl: "inputs tr ! out_ind ?info = \<lparr>in_ptr = GatePtr g, in_type = NAND_GATE_INPUT, in_ind = n\<rparr>" .
  have ty: "in_type (inputs tr ! out_ind ?info) = NAND_GATE_INPUT"
    and pt: "in_ptr (inputs tr ! out_ind ?info) = GatePtr g" using sl by simp_all
  show ?case
  proof (rule nand_disconnect_nand_pairing[OF Suc.prems(1) tr k(1) ty pt])
    fix h1 s
    assume d: "nand_disconnect_nand h g (out_gate ?info) (out_ind ?info) = Some h1"
      and P1: "pairing_ex {} h1" and s: "get_gate h g = Some s"
      and A: "acts h h1 (disconnect_effect g (out_gate ?info) (out_ind ?info)
                 (in_ind (inputs tr ! out_ind ?info)) (last (outputs s))
                 (Suc (in_ind (inputs tr ! out_ind ?info)) \<noteq> length (outputs s)))"
    let ?F = "disconnect_effect g (out_gate ?info) (out_ind ?info)
                 (in_ind (inputs tr ! out_ind ?info)) (last (outputs s))
                 (Suc (in_ind (inputs tr ! out_ind ?info)) \<noteq> length (outputs s))"
    have g1: "get_gate h1 g = Some (?F g gr)" by (rule acts_validD[OF A Suc.prems(2)])
    have len: "length (inputs gr) = input_count gr" by (rule pairing_exD(1)[OF Suc.prems(1,2)])
    have l1: "n = length (outputs (?F g gr))" using Suc.hyps(2) by simp
    have e1: "inputs_empty (?F g gr) {..<input_count (?F g gr)}"
      unfolding inputs_empty_def
    proof (intro ballI impI)
      fix j assume "j \<in> {..<input_count (?F g gr)}"
      then have j: "j < input_count gr" "j < length (inputs gr)" using len by simp_all
      with Suc.prems(3) have "in_type (inputs gr ! j) = EMPTY_INPUT" by (simp add: inputs_empty_def)
      then show "in_type (inputs (?F g gr) ! j) = EMPTY_INPUT"
        using j by (auto simp: disconnect_effect_slot empty_slot_def)
    qed
    from Suc.hyps(1)[OF l1 P1 g1 e1] obtain h' gr' where
      r: "delete_outputs h1 g = Some h'" "pairing_ex {} h'" "same_gates h1 h'"
      "get_gate h' g = Some gr'" "input_count gr' = input_count (?F g gr)"
      "outputs gr' = []" "inputs_empty gr' {..<input_count (?F g gr)}" by blast
    have "delete_outputs h g = Some h'"
      using Suc.prems(2) ne d r(1)
      by (subst delete_outputs.simps) (simp add: darray_size_def darray_back_def)
    with r same_gates_trans[OF acts_same_gates[OF A] r(3)] show ?thesis by simp
  qed simp
qed

lemma get_gate_free: "get_gate (h[g := None]) a = (if a = g then None else get_gate h a)"
  by (auto simp: get_gate_def)

text \<open>
  No gate of \<open>h\<close> mentions \<open>g\<close>: no input slot holds a gate source \<open>g\<close>, no consumer
  record names \<open>g\<close>.
\<close>

definition unreferenced :: "heap \<Rightarrow> nat \<Rightarrow> bool" where
  "unreferenced h g =
     list_all (\<lambda>c. case c of
        None \<Rightarrow> True
      | Some gr \<Rightarrow>
          list_all (\<lambda>k. \<not> (in_type (inputs gr ! k) = NAND_GATE_INPUT
                            \<and> in_ptr (inputs gr ! k) = GatePtr g)) [0..<input_count gr]
          \<and> list_all (\<lambda>r. out_gate r \<noteq> g) (outputs gr)) h"

lemma unreferenced_iff:
  "unreferenced h g \<longleftrightarrow>
     (\<forall>a gr. get_gate h a = Some gr \<longrightarrow>
        (\<forall>k < input_count gr. \<not> (in_type (inputs gr ! k) = NAND_GATE_INPUT
                                   \<and> in_ptr (inputs gr ! k) = GatePtr g))
        \<and> (\<forall>i < length (outputs gr). out_gate (outputs gr ! i) \<noteq> g))"
proof
  assume u: "unreferenced h g"
  show "\<forall>a gr. get_gate h a = Some gr \<longrightarrow>
        (\<forall>k < input_count gr. \<not> (in_type (inputs gr ! k) = NAND_GATE_INPUT
                                   \<and> in_ptr (inputs gr ! k) = GatePtr g))
        \<and> (\<forall>i < length (outputs gr). out_gate (outputs gr ! i) \<noteq> g)"
  proof (intro allI impI)
    fix a gr assume "get_gate h a = Some gr"
    then have "Some gr \<in> set h" by (auto simp: get_gate_def in_set_conv_nth split: if_splits)
    with u show "(\<forall>k < input_count gr. \<not> (in_type (inputs gr ! k) = NAND_GATE_INPUT
                                   \<and> in_ptr (inputs gr ! k) = GatePtr g))
        \<and> (\<forall>i < length (outputs gr). out_gate (outputs gr ! i) \<noteq> g)"
      by (force simp: unreferenced_def list_all_iff)
  qed
next
  assume r: "\<forall>a gr. get_gate h a = Some gr \<longrightarrow>
        (\<forall>k < input_count gr. \<not> (in_type (inputs gr ! k) = NAND_GATE_INPUT
                                   \<and> in_ptr (inputs gr ! k) = GatePtr g))
        \<and> (\<forall>i < length (outputs gr). out_gate (outputs gr ! i) \<noteq> g)"
  show "unreferenced h g"
    unfolding unreferenced_def list_all_iff
  proof
    fix c assume "c \<in> set h"
    then obtain a where a: "a < length h" "h ! a = c" by (auto simp: in_set_conv_nth)
    show "case c of None \<Rightarrow> True
      | Some gr \<Rightarrow> (\<forall>k\<in>set [0..<input_count gr]. \<not> (in_type (inputs gr ! k) = NAND_GATE_INPUT
                            \<and> in_ptr (inputs gr ! k) = GatePtr g))
          \<and> (\<forall>r\<in>set (outputs gr). out_gate r \<noteq> g)"
    proof (cases c)
      case None
      then show ?thesis by simp
    next
      case (Some gr)
      with a have "get_gate h a = Some gr" by (simp add: get_gate_def)
      with r have "(\<forall>k < input_count gr. \<not> (in_type (inputs gr ! k) = NAND_GATE_INPUT
                                   \<and> in_ptr (inputs gr ! k) = GatePtr g))
        \<and> (\<forall>i < length (outputs gr). out_gate (outputs gr ! i) \<noteq> g)" by blast
      then show ?thesis by (auto simp: Some in_set_conv_nth)
    qed
  qed
qed

lemma nand_delete_pairing:
  assumes P: "pairing h" and g: "get_gate h g = Some gr"
  obtains h' where "nand_delete h (Some g) = Some h'" "pairing h'" "unreferenced h' g"
    "get_gate h' g = None" "\<And>a. a \<noteq> g \<Longrightarrow> get_gate h' a = None \<longleftrightarrow> get_gate h a = None"
    "length h' = length h"
proof -
  from P have P0: "pairing_ex {} h" by (simp add: pairing_iff)
  have "inputs_empty gr {}" by (simp add: inputs_empty_def)
  from delete_inputs_pairing[OF P0 g this, of "[0..<input_count gr]"]
  obtain h1 gr1 where d1: "delete_inputs h g [0..<input_count gr] = Some h1"
    and P1: "pairing_ex {} h1" and sg1: "same_gates h h1" and g1: "get_gate h1 g = Some gr1"
    and c1: "input_count gr1 = input_count gr" and e1: "inputs_empty gr1 ({} \<union> set [0..<input_count gr])"
    by auto
  have e1': "inputs_empty gr1 {..<input_count gr1}"
    using e1 c1 by (simp add: inputs_empty_def)
  from delete_outputs_pairing[OF P1 g1 e1']
  obtain h2 gr2 where d2: "delete_outputs h1 g = Some h2"
    and P2: "pairing_ex {} h2" and sg2: "same_gates h1 h2" and g2: "get_gate h2 g = Some gr2"
    and c2: "input_count gr2 = input_count gr1" and o2: "outputs gr2 = []"
    and e2: "inputs_empty gr2 {..<input_count gr1}"
    by blast
  let ?h' = "h2[g := None]"
  have res: "nand_delete h (Some g) = Some ?h'"
    using g d1 d2 by (simp add: nand_delete_def)
  have noslot: "\<And>a ga k. get_gate h2 a = Some ga \<Longrightarrow> k < input_count ga \<Longrightarrow>
      \<not> (in_type (inputs ga ! k) = NAND_GATE_INPUT \<and> in_ptr (inputs ga ! k) = GatePtr g)"
  proof
    fix a ga k assume ga: "get_gate h2 a = Some ga" and k: "k < input_count ga"
      and c: "in_type (inputs ga ! k) = NAND_GATE_INPUT \<and> in_ptr (inputs ga ! k) = GatePtr g"
    from c have ty: "in_type (inputs ga ! k) = NAND_GATE_INPUT"
      and pt: "in_ptr (inputs ga ! k) = GatePtr g" by simp_all
    from slot_pairedD[OF pairing_exD(2)[OF P2 ga k] ty] obtain S s where
      f: "in_ptr (inputs ga ! k) = GatePtr S" "get_gate h2 S = Some s"
      "in_ind (inputs ga ! k) < length (outputs s)"
      "outputs s ! in_ind (inputs ga ! k) = \<lparr>out_gate = a, out_ind = k\<rparr>" .
    from f(1) pt have "S = g" by simp
    with f(2,3) g2 o2 show False by simp
  qed
  have norec: "\<And>a ga i. get_gate h2 a = Some ga \<Longrightarrow> i < length (outputs ga) \<Longrightarrow>
      out_gate (outputs ga ! i) \<noteq> g"
  proof
    fix a ga i assume ga: "get_gate h2 a = Some ga" and i: "i < length (outputs ga)"
      and c: "out_gate (outputs ga ! i) = g"
    have "record_paired h2 a i (outputs ga ! i)" by (rule pairing_exD(3)[OF P2 ga i]) simp
    from record_pairedD[OF this] obtain tr where
      f: "get_gate h2 (out_gate (outputs ga ! i)) = Some tr"
      "out_ind (outputs ga ! i) < input_count tr" "out_ind (outputs ga ! i) < length (inputs tr)"
      "inputs tr ! out_ind (outputs ga ! i) = \<lparr>in_ptr = GatePtr a, in_type = NAND_GATE_INPUT, in_ind = i\<rparr>" .
    from f(1) c g2 have "tr = gr2" by simp
    with f(2,4) have k: "out_ind (outputs ga ! i) < input_count gr2"
      and "in_type (inputs gr2 ! out_ind (outputs ga ! i)) = NAND_GATE_INPUT" by simp_all
    with e2 c2 show False by (simp add: inputs_empty_def)
  qed
  have P': "pairing_ex {} ?h'"
    unfolding pairing_ex_def
  proof (intro allI impI conjI)
    fix a ga assume "get_gate ?h' a = Some ga"
    then have ga: "get_gate h2 a = Some ga" by (simp add: get_gate_free split: if_splits)
    show "length (inputs ga) = input_count ga" by (rule pairing_exD(1)[OF P2 ga])
  next
    fix a ga k assume "get_gate ?h' a = Some ga" and k: "k < input_count ga"
    then have ga: "get_gate h2 a = Some ga" by (simp add: get_gate_free split: if_splits)
    show "slot_paired ?h' a k (inputs ga ! k)"
    proof (rule slot_pairedI)
      assume ty: "in_type (inputs ga ! k) = NAND_GATE_INPUT"
      from slot_pairedD[OF pairing_exD(2)[OF P2 ga k] ty] obtain S s where
        f: "in_ptr (inputs ga ! k) = GatePtr S" "get_gate h2 S = Some s"
        "in_ind (inputs ga ! k) < length (outputs s)"
        "outputs s ! in_ind (inputs ga ! k) = \<lparr>out_gate = a, out_ind = k\<rparr>" .
      from noslot[OF ga k] ty f(1) have "S \<noteq> g" by auto
      with f show "\<exists>S s. in_ptr (inputs ga ! k) = GatePtr S \<and> get_gate ?h' S = Some s \<and>
           in_ind (inputs ga ! k) < length (outputs s) \<and> outputs s ! in_ind (inputs ga ! k) = \<lparr>out_gate = a, out_ind = k\<rparr>"
        by (intro exI[of _ S] exI[of _ s]) (simp add: get_gate_free)
    qed
  next
    fix a ga i assume "get_gate ?h' a = Some ga" and i: "i < length (outputs ga)"
    then have ga: "get_gate h2 a = Some ga" by (simp add: get_gate_free split: if_splits)
    have "record_paired h2 a i (outputs ga ! i)" by (rule pairing_exD(3)[OF P2 ga i]) simp
    from record_pairedD[OF this] obtain tr where
      f: "get_gate h2 (out_gate (outputs ga ! i)) = Some tr"
      "out_ind (outputs ga ! i) < input_count tr" "out_ind (outputs ga ! i) < length (inputs tr)"
      "inputs tr ! out_ind (outputs ga ! i) = \<lparr>in_ptr = GatePtr a, in_type = NAND_GATE_INPUT, in_ind = i\<rparr>" .
    from norec[OF ga i] f(1) have "get_gate ?h' (out_gate (outputs ga ! i)) = Some tr"
      by (simp add: get_gate_free)
    then show "record_paired ?h' a i (outputs ga ! i)"
      by (rule record_pairedI[OF _ f(2-4)])
  qed
  have U: "unreferenced ?h' g"
    unfolding unreferenced_iff
  proof (intro allI impI)
    fix a ga assume "get_gate ?h' a = Some ga"
    then have ga: "get_gate h2 a = Some ga" by (simp add: get_gate_free split: if_splits)
    show "(\<forall>k<input_count ga. \<not> (in_type (inputs ga ! k) = NAND_GATE_INPUT
                                     \<and> in_ptr (inputs ga ! k) = GatePtr g))
          \<and> (\<forall>i<length (outputs ga). out_gate (outputs ga ! i) \<noteq> g)"
      using noslot[OF ga] norec[OF ga] by simp
  qed
  have sg: "same_gates h h2" by (rule same_gates_trans[OF sg1 sg2])
  show ?thesis
  proof (rule that[OF res _ U])
    show "pairing ?h'" using P' by (simp add: pairing_iff)
    show "get_gate ?h' g = None" by (simp add: get_gate_free)
    show "\<And>a. a \<noteq> g \<Longrightarrow> get_gate ?h' a = None \<longleftrightarrow> get_gate h a = None"
      using sg by (simp add: get_gate_free same_gates_def)
    show "length ?h' = length h" using sg by (simp add: same_gates_def)
  qed
qed

section \<open>Mutations keep the pairing\<close>


lemma nand_disconnect_input_SomeD:
  assumes "nand_disconnect_input h T k = Some h'"
  shows "\<exists>t. get_gate h T = Some t \<and> k < input_count t"
  using assms by (auto simp: nand_disconnect_input_def bind_eq_Some_conv)

text \<open>
  C1: every mutating operation keeps the bidirectional pairing of input slots and
  consumer records: \<^verbatim>\<open>nand_connect_nand\<close> and \<^verbatim>\<open>nand_connect_signal\<close> whatever they return
  (success, \<open>EINVAL\<close> or \<open>ENOMEM\<close>), \<^verbatim>\<open>nand_disconnect_input\<close> and \<^verbatim>\<open>nand_delete\<close> wherever
  they are defined, and \<^verbatim>\<open>nand_new\<close>; the empty store is paired.
\<close>

theorem pairing_preserved:
  assumes "pairing (heap w)"
  shows "pairing (heap (snd (nand_connect_nand w g_out g_in k)))
       \<and> pairing (snd (nand_connect_signal (heap w) s g_in k))
       \<and> (\<forall>h'. nand_disconnect_input (heap w) T j = Some h' \<longrightarrow> pairing h')
       \<and> (\<forall>h'. nand_delete (heap w) g = Some h' \<longrightarrow> pairing h')
       \<and> pairing (heap (snd (nand_new w n)))
       \<and> pairing []"
proof (intro conjI allI impI)
  show "pairing (heap (snd (nand_connect_nand w g_out g_in k)))"
    by (rule nand_connect_nand_pairing[OF assms])
  show "pairing (snd (nand_connect_signal (heap w) s g_in k))"
    by (rule nand_connect_signal_pairing[OF assms])
  show "pairing (heap (snd (nand_new w n)))"
    by (rule nand_new_pairing[OF assms])
  show "pairing []" by (simp add: pairing_def)
next
  fix h' assume d: "nand_disconnect_input (heap w) T j = Some h'"
  from nand_disconnect_input_SomeD[OF d] obtain t where t: "get_gate (heap w) T = Some t"
    and j: "j < input_count t" by blast
  from assms have P0: "pairing_ex {} (heap w)" by (simp add: pairing_iff)
  show "pairing h'"
    by (rule nand_disconnect_input_pairing[OF P0 t j]) (use d in \<open>simp_all add: pairing_iff\<close>)
next
  fix h' assume d: "nand_delete (heap w) g = Some h'"
  show "pairing h'"
  proof (cases g)
    case None
    with d assms show ?thesis by (simp add: nand_delete_def)
  next
    case (Some a)
    with d obtain gr where gr: "get_gate (heap w) a = Some gr"
      by (auto simp: nand_delete_def bind_eq_Some_conv)
    show ?thesis
      by (rule nand_delete_pairing[OF assms gr]) (use d Some in simp)
  qed
qed

lemma pairing_two_gates: "pairing (heap two_gates)"
  by (simp add: two_gates_def pairing_def gate_paired_def slot_paired_def record_paired_def
      get_gate_def)

definition gate1_alone :: nand_t where
  "gate1_alone = \<lparr>crit_path_len = 0, inputs = [empty_slot], outputs = [], input_count = 1,
                   status = NOT_VISITED, signal = False\<rparr>"

lemma delete_two_gates: "nand_delete (heap two_gates) (Some 0) = Some [None, Some gate1_alone]"
  by code_simp

lemma disconnect_two_gates:
  "nand_disconnect_input (heap two_gates) 1 0
     = Some [Some \<lparr>crit_path_len = 0, inputs = [], outputs = [], input_count = 0,
                   status = NOT_VISITED, signal = False\<rparr>, Some gate1_alone]"
  by code_simp

theorem pairing_preserved_witness:
  "pairing (heap two_gates)
   \<and> pairing (heap (snd (nand_connect_nand two_gates (Some 1) (Some 1) 0)))
   \<and> pairing (snd (nand_connect_signal (heap two_gates) (Some 5) (Some 1) 0))
   \<and> pairing [Some \<lparr>crit_path_len = 0, inputs = [], outputs = [], input_count = 0,
                   status = NOT_VISITED, signal = False\<rparr>, Some gate1_alone]
   \<and> pairing [None, Some gate1_alone]
   \<and> pairing (heap (snd (nand_new two_gates 2)))"
  using pairing_preserved[OF pairing_two_gates, where g_out = "Some 1" and g_in = "Some 1" and k = 0
      and s = "Some 5" and T = 1 and j = 0 and g = "Some 0" and n = 2]
    delete_two_gates disconnect_two_gates pairing_two_gates
  by simp


text \<open>
  C6: on a paired store \<^verbatim>\<open>nand_delete\<close> of a gate \<open>g\<close> is defined and works in two phases.
  The first loop empties every input slot of \<open>g\<close> and the second empties its consumer
  array, each keeping the pairing (so the reciprocal entries on the other side are
  repaired); then the cell is freed.  In the resulting store no remaining gate holds a
  gate source \<open>g\<close> in an input slot or a record naming \<open>g\<close> in its consumer array, and
  the other gates are those of before.
\<close>

theorem nand_delete_removes_references:
  assumes "pairing h" "get_gate h g = Some gr"
  shows "\<exists>h1 g1 h2 g2.
           delete_inputs h g [0..<input_count gr] = Some h1 \<and> pairing h1
           \<and> get_gate h1 g = Some g1 \<and> inputs_empty g1 {..<input_count g1}
           \<and> delete_outputs h1 g = Some h2 \<and> pairing h2
           \<and> get_gate h2 g = Some g2 \<and> outputs g2 = []
           \<and> nand_delete h (Some g) = Some (h2[g := None])
           \<and> unreferenced (h2[g := None]) g
           \<and> (\<forall>a. get_gate (h2[g := None]) a = (if a = g then None else get_gate h2 a))
           \<and> same_gates h h2"
proof -
  from assms(1) have P0: "pairing_ex {} h" by (simp add: pairing_iff)
  have "inputs_empty gr {}" by (simp add: inputs_empty_def)
  from delete_inputs_pairing[OF P0 assms(2) this, of "[0..<input_count gr]"]
  obtain h1 g1 where d1: "delete_inputs h g [0..<input_count gr] = Some h1"
    and P1: "pairing_ex {} h1" and sg1: "same_gates h h1" and g1: "get_gate h1 g = Some g1"
    and c1: "input_count g1 = input_count gr" and e1: "inputs_empty g1 ({} \<union> set [0..<input_count gr])"
    by auto
  have e1': "inputs_empty g1 {..<input_count g1}"
    using e1 c1 by (simp add: inputs_empty_def)
  from delete_outputs_pairing[OF P1 g1 e1']
  obtain h2 g2 where d2: "delete_outputs h1 g = Some h2"
    and P2: "pairing_ex {} h2" and sg2: "same_gates h1 h2" and g2: "get_gate h2 g = Some g2"
    and o2: "outputs g2 = []"
    by blast
  have res: "nand_delete h (Some g) = Some (h2[g := None])"
    using assms(2) d1 d2 by (simp add: nand_delete_def)
  have U: "unreferenced (h2[g := None]) g"
    by (rule nand_delete_pairing[OF assms]) (use res in simp)
  show ?thesis
    using d1 P1 g1 e1' d2 P2 g2 o2 res U same_gates_trans[OF sg1 sg2]
    by (intro exI[of _ h1] exI[of _ g1] exI[of _ h2] exI[of _ g2])
       (simp add: pairing_iff get_gate_free)
qed

theorem nand_delete_removes_references_witness:
  "nand_delete (heap two_gates) (Some 0) = Some [None, Some gate1_alone]
   \<and> unreferenced [None, Some gate1_alone] 0"
proof -
  have g: "get_gate (heap two_gates) 0 =
      Some \<lparr>crit_path_len = 0, inputs = [], outputs = [\<lparr>out_gate = 1, out_ind = 0\<rparr>],
            input_count = 0, status = NOT_VISITED, signal = False\<rparr>"
    by (simp add: two_gates_def get_gate_def)
  from nand_delete_removes_references[OF pairing_two_gates g] delete_two_gates
  show ?thesis by auto
qed


section \<open>The traversal invariant\<close>

text \<open>
  The traversal reads the arity and the input slots of the gates and writes their
  status only.  Its invariant is stated on these two views of the store.
\<close>

type_synonym net = "nat \<Rightarrow> (nat \<times> in_info_t list) option"
type_synonym marks = "nat \<Rightarrow> topo_sort_status option"

definition net_of :: "heap \<Rightarrow> net" where
  "net_of h a = map_option (\<lambda>g. (input_count g, inputs g)) (get_gate h a)"

definition status_of :: "heap \<Rightarrow> marks" where
  "status_of h a = map_option status (get_gate h a)"

text \<open>
  In a sound net every gate has as many slots as its arity, a gate source points at a
  gate of the net and a signal source points at a boolean.
\<close>

definition net_ok :: "net \<Rightarrow> bool" where
  "net_ok N \<longleftrightarrow>
     (\<forall>a n ins. N a = Some (n, ins) \<longrightarrow>
        length ins = n
        \<and> (\<forall>k < n. (in_type (ins ! k) = NAND_GATE_INPUT \<longrightarrow>
                       (\<exists>s. in_ptr (ins ! k) = GatePtr s \<and> N s \<noteq> None))
                  \<and> (in_type (ins ! k) = BOOLEAN_SIGNAL_INPUT \<longrightarrow>
                       (\<exists>b. in_ptr (ins ! k) = BoolPtr b))))"

text \<open>
  A slot is done once it is known to be non-empty and its source gate, if any, is
  \<open>VISITED\<close> or is the gate of the frame directly over it.
\<close>

definition slot_done :: "marks \<Rightarrow> nat option \<Rightarrow> in_info_t \<Rightarrow> bool" where
  "slot_done S up sl \<longleftrightarrow>
     in_type sl \<noteq> EMPTY_INPUT
     \<and> (in_type sl = NAND_GATE_INPUT \<longrightarrow>
          (\<exists>s. in_ptr sl = GatePtr s \<and> (up = Some s \<or> S s = Some VISITED)))"

definition frame_ok :: "net \<Rightarrow> marks \<Rightarrow> nat option \<Rightarrow> dfs_info_t \<Rightarrow> bool" where
  "frame_ok N S up f \<longleftrightarrow>
     (\<exists>n ins. N (dfs_gate f) = Some (n, ins) \<and> dfs_ind f \<le> n
        \<and> (\<forall>j < dfs_ind f. slot_done S up (ins ! j)))"

fun frames_ok :: "net \<Rightarrow> marks \<Rightarrow> nat option \<Rightarrow> dfs_info_t list \<Rightarrow> bool" where
  "frames_ok N S up [] = True"
| "frames_ok N S up (f # fs) = (frame_ok N S up f \<and> frames_ok N S (Some (dfs_gate f)) fs)"

text \<open>
  The stack \<^verbatim>\<open>topo_order\<close>, top first: a gate is pushed after all its source gates,
  has no empty slot, and occurs once.
\<close>

fun topo_ok :: "net \<Rightarrow> nat list \<Rightarrow> bool" where
  "topo_ok N [] = True"
| "topo_ok N (a # as) =
     (a \<notin> set as
      \<and> (\<exists>n ins. N a = Some (n, ins)
           \<and> (\<forall>k < n. in_type (ins ! k) \<noteq> EMPTY_INPUT
                  \<and> (in_type (ins ! k) = NAND_GATE_INPUT \<longrightarrow>
                       (\<exists>s. in_ptr (ins ! k) = GatePtr s \<and> s \<in> set as))))
      \<and> topo_ok N as)"

definition marks_inv :: "marks \<Rightarrow> nat list \<Rightarrow> bool" where
  "marks_inv S ag \<longleftrightarrow>
     (\<forall>a s. S a = Some s \<longrightarrow> s \<noteq> NOT_VISITED \<longrightarrow> a \<in> set ag) \<and> (\<forall>a \<in> set ag. S a \<noteq> None)"

definition dfs_inv :: "net \<Rightarrow> marks \<Rightarrow> dfs_info_t list \<Rightarrow> nat list \<Rightarrow> nat list \<Rightarrow> bool" where
  "dfs_inv N S stk topo ag \<longleftrightarrow>
     frames_ok N S None stk
     \<and> distinct (map dfs_gate stk)
     \<and> (\<forall>a. S a = Some CURRENTLY_PROCESSING \<longleftrightarrow> a \<in> dfs_gate ` set stk)
     \<and> (\<forall>a. S a = Some VISITED \<longleftrightarrow> a \<in> set topo)
     \<and> marks_inv S ag
     \<and> topo_ok N topo"

lemma slot_done_mono:
  assumes "slot_done S up sl"
    and "\<And>s. S s = Some VISITED \<Longrightarrow> S' s = Some VISITED"
    and "\<And>s. up = Some s \<Longrightarrow> up' = Some s \<or> S' s = Some VISITED"
  shows "slot_done S' up' sl"
  using assms unfolding slot_done_def by blast

lemma frame_ok_mono:
  assumes "frame_ok N S up f"
    and "\<And>s. S s = Some VISITED \<Longrightarrow> S' s = Some VISITED"
    and "\<And>s. up = Some s \<Longrightarrow> up' = Some s \<or> S' s = Some VISITED"
  shows "frame_ok N S' up' f"
proof -
  from assms(1) obtain n ins where f: "N (dfs_gate f) = Some (n, ins)" "dfs_ind f \<le> n"
    "\<forall>j < dfs_ind f. slot_done S up (ins ! j)" unfolding frame_ok_def by blast
  have "\<forall>j < dfs_ind f. slot_done S' up' (ins ! j)"
    using f(3) slot_done_mono[OF _ assms(2,3)] by blast
  with f(1,2) show ?thesis unfolding frame_ok_def by blast
qed

lemma frames_ok_mono:
  assumes "frames_ok N S up fs"
    and "\<And>s. S s = Some VISITED \<Longrightarrow> S' s = Some VISITED"
    and "\<And>s. up = Some s \<Longrightarrow> up' = Some s \<or> S' s = Some VISITED"
  shows "frames_ok N S' up' fs"
  using assms(1,3)
proof (induction fs arbitrary: up up')
  case Nil
  then show ?case by simp
next
  case (Cons f fs)
  have "frame_ok N S' up' f"
    by (rule frame_ok_mono[OF _ assms(2) Cons.prems(2)]) (use Cons.prems(1) in simp_all)
  moreover have "frames_ok N S' (Some (dfs_gate f)) fs"
    by (rule Cons.IH[of "Some (dfs_gate f)" "Some (dfs_gate f)"]) (use Cons.prems(1) in simp_all)
  ultimately show ?case by simp
qed

text \<open>The three moves of \<^verbatim>\<open>process_node\<close> that return \<open>0\<close>.\<close>

lemma dfs_inv_finish:
  assumes I: "dfs_inv N S (f # rest) topo ag" and N: "N (dfs_gate f) = Some (n, ins)"
    and k: "dfs_ind f = n"
  shows "dfs_inv N (S(dfs_gate f \<mapsto> VISITED)) rest (dfs_gate f # topo) ag"
proof -
  let ?g = "dfs_gate f"
  let ?S' = "S(?g \<mapsto> VISITED)"
  from I have fr: "frame_ok N S None f" "frames_ok N S (Some ?g) rest"
    and d: "?g \<notin> dfs_gate ` set rest" "distinct (map dfs_gate rest)"
    and cp: "\<And>a. S a = Some CURRENTLY_PROCESSING \<longleftrightarrow> a \<in> dfs_gate ` set (f # rest)"
    and vi: "\<And>a. S a = Some VISITED \<longleftrightarrow> a \<in> set topo"
    and mi: "marks_inv S ag" and to: "topo_ok N topo"
    unfolding dfs_inv_def by auto
  have gcp: "S ?g = Some CURRENTLY_PROCESSING" by (simp add: cp)
  have 1: "frames_ok N ?S' None rest"
    by (rule frames_ok_mono[OF fr(2)]) (use gcp in auto)
  have 3: "\<forall>a. ?S' a = Some CURRENTLY_PROCESSING \<longleftrightarrow> a \<in> dfs_gate ` set rest"
    using cp d(1) by auto
  have 4: "\<forall>a. ?S' a = Some VISITED \<longleftrightarrow> a \<in> set (?g # topo)"
    using vi by auto
  have 5: "marks_inv ?S' ag"
    using mi gcp unfolding marks_inv_def by auto
  have gt: "?g \<notin> set topo" using vi[of ?g] gcp by simp
  from fr(1) N k have "\<forall>j < n. slot_done S None (ins ! j)" unfolding frame_ok_def by auto
  then have "\<forall>j < n. in_type (ins ! j) \<noteq> EMPTY_INPUT
                  \<and> (in_type (ins ! j) = NAND_GATE_INPUT \<longrightarrow>
                       (\<exists>s. in_ptr (ins ! j) = GatePtr s \<and> s \<in> set topo))"
    using vi unfolding slot_done_def by auto
  with gt N to have 6: "topo_ok N (?g # topo)" by simp
  show ?thesis unfolding dfs_inv_def using 1 d(2) 3 4 5 6 by simp
qed

lemma dfs_inv_advance:
  assumes I: "dfs_inv N S (f # rest) topo ag" and N: "N (dfs_gate f) = Some (n, ins)"
    and k: "dfs_ind f < n" and sd: "slot_done S None (ins ! dfs_ind f)"
  shows "dfs_inv N S (f\<lparr>dfs_ind := dfs_ind f + 1\<rparr> # rest) topo ag"
proof -
  from I have fr: "frame_ok N S None f" unfolding dfs_inv_def by auto
  with N have "\<forall>j < dfs_ind f. slot_done S None (ins ! j)" unfolding frame_ok_def by auto
  with sd have "\<forall>j < dfs_ind f + 1. slot_done S None (ins ! j)"
    by (auto simp: less_Suc_eq)
  with N k have "frame_ok N S None (f\<lparr>dfs_ind := dfs_ind f + 1\<rparr>)"
    unfolding frame_ok_def by auto
  with I show ?thesis unfolding dfs_inv_def by simp
qed

lemma dfs_inv_push:
  assumes I: "dfs_inv N S (f # rest) topo ag" and N: "N (dfs_gate f) = Some (n, ins)"
    and k: "dfs_ind f < n" and ty: "in_type (ins ! dfs_ind f) = NAND_GATE_INPUT"
    and pt: "in_ptr (ins ! dfs_ind f) = GatePtr s" and s: "S s = Some NOT_VISITED"
    and Ns: "N s = Some (m, ins')"
  shows "dfs_inv N (S(s \<mapsto> CURRENTLY_PROCESSING))
           (\<lparr>dfs_gate = s, dfs_ind = 0\<rparr> # f\<lparr>dfs_ind := dfs_ind f + 1\<rparr> # rest) topo (s # ag)"
proof -
  let ?S' = "S(s \<mapsto> CURRENTLY_PROCESSING)"
  let ?f' = "f\<lparr>dfs_ind := dfs_ind f + 1\<rparr>"
  from I have fr: "frame_ok N S None f" "frames_ok N S (Some (dfs_gate f)) rest"
    and d: "distinct (map dfs_gate (f # rest))"
    and cp: "\<And>a. S a = Some CURRENTLY_PROCESSING \<longleftrightarrow> a \<in> dfs_gate ` set (f # rest)"
    and vi: "\<And>a. S a = Some VISITED \<longleftrightarrow> a \<in> set topo"
    and mi: "marks_inv S ag" and to: "topo_ok N topo"
    unfolding dfs_inv_def by auto
  have mono: "\<And>a. S a = Some VISITED \<Longrightarrow> ?S' a = Some VISITED" using s by auto
  from cp[of s] s have sn: "s \<notin> dfs_gate ` set (f # rest)" by simp
  have a: "frame_ok N ?S' None \<lparr>dfs_gate = s, dfs_ind = 0\<rparr>"
    using Ns unfolding frame_ok_def by simp
  from fr(1) N have "\<forall>j < dfs_ind f. slot_done S None (ins ! j)" unfolding frame_ok_def by auto
  then have "\<forall>j < dfs_ind f. slot_done ?S' (Some s) (ins ! j)"
  proof (intro allI impI)
    fix j assume "\<forall>j < dfs_ind f. slot_done S None (ins ! j)" "j < dfs_ind f"
    then have "slot_done S None (ins ! j)" by simp
    then show "slot_done ?S' (Some s) (ins ! j)"
      by (rule slot_done_mono) (use mono in simp_all)
  qed
  moreover have "slot_done ?S' (Some s) (ins ! dfs_ind f)"
    using ty pt unfolding slot_done_def by simp
  ultimately have "\<forall>j < dfs_ind f + 1. slot_done ?S' (Some s) (ins ! j)"
    by (auto simp: less_Suc_eq)
  with N k have b: "frame_ok N ?S' (Some s) ?f'" unfolding frame_ok_def by auto
  have c: "frames_ok N ?S' (Some (dfs_gate ?f')) rest"
    by (rule frames_ok_mono[OF fr(2)]) (use mono in simp_all)
  have 3: "\<forall>a. ?S' a = Some CURRENTLY_PROCESSING \<longleftrightarrow>
             a \<in> dfs_gate ` set (\<lparr>dfs_gate = s, dfs_ind = 0\<rparr> # ?f' # rest)"
    using cp by auto
  have "s \<notin> set topo" using vi[of s] s by simp
  then have 4: "\<forall>a. ?S' a = Some VISITED \<longleftrightarrow> a \<in> set topo" by (auto simp: vi)
  have 5: "marks_inv ?S' (s # ag)" using mi unfolding marks_inv_def by auto
  show ?thesis unfolding dfs_inv_def using a b c d sn 3 4 5 to by simp
qed


subsection \<open>The invariant on the traversal state\<close>

definition erase_status :: "heap \<Rightarrow> heap" where
  "erase_status h = map (map_option (\<lambda>g. g\<lparr>status := NOT_VISITED\<rparr>)) h"

definition never_fails :: "bool list \<Rightarrow> bool" where
  "never_fails al = list_all (\<lambda>b. b) al"

lemma never_fails_alloc_ok [simp]: "never_fails al \<Longrightarrow> alloc_ok al"
  by (cases al) (simp_all add: never_fails_def alloc_ok_def)

lemma never_fails_tl [simp]: "never_fails al \<Longrightarrow> never_fails (tl al)"
  by (cases al) (simp_all add: never_fails_def)

lemma net_of_Some: "net_of h a = Some (n, ins) \<longleftrightarrow>
    (\<exists>g. get_gate h a = Some g \<and> n = input_count g \<and> ins = inputs g)"
  by (auto simp: net_of_def)

lemma status_of_Some: "status_of h a = Some s \<longleftrightarrow> (\<exists>g. get_gate h a = Some g \<and> s = status g)"
  by (auto simp: status_of_def)

lemma status_of_None: "status_of h a = None \<longleftrightarrow> get_gate h a = None"
  by (auto simp: status_of_def)

lemma net_of_status_upd:
  assumes "get_gate h a = Some gr"
  shows "net_of (set_gate h a (gr\<lparr>status := s\<rparr>)) = net_of h"
  using assms get_gate_valid[OF assms]
  by (auto simp: net_of_def fun_eq_iff get_gate_set_gate)

lemma status_of_status_upd:
  assumes "get_gate h a = Some gr"
  shows "status_of (set_gate h a (gr\<lparr>status := s\<rparr>)) = (status_of h)(a \<mapsto> s)"
  using assms get_gate_valid[OF assms]
  by (auto simp: status_of_def fun_eq_iff get_gate_set_gate)

lemma erase_status_upd:
  assumes "get_gate h a = Some gr"
  shows "erase_status (set_gate h a (gr\<lparr>status := s\<rparr>)) = erase_status h"
proof -
  have a: "a < length h" and e: "h ! a = Some gr"
    using assms by (auto simp: get_gate_def split: if_splits)
  show ?thesis
    unfolding erase_status_def set_gate_def
    by (rule nth_equalityI) (use a e in \<open>auto simp: nth_list_update\<close>)
qed

definition state_inv :: "dfs_state \<Rightarrow> bool" where
  "state_inv st \<longleftrightarrow>
     net_ok (net_of (st_heap st))
     \<and> dfs_inv (net_of (st_heap st)) (status_of (st_heap st)) (stack st) (topo_order st)
          (all_gates st)"

definition state_weak :: "dfs_state \<Rightarrow> bool" where
  "state_weak st \<longleftrightarrow>
     net_ok (net_of (st_heap st)) \<and> marks_inv (status_of (st_heap st)) (all_gates st)"

lemma state_inv_weak: "state_inv st \<Longrightarrow> state_weak st"
  by (simp add: state_inv_def state_weak_def dfs_inv_def)

text \<open>What \<^verbatim>\<open>process_node\<close> computes, case by case.\<close>

lemma process_node_finish:
  assumes "stack st = f # rest" "get_gate (st_heap st) (dfs_gate f) = Some gr"
    "dfs_ind f = input_count gr"
  shows "process_node st =
     (if alloc_ok (st_alloc st)
      then (Done (), st\<lparr>st_heap := set_gate (st_heap st) (dfs_gate f) (gr\<lparr>status := VISITED\<rparr>),
                       st_alloc := tl (st_alloc st), stack := rest,
                       topo_order := dfs_gate f # topo_order st\<rparr>)
      else (Errno ENOMEM, st\<lparr>st_heap := set_gate (st_heap st) (dfs_gate f) (gr\<lparr>status := VISITED\<rparr>),
                       st_alloc := tl (st_alloc st), stack := rest\<rparr>))"
  using assms by (simp add: process_node_def stack_push_def)

lemma process_node_step:
  assumes "stack st = f # rest" "get_gate (st_heap st) (dfs_gate f) = Some gr"
    "dfs_ind f < input_count gr" "dfs_ind f < length (inputs gr)"
  shows "process_node st =
     (if alloc_ok (st_alloc st)
      then process_input (inputs gr ! dfs_ind f)
             (st\<lparr>st_alloc := tl (st_alloc st), stack := f\<lparr>dfs_ind := dfs_ind f + 1\<rparr> # rest\<rparr>)
      else (Errno ENOMEM, st\<lparr>st_alloc := tl (st_alloc st), stack := rest\<rparr>))"
  using assms by (simp add: process_node_def stack_push_def)

lemma process_input_nand_new:
  assumes "get_gate (st_heap st) s = Some sr" "status sr = NOT_VISITED"
  shows "process_input_nand s st =
     (if \<not> alloc_ok (st_alloc st) then (Errno ENOMEM, st\<lparr>st_alloc := tl (st_alloc st)\<rparr>)
      else if \<not> alloc_ok (tl (st_alloc st)) then
        (Errno ENOMEM,
         st\<lparr>st_heap := set_gate (st_heap st) s (sr\<lparr>status := CURRENTLY_PROCESSING\<rparr>),
            st_alloc := tl (tl (st_alloc st)), all_gates := s # all_gates st\<rparr>)
      else
        (Done (),
         st\<lparr>st_heap := set_gate (st_heap st) s (sr\<lparr>status := CURRENTLY_PROCESSING\<rparr>),
            st_alloc := tl (tl (st_alloc st)),
            stack := \<lparr>dfs_gate = s, dfs_ind = 0\<rparr> # stack st, all_gates := s # all_gates st\<rparr>))"
  using assms by (simp add: process_input_nand_def stack_push_def)

lemma process_input_nand_old:
  assumes "get_gate (st_heap st) s = Some sr" "status sr \<noteq> NOT_VISITED"
  shows "process_input_nand s st =
     (if status sr = CURRENTLY_PROCESSING then (Errno ECANCELED, st) else (Done (), st))"
  using assms by (simp add: process_input_nand_def)


lemma process_input_cases:
  "process_input sl st =
     (if in_type sl = EMPTY_INPUT then (Errno ECANCELED, st)
      else if in_type sl = BOOLEAN_SIGNAL_INPUT then (Done (), st)
      else (case in_ptr sl of GatePtr g \<Rightarrow> process_input_nand g st | _ \<Rightarrow> (Undef, st)))"
  by (cases "in_type sl") (simp_all add: process_input_def)

lemma marks_inv_upd_same:
  assumes "marks_inv S ag" "a \<in> set ag"
  shows "marks_inv (S(a \<mapsto> s)) ag"
  using assms unfolding marks_inv_def by auto

lemma marks_inv_upd_new:
  assumes "marks_inv S ag"
  shows "marks_inv (S(a \<mapsto> s)) (a # ag)"
  using assms unfolding marks_inv_def by auto

lemma process_node_inv:
  assumes I: "state_inv st" and ne: "stack st \<noteq> []" and pn: "process_node st = (r, st')"
  shows "r \<noteq> Undef \<and> r \<noteq> Errno EINVAL
         \<and> erase_status (st_heap st') = erase_status (st_heap st)
         \<and> state_weak st'
         \<and> (r = Done () \<longrightarrow> state_inv st'
               \<and> dfs_gate ` set (stack st) \<union> set (topo_order st)
                   \<subseteq> dfs_gate ` set (stack st') \<union> set (topo_order st'))
         \<and> (never_fails (st_alloc st) \<longrightarrow> never_fails (st_alloc st') \<and> r \<noteq> Errno ENOMEM)"
proof -
  from ne obtain f rest where stk: "stack st = f # rest" by (cases "stack st") auto
  let ?h = "st_heap st"
  let ?N = "net_of ?h"
  let ?S = "status_of ?h"
  let ?g = "dfs_gate f"
  let ?k = "dfs_ind f"
  from I stk have NO: "net_ok ?N"
    and DI: "dfs_inv ?N ?S (f # rest) (topo_order st) (all_gates st)"
    by (simp_all add: state_inv_def)
  from DI have fr: "frame_ok ?N ?S None f" and MI: "marks_inv ?S (all_gates st)"
    and cp: "\<And>a. ?S a = Some CURRENTLY_PROCESSING \<longleftrightarrow> a \<in> dfs_gate ` set (f # rest)"
    unfolding dfs_inv_def by auto
  from fr obtain gr where gr: "get_gate ?h ?g = Some gr" and kle: "?k \<le> input_count gr"
    unfolding frame_ok_def net_of_Some by auto
  have Ng: "?N ?g = Some (input_count gr, inputs gr)" using gr by (simp add: net_of_Some)
  from NO Ng have len: "length (inputs gr) = input_count gr"
    unfolding net_ok_def by blast
  have gcp: "?S ?g = Some CURRENTLY_PROCESSING" by (simp add: cp)
  have gag: "?g \<in> set (all_gates st)" using MI gcp unfolding marks_inv_def by blast
  have W: "state_weak st" by (rule state_inv_weak[OF I])
  show ?thesis
  proof (cases "?k = input_count gr")
    case True
    let ?h' = "set_gate ?h ?g (gr\<lparr>status := VISITED\<rparr>)"
    have N': "net_of ?h' = ?N" by (rule net_of_status_upd[OF gr])
    have S': "status_of ?h' = ?S(?g \<mapsto> VISITED)" by (rule status_of_status_upd[OF gr])
    have E': "erase_status ?h' = erase_status ?h" by (rule erase_status_upd[OF gr])
    have M': "marks_inv (?S(?g \<mapsto> VISITED)) (all_gates st)"
      by (rule marks_inv_upd_same[OF MI gag])
    have D': "dfs_inv ?N (?S(?g \<mapsto> VISITED)) rest (?g # topo_order st) (all_gates st)"
      by (rule dfs_inv_finish[OF DI Ng True])
    show ?thesis
    proof (cases "alloc_ok (st_alloc st)")
      case True
      with pn process_node_finish[OF stk gr \<open>?k = input_count gr\<close>]
      have r: "r = Done ()"
        and st': "st' = st\<lparr>st_heap := ?h', st_alloc := tl (st_alloc st), stack := rest,
                       topo_order := ?g # topo_order st\<rparr>" by simp_all
      show ?thesis
        unfolding r st' using NO M' D' E' N' S' stk
        by (auto simp: state_inv_def state_weak_def)
    next
      case False
      with pn process_node_finish[OF stk gr \<open>?k = input_count gr\<close>]
      have r: "r = Errno ENOMEM"
        and st': "st' = st\<lparr>st_heap := ?h', st_alloc := tl (st_alloc st), stack := rest\<rparr>"
        by simp_all
      from False have nf: "\<not> never_fails (st_alloc st)" by auto
      show ?thesis
        unfolding r st' using NO M' E' N' S' nf
        by (simp add: state_weak_def)
    qed
  next
    case False
    with kle have k: "?k < input_count gr" by simp
    with len have kl: "?k < length (inputs gr)" by simp
    note step = process_node_step[OF stk gr k kl]
    show ?thesis
    proof (cases "alloc_ok (st_alloc st)")
      case False
      with pn step have r: "r = Errno ENOMEM"
        and st': "st' = st\<lparr>st_alloc := tl (st_alloc st), stack := rest\<rparr>" by simp_all
      from False have nf: "\<not> never_fails (st_alloc st)" by auto
      show ?thesis
        unfolding r st' using W nf by (simp add: state_weak_def)
    next
      case al: True
      let ?f' = "f\<lparr>dfs_ind := ?k + 1\<rparr>"
      let ?st1 = "st\<lparr>st_alloc := tl (st_alloc st), stack := ?f' # rest\<rparr>"
      let ?sl = "inputs gr ! ?k"
      from pn step al have pi: "process_input ?sl ?st1 = (r, st')" by simp
      have W1: "state_weak ?st1" using W by (simp add: state_weak_def)
      have adv: "slot_done ?S None ?sl \<Longrightarrow> state_inv ?st1"
        using dfs_inv_advance[OF DI Ng k] NO by (simp add: state_inv_def)
      consider (empty) "in_type ?sl = EMPTY_INPUT" | (bool) "in_type ?sl = BOOLEAN_SIGNAL_INPUT"
        | (gate) "in_type ?sl = NAND_GATE_INPUT"
        by (cases "in_type ?sl") auto
      then show ?thesis
      proof cases
        case empty
        with pi have r: "r = Errno ECANCELED" and st': "st' = ?st1"
          by (simp_all add: process_input_cases)
        show ?thesis unfolding r st' using W1 by simp
      next
        case bool
        with pi have r: "r = Done ()" and st': "st' = ?st1"
          by (simp_all add: process_input_cases)
        have "slot_done ?S None ?sl" using bool by (simp add: slot_done_def)
        from adv[OF this] show ?thesis unfolding r st' using W1 stk by auto
      next
        case gate
        from NO Ng k gate obtain s where pt: "in_ptr ?sl = GatePtr s" and "?N s \<noteq> None"
          unfolding net_ok_def by blast
        then obtain sr where sr: "get_gate ?h s = Some sr" by (auto simp: net_of_def)
        from pi gate pt have pin: "process_input_nand s ?st1 = (r, st')"
          by (simp add: process_input_cases)
        have sr1: "get_gate (st_heap ?st1) s = Some sr" using sr by simp
        show ?thesis
        proof (cases "status sr = NOT_VISITED")
          case False
          note old = process_input_nand_old[OF sr1 False]
          show ?thesis
          proof (cases "status sr = CURRENTLY_PROCESSING")
            case True
            with pin old have r: "r = Errno ECANCELED" and st': "st' = ?st1" by simp_all
            show ?thesis unfolding r st' using W1 by simp
          next
            case nc: False
            with pin old have r: "r = Done ()" and st': "st' = ?st1" by simp_all
            from False nc have "status sr = VISITED" by (cases "status sr") auto
            with sr have "?S s = Some VISITED" by (simp add: status_of_Some)
            with gate pt have "slot_done ?S None ?sl" by (simp add: slot_done_def)
            from adv[OF this] show ?thesis unfolding r st' using W1 stk by auto
          qed
        next
          case nv: True
          note new = process_input_nand_new[OF sr1 nv]
          let ?h' = "set_gate ?h s (sr\<lparr>status := CURRENTLY_PROCESSING\<rparr>)"
          have N': "net_of ?h' = ?N" by (rule net_of_status_upd[OF sr])
          have S': "status_of ?h' = ?S(s \<mapsto> CURRENTLY_PROCESSING)"
            by (rule status_of_status_upd[OF sr])
          have E': "erase_status ?h' = erase_status ?h" by (rule erase_status_upd[OF sr])
          have M': "marks_inv (?S(s \<mapsto> CURRENTLY_PROCESSING)) (s # all_gates st)"
            by (rule marks_inv_upd_new[OF MI])
          show ?thesis
          proof (cases "alloc_ok (tl (st_alloc st))")
            case False
            with pin new have r: "r = Errno ENOMEM"
              and st': "st' = ?st1\<lparr>st_alloc := tl (tl (st_alloc st))\<rparr>" by simp_all
            from False have nf: "\<not> never_fails (st_alloc st)"
              using never_fails_alloc_ok never_fails_tl by blast
            show ?thesis unfolding r st' using W1 nf by (simp add: state_weak_def)
          next
            case al2: True
            show ?thesis
            proof (cases "alloc_ok (tl (tl (st_alloc st)))")
              case False
              with pin new al2 have r: "r = Errno ENOMEM"
                and st': "st' = ?st1\<lparr>st_heap := ?h', st_alloc := tl (tl (tl (st_alloc st))),
                                     all_gates := s # all_gates st\<rparr>" by simp_all
              from False have nf: "\<not> never_fails (st_alloc st)"
                using never_fails_alloc_ok never_fails_tl by blast
              show ?thesis unfolding r st' using NO N' S' E' M' nf
                by (simp add: state_weak_def)
            next
              case al3: True
              with pin new al2 have r: "r = Done ()"
                and st': "st' = ?st1\<lparr>st_heap := ?h', st_alloc := tl (tl (tl (st_alloc st))),
                                     stack := \<lparr>dfs_gate = s, dfs_ind = 0\<rparr> # ?f' # rest,
                                     all_gates := s # all_gates st\<rparr>" by simp_all
              have Ss: "?S s = Some NOT_VISITED" using sr nv by (simp add: status_of_Some)
              have Ns: "?N s = Some (input_count sr, inputs sr)" using sr by (simp add: net_of_Some)
              have D': "dfs_inv ?N (?S(s \<mapsto> CURRENTLY_PROCESSING))
                 (\<lparr>dfs_gate = s, dfs_ind = 0\<rparr> # ?f' # rest) (topo_order st) (s # all_gates st)"
                by (rule dfs_inv_push[OF DI Ng k gate pt Ss Ns])
              show ?thesis unfolding r st' using NO N' S' E' M' D' stk
                by (auto simp: state_weak_def state_inv_def)
            qed
          qed
        qed
      qed
    qed
  qed
qed


lemma dfs_loop_inv:
  assumes "state_inv st" "dfs_loop st = (r, st')"
  shows "r \<noteq> Undef \<and> r \<noteq> Errno EINVAL
         \<and> erase_status (st_heap st') = erase_status (st_heap st)
         \<and> state_weak st'
         \<and> (r = Done () \<longrightarrow> state_inv st' \<and> stack st' = []
               \<and> dfs_gate ` set (stack st) \<union> set (topo_order st) \<subseteq> set (topo_order st'))
         \<and> (never_fails (st_alloc st) \<longrightarrow> never_fails (st_alloc st') \<and> r \<noteq> Errno ENOMEM)"
  using assms
proof (induction st arbitrary: r st' rule: dfs_loop.induct)
  case (1 st)
  show ?case
  proof (cases "0 < length (stack st)")
    case False
    with "1.prems"(2) have "r = Done ()" "st' = st"
      by (simp_all add: dfs_loop.simps[of st])
    with "1.prems"(1) False show ?thesis
      by (simp add: state_inv_weak)
  next
    case True
    obtain r1 st1 where pn: "process_node st = (r1, st1)" by (cases "process_node st") auto
    from True have ne: "stack st \<noteq> []" by auto
    note P = process_node_inv[OF "1.prems"(1) ne pn]
    show ?thesis
    proof (cases "r1 = Done ()")
      case d: True
      with "1.prems"(2) True pn have loop: "dfs_loop st1 = (r, st')"
        by (simp add: dfs_loop.simps[of st])
      from P d have I1: "state_inv st1" by simp
      note IH = "1.IH"[OF True pn[symmetric] d I1 loop]
      from P d have s1: "dfs_gate ` set (stack st) \<union> set (topo_order st)
                   \<subseteq> dfs_gate ` set (stack st1) \<union> set (topo_order st1)" by simp
      have s2: "dfs_gate ` set (stack st) \<union> set (topo_order st) \<subseteq> set (topo_order st')"
        if "r = Done ()"
      proof -
        from IH that have "dfs_gate ` set (stack st1) \<union> set (topo_order st1) \<subseteq> set (topo_order st')"
          by simp
        with s1 show ?thesis by (rule subset_trans)
      qed
      from P d have e1: "erase_status (st_heap st1) = erase_status (st_heap st)"
        and n1: "never_fails (st_alloc st) \<longrightarrow> never_fails (st_alloc st1)" by simp_all
      from IH e1 n1 s2 show ?thesis by simp
    next
      case nd: False
      then have "\<And>u. r1 \<noteq> Done u" by simp
      with "1.prems"(2) True pn have "r = r1" "st' = st1"
        by (simp_all add: dfs_loop.simps[of st] split: result.splits)
      with P nd show ?thesis by simp
    qed
  qed
qed


lemma erase_status_get:
  "get_gate (erase_status h) a = map_option (\<lambda>g. g\<lparr>status := NOT_VISITED\<rparr>) (get_gate h a)"
  by (simp add: erase_status_def get_gate_def)

lemma erase_status_eq_valid:
  assumes "erase_status h' = erase_status h"
  shows "get_gate h' a = None \<longleftrightarrow> get_gate h a = None"
proof -
  have "get_gate (erase_status h') a = get_gate (erase_status h) a" using assms by simp
  then show ?thesis by (auto simp: erase_status_get)
qed

lemma erase_status_eq_net:
  assumes "erase_status h' = erase_status h"
  shows "net_of h' = net_of h"
proof
  fix a
  have e: "get_gate (erase_status h') a = get_gate (erase_status h) a" using assms by simp
  show "net_of h' a = net_of h a"
  proof (cases "get_gate h a")
    case None
    with erase_status_eq_valid[OF assms, of a] show ?thesis by (simp add: net_of_def)
  next
    case (Some g)
    with erase_status_eq_valid[OF assms, of a] obtain g' where g': "get_gate h' a = Some g'" by auto
    from e Some g' have "g'\<lparr>status := NOT_VISITED\<rparr> = g\<lparr>status := NOT_VISITED\<rparr>"
      by (simp add: erase_status_get)
    then have "input_count g' = input_count g \<and> inputs g' = inputs g"
      by (metis nand_t.select_convs(2) nand_t.select_convs(4) nand_t.surjective nand_t.update_convs(5))
    with Some g' show ?thesis by (simp add: net_of_def)
  qed
qed

lemma dfs_inv_start:
  assumes I: "dfs_inv N S [] topo ag" and s: "S g = Some NOT_VISITED" and N: "N g = Some (n, ins)"
  shows "dfs_inv N (S(g \<mapsto> CURRENTLY_PROCESSING)) [\<lparr>dfs_gate = g, dfs_ind = 0\<rparr>] topo (g # ag)"
proof -
  let ?S' = "S(g \<mapsto> CURRENTLY_PROCESSING)"
  from I have cp: "\<And>a. S a \<noteq> Some CURRENTLY_PROCESSING"
    and vi: "\<And>a. S a = Some VISITED \<longleftrightarrow> a \<in> set topo"
    and mi: "marks_inv S ag" and to: "topo_ok N topo"
    unfolding dfs_inv_def by auto
  have a: "frame_ok N ?S' None \<lparr>dfs_gate = g, dfs_ind = 0\<rparr>"
    using N unfolding frame_ok_def by simp
  have 3: "\<forall>a. ?S' a = Some CURRENTLY_PROCESSING \<longleftrightarrow> a \<in> dfs_gate ` set [\<lparr>dfs_gate = g, dfs_ind = 0\<rparr>]"
    using cp by auto
  have "g \<notin> set topo" using vi[of g] s by simp
  then have 4: "\<forall>a. ?S' a = Some VISITED \<longleftrightarrow> a \<in> set topo" by (auto simp: vi)
  have 5: "marks_inv ?S' (g # ag)" using mi unfolding marks_inv_def by auto
  show ?thesis unfolding dfs_inv_def using a 3 4 5 to by simp
qed

lemma topo_sort_dfs_cases:
  assumes "get_gate (st_heap st) g = Some gr"
  shows "topo_sort_dfs g st =
     (if \<not> alloc_ok (st_alloc st) then (Errno ENOMEM, st\<lparr>st_alloc := tl (st_alloc st)\<rparr>)
      else if \<not> alloc_ok (tl (st_alloc st)) then
        (Errno ENOMEM, st\<lparr>st_alloc := tl (tl (st_alloc st)), all_gates := g # all_gates st\<rparr>)
      else dfs_loop (st\<lparr>st_heap := set_gate (st_heap st) g (gr\<lparr>status := CURRENTLY_PROCESSING\<rparr>),
                        st_alloc := tl (tl (st_alloc st)),
                        stack := \<lparr>dfs_gate = g, dfs_ind = 0\<rparr> # stack st,
                        all_gates := g # all_gates st\<rparr>))"
  using assms by (simp add: topo_sort_dfs_def stack_push_def)

lemma never_fails_tlD: "never_fails al \<Longrightarrow> alloc_ok al \<and> alloc_ok (tl al) \<and> never_fails (tl (tl al))"
  by simp

lemma topo_sort_dfs_inv:
  assumes I: "state_inv st" and e: "stack st = []" and g: "get_gate (st_heap st) g = Some gr"
    and nv: "status gr \<noteq> VISITED" and res: "topo_sort_dfs g st = (r, st')"
  shows "r \<noteq> Undef \<and> r \<noteq> Errno EINVAL \<and> erase_status (st_heap st') = erase_status (st_heap st)
         \<and> state_weak st'
         \<and> (r = Done () \<longrightarrow> state_inv st' \<and> stack st' = []
               \<and> insert g (set (topo_order st)) \<subseteq> set (topo_order st'))
         \<and> (never_fails (st_alloc st) \<longrightarrow> never_fails (st_alloc st') \<and> r \<noteq> Errno ENOMEM)"
proof -
  let ?N = "net_of (st_heap st)" and ?S = "status_of (st_heap st)"
  from I have nok: "net_ok ?N" and D: "dfs_inv ?N ?S (stack st) (topo_order st) (all_gates st)"
    unfolding state_inv_def by auto
  from D e have cp: "\<And>a. ?S a \<noteq> Some CURRENTLY_PROCESSING" unfolding dfs_inv_def by auto
  from cp[of g] g nv have s: "?S g = Some NOT_VISITED"
    by (cases "status gr") (auto simp: status_of_def)
  from g have Ng: "?N g = Some (input_count gr, inputs gr)" by (simp add: net_of_def)
  from D have mi: "marks_inv ?S (all_gates st)" unfolding dfs_inv_def by simp
  from mi s have mi': "marks_inv ?S (g # all_gates st)" unfolding marks_inv_def by auto
  note c = topo_sort_dfs_cases[OF g]
  show ?thesis
  proof (cases "alloc_ok (st_alloc st) \<and> alloc_ok (tl (st_alloc st))")
    case False
    then have nf: "\<not> never_fails (st_alloc st)" using never_fails_tlD by blast
    from False c res have r: "r = Errno ENOMEM" and h: "st_heap st' = st_heap st"
      and ag: "all_gates st' = all_gates st \<or> all_gates st' = g # all_gates st"
      by (auto split: if_splits)
    from ag mi mi' nok h have "state_weak st'" unfolding state_weak_def by auto
    with r h nf show ?thesis by simp
  next
    case True
    let ?st0 = "st\<lparr>st_heap := set_gate (st_heap st) g (gr\<lparr>status := CURRENTLY_PROCESSING\<rparr>),
                        st_alloc := tl (tl (st_alloc st)),
                        stack := \<lparr>dfs_gate = g, dfs_ind = 0\<rparr> # stack st,
                        all_gates := g # all_gates st\<rparr>"
    from True c res have loop: "dfs_loop ?st0 = (r, st')" by simp
    from D e have D0: "dfs_inv ?N ?S [] (topo_order st) (all_gates st)" by simp
    have I0: "state_inv ?st0"
      unfolding state_inv_def
      using nok dfs_inv_start[OF D0 s Ng] e
      by (simp add: net_of_status_upd[OF g] status_of_status_upd[OF g])
    note L = dfs_loop_inv[OF I0 loop]
    have e0: "erase_status (st_heap ?st0) = erase_status (st_heap st)"
      by (simp add: erase_status_upd[OF g])
    have nf: "never_fails (st_alloc st) \<Longrightarrow> never_fails (st_alloc ?st0)" by simp
    from L e0 nf show ?thesis by auto
  qed
qed


lemma topo_sort_for_inv:
  assumes "state_inv st" "stack st = []" "\<forall>g \<in> set gs. get_gate (st_heap st) g \<noteq> None"
    "topo_sort_for gs st = (r, st')"
  shows "r \<noteq> Undef \<and> r \<noteq> Errno EINVAL \<and> erase_status (st_heap st') = erase_status (st_heap st)
         \<and> state_weak st'
         \<and> (r = Done () \<longrightarrow> state_inv st' \<and> stack st' = []
               \<and> set gs \<union> set (topo_order st) \<subseteq> set (topo_order st'))
         \<and> (never_fails (st_alloc st) \<longrightarrow> never_fails (st_alloc st') \<and> r \<noteq> Errno ENOMEM)"
  using assms
proof (induction gs arbitrary: st r st')
  case Nil
  then show ?case by (auto simp: state_inv_weak)
next
  case (Cons g gs)
  from Cons.prems(3) obtain gr where g: "get_gate (st_heap st) g = Some gr" by auto
  show ?case
  proof (cases "status gr = VISITED")
    case True
    with g Cons.prems(4) have rec: "topo_sort_for gs st = (r, st')" by simp
    from Cons.prems(3) have v: "\<forall>g \<in> set gs. get_gate (st_heap st) g \<noteq> None" by simp
    note IH = Cons.IH[OF Cons.prems(1) Cons.prems(2) v rec]
    from Cons.prems(1) have "\<And>a. status_of (st_heap st) a = Some VISITED \<longleftrightarrow> a \<in> set (topo_order st)"
      unfolding state_inv_def dfs_inv_def by auto
    from this[of g] g True have "g \<in> set (topo_order st)" by (simp add: status_of_def)
    with IH show ?thesis by auto
  next
    case False
    obtain r1 st1 where d: "topo_sort_dfs g st = (r1, st1)" by (cases "topo_sort_dfs g st")
    note D = topo_sort_dfs_inv[OF Cons.prems(1) Cons.prems(2) g False d]
    show ?thesis
    proof (cases "r1 = Done ()")
      case ne: False
      with g False d Cons.prems(4) have "r = r1" "st' = st1"
        by (auto split: result.splits)
      with D ne show ?thesis by simp
    next
      case True
      with g False d Cons.prems(4) have rec: "topo_sort_for gs st1 = (r, st')" by simp
      from D True have I1: "state_inv st1" and e1: "stack st1 = []"
        and s1: "insert g (set (topo_order st)) \<subseteq> set (topo_order st1)" by auto
      from D have er: "erase_status (st_heap st1) = erase_status (st_heap st)" by simp
      from Cons.prems(3) erase_status_eq_valid[OF er]
      have v: "\<forall>g \<in> set gs. get_gate (st_heap st1) g \<noteq> None" by simp
      note IH = Cons.IH[OF I1 e1 v rec]
      from IH have s2: "r = Done () \<Longrightarrow> set gs \<union> set (topo_order st1) \<subseteq> set (topo_order st')" by simp
      have s3: "r = Done () \<Longrightarrow> set (g # gs) \<union> set (topo_order st) \<subseteq> set (topo_order st')"
        using s1 s2 by auto
      from IH D er s3 show ?thesis by simp
    qed
  qed
qed

lemma clear_gates_effect:
  assumes "\<forall>a \<in> set ag. get_gate h a \<noteq> None"
  shows "\<exists>h'. clear_gates h ag = Some h' \<and> erase_status h' = erase_status h
           \<and> (\<forall>a. status_of h' a =
                 (if a \<in> set ag then map_option (\<lambda>_. NOT_VISITED) (status_of h a) else status_of h a))"
  using assms
proof (induction ag arbitrary: h)
  case Nil
  then show ?case by simp
next
  case (Cons a ag)
  from Cons.prems obtain gr where g: "get_gate h a = Some gr" by auto
  let ?h1 = "set_gate h a (gr\<lparr>status := NOT_VISITED\<rparr>)"
  have er: "erase_status ?h1 = erase_status h" by (rule erase_status_upd[OF g])
  have st: "status_of ?h1 = (status_of h)(a \<mapsto> NOT_VISITED)" by (rule status_of_status_upd[OF g])
  from Cons.prems erase_status_eq_valid[OF er]
  have v: "\<forall>a \<in> set ag. get_gate ?h1 a \<noteq> None" by simp
  from Cons.IH[OF v] obtain h' where c: "clear_gates ?h1 ag = Some h'"
    and e: "erase_status h' = erase_status ?h1"
    and s: "\<And>b. status_of h' b =
                 (if b \<in> set ag then map_option (\<lambda>_. NOT_VISITED) (status_of ?h1 b) else status_of ?h1 b)"
    by blast
  from g have sa: "status_of h a = Some (status gr)" by (simp add: status_of_def)
  have "\<forall>b. status_of h' b =
          (if b \<in> set (a # ag) then map_option (\<lambda>_. NOT_VISITED) (status_of h b) else status_of h b)"
    by (auto simp: s st sa)
  with c e er g show ?case by simp
qed

text \<open>A store is at rest when no gate carries a traversal mark.\<close>

definition unvisited :: "heap \<Rightarrow> bool" where
  "unvisited h = list_all (\<lambda>c. case c of None \<Rightarrow> True | Some g \<Rightarrow> status g = NOT_VISITED) h"

lemma unvisited_iff: "unvisited h \<longleftrightarrow> (\<forall>a g. get_gate h a = Some g \<longrightarrow> status g = NOT_VISITED)"
proof
  assume u: "unvisited h"
  show "\<forall>a g. get_gate h a = Some g \<longrightarrow> status g = NOT_VISITED"
  proof (intro allI impI)
    fix a g assume "get_gate h a = Some g"
    then have "a < length h" "h ! a = Some g" by (auto simp: get_gate_def split: if_splits)
    then have "Some g \<in> set h" by (metis nth_mem)
    with u show "status g = NOT_VISITED" by (auto simp: unvisited_def list_all_iff)
  qed
next
  assume r: "\<forall>a g. get_gate h a = Some g \<longrightarrow> status g = NOT_VISITED"
  show "unvisited h"
    unfolding unvisited_def list_all_iff
  proof
    fix c assume "c \<in> set h"
    then obtain a where "a < length h" "h ! a = c" by (auto simp: in_set_conv_nth)
    then have "get_gate h a = c" by (simp add: get_gate_def)
    with r show "case c of None \<Rightarrow> True | Some g \<Rightarrow> status g = NOT_VISITED"
      by (cases c) auto
  qed
qed

lemma status_upd_same: "status (g::nand_t) = s \<Longrightarrow> g\<lparr>status := s\<rparr> = g"
  by (cases g) simp

lemma unvisited_erase: "unvisited h \<Longrightarrow> erase_status h = h"
  unfolding erase_status_def unvisited_def list_all_iff
proof (rule map_idI)
  fix x assume a: "\<forall>c\<in>set h. case c of None \<Rightarrow> True | Some g \<Rightarrow> status g = NOT_VISITED" "x \<in> set h"
  show "map_option (\<lambda>g. g\<lparr>status := NOT_VISITED\<rparr>) x = x"
  proof (cases x)
    case None then show ?thesis by simp
  next
    case (Some g)
    with a have "status g = NOT_VISITED" by auto
    with Some show ?thesis by (simp add: status_upd_same)
  qed
qed

lemma unvisited_erase_status [simp]: "unvisited (erase_status h)"
  by (auto simp: unvisited_iff erase_status_get)


lemma topo_sort_inv:
  assumes nok: "net_ok (net_of (heap w))" and u: "unvisited (heap w)"
    and v: "\<forall>g \<in> set gs. get_gate (heap w) g \<noteq> None"
    and res: "topo_sort w gs [] = (r, w', topo)"
  shows "r \<noteq> Undef \<and> r \<noteq> Errno EINVAL \<and> heap w' = heap w
         \<and> (r = Done () \<longrightarrow> topo_ok (net_of (heap w)) (rev topo) \<and> set gs \<subseteq> set topo)
         \<and> (never_fails (alloc w) \<longrightarrow> never_fails (alloc w') \<and> r \<noteq> Errno ENOMEM)"
proof (cases "alloc_ok (alloc w) \<and> alloc_ok (tl (alloc w))")
  case False
  then have nf: "\<not> never_fails (alloc w)" using never_fails_tlD by blast
  from False res have "r = Errno ENOMEM" "heap w' = heap w"
    by (auto simp: topo_sort_def split: if_splits)
  with nf show ?thesis by simp
next
  case True
  let ?st0 = "\<lparr>st_heap = heap w, st_alloc = tl (tl (alloc w)), stack = [],
                topo_order = [], all_gates = []\<rparr>"
  obtain r1 st where f: "topo_sort_for gs ?st0 = (r1, st)" by (cases "topo_sort_for gs ?st0")
  from u have nv: "\<And>a s. status_of (heap w) a = Some s \<Longrightarrow> s = NOT_VISITED"
    by (auto simp: unvisited_iff status_of_Some)
  have D0: "dfs_inv (net_of (heap w)) (status_of (heap w)) [] [] []"
    unfolding dfs_inv_def marks_inv_def using nv by fastforce
  have I0: "state_inv ?st0" unfolding state_inv_def using nok D0 by simp
  have e0: "stack ?st0 = []" by simp
  have v0: "\<forall>g \<in> set gs. get_gate (st_heap ?st0) g \<noteq> None" using v by simp
  note F = topo_sort_for_inv[OF I0 e0 v0 f]
  from F have er: "erase_status (st_heap st) = erase_status (heap w)" by simp
  from F have mi: "marks_inv (status_of (st_heap st)) (all_gates st)"
    unfolding state_weak_def by simp
  then have va: "\<forall>a \<in> set (all_gates st). get_gate (st_heap st) a \<noteq> None"
    unfolding marks_inv_def by (simp add: status_of_None)
  from clear_gates_effect[OF va] obtain h' where c: "clear_gates (st_heap st) (all_gates st) = Some h'"
    and e: "erase_status h' = erase_status (st_heap st)"
    and s: "\<And>a. status_of h' a =
                 (if a \<in> set (all_gates st) then map_option (\<lambda>_. NOT_VISITED) (status_of (st_heap st) a)
                  else status_of (st_heap st) a)"
    by blast
  have "unvisited h'"
    unfolding unvisited_iff
  proof (intro allI impI)
    fix a g assume g: "get_gate h' a = Some g"
    then have sa: "status_of h' a = Some (status g)" by (simp add: status_of_def)
    show "status g = NOT_VISITED"
    proof (cases "a \<in> set (all_gates st)")
      case True
      with s[of a] sa show ?thesis by (cases "status_of (st_heap st) a") auto
    next
      case False
      with s[of a] sa have "status_of (st_heap st) a = Some (status g)" by simp
      with mi False show ?thesis unfolding marks_inv_def by blast
    qed
  qed
  then have "h' = erase_status h'" by (simp add: unvisited_erase)
  with e er u have h': "h' = heap w" by (simp add: unvisited_erase)
  from True res f c have r: "r = r1" and w': "w' = \<lparr>heap = h', alloc = st_alloc st\<rparr>"
    and t: "topo = rev (topo_order st)"
    by (simp_all add: topo_sort_def stack_reverse_def)
  have N: "net_of (st_heap st) = net_of (heap w)" by (rule erase_status_eq_net[OF er])
  have d: "r1 = Done () \<Longrightarrow> topo_ok (net_of (heap w)) (topo_order st) \<and> set gs \<subseteq> set (topo_order st)"
    using F N unfolding state_inv_def dfs_inv_def by auto
  have nf: "never_fails (alloc w) \<Longrightarrow> never_fails (st_alloc ?st0)" by simp
  from F r w' t h' d nf show ?thesis by auto
qed


section \<open>The values computed by an evaluation\<close>

text \<open>
  The contribution of one input slot to its gate: a signal source gives the value of
  the boolean and one delay stage, a gate source gives the signal stored in the source
  gate and one stage more than its critical path.
\<close>

definition slot_signal :: "(nat \<Rightarrow> bool) \<Rightarrow> heap \<Rightarrow> in_info_t \<Rightarrow> bool" where
  "slot_signal sg h sl =
     (case in_ptr sl of
        BoolPtr b \<Rightarrow> sg b
      | GatePtr s \<Rightarrow> (case get_gate h s of Some hr \<Rightarrow> signal hr | None \<Rightarrow> False)
      | NULL \<Rightarrow> False)"

definition slot_delay :: "heap \<Rightarrow> in_info_t \<Rightarrow> int" where
  "slot_delay h sl =
     (case in_ptr sl of
        BoolPtr b \<Rightarrow> 1
      | GatePtr s \<Rightarrow> (case get_gate h s of Some hr \<Rightarrow> crit_path_len hr + 1 | None \<Rightarrow> 0)
      | NULL \<Rightarrow> 0)"

definition slot_ready :: "heap \<Rightarrow> nat \<Rightarrow> in_info_t \<Rightarrow> bool" where
  "slot_ready h g sl \<longleftrightarrow>
     (in_type sl = BOOLEAN_SIGNAL_INPUT \<and> (\<exists>b. in_ptr sl = BoolPtr b))
     \<or> (in_type sl = NAND_GATE_INPUT \<and> (\<exists>s. in_ptr sl = GatePtr s \<and> s \<noteq> g \<and> get_gate h s \<noteq> None))"

lemma evaluate_input_effect:
  assumes g: "get_gate h g = Some gr" and i: "i < input_count gr" "i < length (inputs gr)"
    and r: "slot_ready h g (inputs gr ! i)"
  shows "evaluate_input sg g i h =
     Some (set_gate h g (gr\<lparr>crit_path_len := max (crit_path_len gr) (slot_delay h (inputs gr ! i)),
                             signal := (signal gr \<and> slot_signal sg h (inputs gr ! i))\<rparr>))"
proof -
  have ia: "input_at gr i = Some (inputs gr ! i)" using i by simp
  have mx: "\<And>a b::int. (if a < b then b else a) = max a b" by (simp add: max_def)
  from r show ?thesis
    unfolding slot_ready_def
  proof (elim disjE conjE exE)
    fix b assume "in_type (inputs gr ! i) = BOOLEAN_SIGNAL_INPUT" "in_ptr (inputs gr ! i) = BoolPtr b"
    then show ?thesis
      using g ia by (simp add: evaluate_input_def slot_delay_def slot_signal_def mx)
  next
    fix s assume "in_type (inputs gr ! i) = NAND_GATE_INPUT" "in_ptr (inputs gr ! i) = GatePtr s"
      "s \<noteq> g" "get_gate h s \<noteq> None"
    then show ?thesis
      using g ia by (auto simp: evaluate_input_def slot_delay_def slot_signal_def mx)
  qed
qed

lemma slot_ready_upd:
  assumes "get_gate h g = Some gr" "slot_ready h g sl"
  shows "slot_ready (set_gate h g gr') g sl \<and> slot_delay (set_gate h g gr') sl = slot_delay h sl
         \<and> slot_signal sg (set_gate h g gr') sl = slot_signal sg h sl"
  using assms get_gate_valid[OF assms(1)]
  by (auto simp: slot_ready_def slot_delay_def slot_signal_def get_gate_set_gate)

lemma set_gate_twice [simp]: "set_gate (set_gate h a x) a y = set_gate h a y"
  by (simp add: set_gate_def)

lemma evaluate_inputs_effect:
  assumes "get_gate h g = Some gr" "length (inputs gr) = input_count gr"
    "\<forall>i \<in> set js. i < input_count gr \<and> slot_ready h g (inputs gr ! i)"
  shows "evaluate_inputs sg g js h =
     Some (set_gate h g
       (gr\<lparr>crit_path_len := foldl max (crit_path_len gr) (map (\<lambda>i. slot_delay h (inputs gr ! i)) js),
           signal := (signal gr \<and> list_all (\<lambda>i. slot_signal sg h (inputs gr ! i)) js)\<rparr>))"
  using assms
proof (induction js arbitrary: h gr)
  case Nil
  then have "h ! g = Some gr" by (simp add: get_gate_def split: if_splits)
  then have "h[g := Some gr] = h" by (metis list_update_id)
  then show ?case by (simp add: set_gate_def)
next
  case (Cons j js)
  let ?sl = "inputs gr ! j"
  let ?gr1 = "gr\<lparr>crit_path_len := max (crit_path_len gr) (slot_delay h ?sl),
                  signal := (signal gr \<and> slot_signal sg h ?sl)\<rparr>"
  let ?h1 = "set_gate h g ?gr1"
  from Cons.prems have j: "j < input_count gr" "j < length (inputs gr)" "slot_ready h g ?sl"
    by auto
  have e: "evaluate_input sg g j h = Some ?h1"
    by (rule evaluate_input_effect[OF Cons.prems(1) j])
  have v: "g < length h" using get_gate_valid[OF Cons.prems(1)] .
  have g1: "get_gate ?h1 g = Some ?gr1" using v by simp
  have l1: "length (inputs ?gr1) = input_count ?gr1" using Cons.prems(2) by simp
  have r1: "\<forall>i \<in> set js. i < input_count ?gr1 \<and> slot_ready ?h1 g (inputs ?gr1 ! i)"
    using Cons.prems(3) slot_ready_upd[OF Cons.prems(1)] by simp
  have d: "\<And>i. i \<in> set js \<Longrightarrow> slot_delay ?h1 (inputs gr ! i) = slot_delay h (inputs gr ! i)
      \<and> slot_signal sg ?h1 (inputs gr ! i) = slot_signal sg h (inputs gr ! i)"
    using Cons.prems(3) slot_ready_upd[OF Cons.prems(1)] by simp
  have m: "map (\<lambda>i. slot_delay ?h1 (inputs gr ! i)) js = map (\<lambda>i. slot_delay h (inputs gr ! i)) js"
    using d by simp
  have a: "list_all (\<lambda>i. slot_signal sg ?h1 (inputs gr ! i)) js
           = list_all (\<lambda>i. slot_signal sg h (inputs gr ! i)) js"
    using d by (simp add: list_all_iff)
  show ?case
    using e Cons.IH[OF g1 l1 r1] m a by (simp add: conj_assoc)
qed


lemma evaluate_gate_effect:
  assumes g: "get_gate h g = Some gr" and l: "length (inputs gr) = input_count gr"
    and r: "\<forall>i < input_count gr. slot_ready h g (inputs gr ! i)"
  shows "evaluate_gate sg g h =
     Some (set_gate h g
       (gr\<lparr>crit_path_len := foldl max 0 (map (slot_delay h) (inputs gr)),
           signal := (\<not> list_all (slot_signal sg h) (inputs gr))\<rparr>))"
proof -
  let ?gr0 = "gr\<lparr>crit_path_len := 0, signal := True\<rparr>"
  let ?h0 = "set_gate h g ?gr0"
  let ?js = "[0..<input_count gr]"
  have v: "g < length h" using get_gate_valid[OF g] .
  have g0: "get_gate ?h0 g = Some ?gr0" using v by simp
  have l0: "length (inputs ?gr0) = input_count ?gr0" using l by simp
  have r0: "\<forall>i \<in> set ?js. i < input_count ?gr0 \<and> slot_ready ?h0 g (inputs ?gr0 ! i)"
    using r slot_ready_upd[OF g] by simp
  note E = evaluate_inputs_effect[OF g0 l0 r0, of sg]
  have d: "\<And>i. i < input_count gr \<Longrightarrow> slot_delay ?h0 (inputs gr ! i) = slot_delay h (inputs gr ! i)
      \<and> slot_signal sg ?h0 (inputs gr ! i) = slot_signal sg h (inputs gr ! i)"
    using r slot_ready_upd[OF g] by simp
  have "map (\<lambda>i. slot_delay ?h0 (inputs gr ! i)) ?js = map (\<lambda>i. slot_delay h (inputs gr ! i)) ?js"
    using d by simp
  also have "\<dots> = map (slot_delay h) (map (\<lambda>i. inputs gr ! i) [0..<length (inputs gr)])"
    using l by simp
  also have "\<dots> = map (slot_delay h) (inputs gr)" by (simp only: map_nth)
  finally have m: "map (\<lambda>i. slot_delay ?h0 (inputs gr ! i)) ?js = map (slot_delay h) (inputs gr)" .
  have "list_all (\<lambda>i. slot_signal sg ?h0 (inputs gr ! i)) ?js
        = list_all (\<lambda>i. slot_signal sg h (inputs gr ! i)) ?js"
    using d by (simp add: list_all_iff)
  also have "\<dots> = list_all (slot_signal sg h) (map (\<lambda>i. inputs gr ! i) [0..<length (inputs gr)])"
    using l by (simp add: list_all_iff)
  also have "\<dots> = list_all (slot_signal sg h) (inputs gr)" by (simp only: map_nth)
  finally have a: "list_all (\<lambda>i. slot_signal sg ?h0 (inputs gr ! i)) ?js
        = list_all (slot_signal sg h) (inputs gr)" .
  let ?gr1 = "gr\<lparr>crit_path_len := foldl max 0 (map (slot_delay h) (inputs gr)),
                  signal := list_all (slot_signal sg h) (inputs gr)\<rparr>"
  from E m a have E': "evaluate_inputs sg g ?js ?h0 = Some (set_gate h g ?gr1)" by simp
  have g1: "get_gate (set_gate h g ?gr1) g = Some ?gr1" using v by simp
  show ?thesis
    unfolding evaluate_gate_def using g E' g1 by simp
qed

text \<open>
  A set \<open>D\<close> of gates is solved in a store when every gate of \<open>D\<close> draws its inputs from
  signals and from gates of \<open>D\<close>, and its stored signal and critical path are the ones
  its slots give.
\<close>

definition slot_closed :: "nat set \<Rightarrow> in_info_t \<Rightarrow> bool" where
  "slot_closed D sl \<longleftrightarrow>
     (in_type sl = BOOLEAN_SIGNAL_INPUT \<and> (\<exists>b. in_ptr sl = BoolPtr b))
     \<or> (in_type sl = NAND_GATE_INPUT \<and> (\<exists>s. in_ptr sl = GatePtr s \<and> s \<in> D))"

definition gate_solved :: "(nat \<Rightarrow> bool) \<Rightarrow> heap \<Rightarrow> nand_t \<Rightarrow> bool" where
  "gate_solved sg h gr \<longleftrightarrow>
     signal gr = (\<not> list_all (slot_signal sg h) (inputs gr))
     \<and> crit_path_len gr = foldl max 0 (map (slot_delay h) (inputs gr))"

definition solved :: "(nat \<Rightarrow> bool) \<Rightarrow> heap \<Rightarrow> nat set \<Rightarrow> bool" where
  "solved sg h D \<longleftrightarrow>
     (\<forall>d \<in> D. \<exists>gr. get_gate h d = Some gr \<and> length (inputs gr) = input_count gr
        \<and> (\<forall>sl \<in> set (inputs gr). slot_closed D sl) \<and> gate_solved sg h gr)"

text \<open>The order in which \<^verbatim>\<open>evaluate_sorted\<close> may take the gates, those of \<open>D\<close> being done.\<close>

fun eval_order :: "net \<Rightarrow> nat set \<Rightarrow> nat list \<Rightarrow> bool" where
  "eval_order N D [] = True"
| "eval_order N D (g # T) =
     (g \<notin> D
      \<and> (\<exists>n ins. N g = Some (n, ins)
           \<and> (\<forall>k < n. in_type (ins ! k) \<noteq> EMPTY_INPUT
                  \<and> (in_type (ins ! k) = NAND_GATE_INPUT \<longrightarrow>
                       (\<exists>s. in_ptr (ins ! k) = GatePtr s \<and> s \<in> D))))
      \<and> eval_order N (insert g D) T)"

lemma topo_ok_eval_order:
  "topo_ok N L \<Longrightarrow> eval_order N (set L) T \<Longrightarrow> eval_order N {} (rev L @ T)"
proof (induction L arbitrary: T)
  case Nil
  then show ?case by simp
next
  case (Cons a as)
  from Cons.prems have "eval_order N (set as) (a # T)" by auto
  from Cons.IH[OF _ this] Cons.prems(1) show ?case by simp
qed

lemma slot_closed_upd:
  assumes "slot_closed D sl" "g \<notin> D" "g < length h"
  shows "slot_delay (set_gate h g gr') sl = slot_delay h sl
         \<and> slot_signal sg (set_gate h g gr') sl = slot_signal sg h sl"
proof (cases "in_ptr sl")
  case (GatePtr s)
  with assms(1) have "s \<in> D" by (auto simp: slot_closed_def)
  with assms(2) have "s \<noteq> g" by auto
  with GatePtr assms(3) show ?thesis
    by (simp add: slot_delay_def slot_signal_def get_gate_set_gate)
qed (simp_all add: slot_delay_def slot_signal_def)

lemma slot_closed_mono: "slot_closed D sl \<Longrightarrow> D \<subseteq> D' \<Longrightarrow> slot_closed D' sl"
  by (auto simp: slot_closed_def)

lemma net_of_value_upd:
  assumes "get_gate h a = Some gr"
  shows "net_of (set_gate h a (gr\<lparr>crit_path_len := c, signal := s\<rparr>)) = net_of h"
    and "status_of (set_gate h a (gr\<lparr>crit_path_len := c, signal := s\<rparr>)) = status_of h"
  using assms get_gate_valid[OF assms]
  by (auto simp: net_of_def status_of_def fun_eq_iff get_gate_set_gate)

lemma gate_solved_cong:
  assumes "\<forall>sl \<in> set (inputs gr). slot_delay h' sl = slot_delay h sl
                                      \<and> slot_signal sg h' sl = slot_signal sg h sl"
  shows "gate_solved sg h' gr = gate_solved sg h gr"
proof -
  from assms have m: "map (slot_delay h') (inputs gr) = map (slot_delay h) (inputs gr)" by simp
  from assms have a: "list_all (slot_signal sg h') (inputs gr) = list_all (slot_signal sg h) (inputs gr)"
    by (simp add: list_all_iff)
  show ?thesis by (simp only: gate_solved_def m a)
qed

lemma evaluate_sorted_effect:
  assumes "eval_order (net_of h) D T" "net_ok (net_of h)" "solved sg h D"
  shows "\<exists>h'. evaluate_sorted sg T h = Some h' \<and> solved sg h' (D \<union> set T)
           \<and> net_of h' = net_of h \<and> status_of h' = status_of h
           \<and> (\<forall>a. a \<notin> set T \<longrightarrow> get_gate h' a = get_gate h a)"
  using assms
proof (induction T arbitrary: h D)
  case Nil
  then show ?case by simp
next
  case (Cons g T)
  from Cons.prems(1) obtain n ins where gD: "g \<notin> D" and N: "net_of h g = Some (n, ins)"
    and sl: "\<And>k. k < n \<Longrightarrow> in_type (ins ! k) \<noteq> EMPTY_INPUT
               \<and> (in_type (ins ! k) = NAND_GATE_INPUT \<longrightarrow> (\<exists>s. in_ptr (ins ! k) = GatePtr s \<and> s \<in> D))"
    and eo: "eval_order (net_of h) (insert g D) T"
    by auto
  from N obtain gr where g: "get_gate h g = Some gr" and n: "n = input_count gr" and ins: "ins = inputs gr"
    by (auto simp: net_of_Some)
  from Cons.prems(2) N have l: "length ins = n"
    and ty: "\<And>k. k < n \<Longrightarrow> in_type (ins ! k) = BOOLEAN_SIGNAL_INPUT \<Longrightarrow> \<exists>b. in_ptr (ins ! k) = BoolPtr b"
    unfolding net_ok_def by blast+
  have cl: "\<And>k. k < n \<Longrightarrow> slot_closed D (ins ! k)"
  proof -
    fix k assume k: "k < n"
    show "slot_closed D (ins ! k)"
      using sl[OF k] ty[OF k] unfolding slot_closed_def by (cases "in_type (ins ! k)") auto
  qed
  have Dv: "\<And>s. s \<in> D \<Longrightarrow> get_gate h s \<noteq> None" using Cons.prems(3) unfolding solved_def by auto
  have rd: "\<forall>i < input_count gr. slot_ready h g (inputs gr ! i)"
  proof (intro allI impI)
    fix i assume "i < input_count gr"
    with cl[of i] n ins have "slot_closed D (inputs gr ! i)" by simp
    then show "slot_ready h g (inputs gr ! i)"
      using gD Dv unfolding slot_closed_def slot_ready_def by auto
  qed
  let ?gr1 = "gr\<lparr>crit_path_len := foldl max 0 (map (slot_delay h) (inputs gr)),
                  signal := (\<not> list_all (slot_signal sg h) (inputs gr))\<rparr>"
  let ?h1 = "set_gate h g ?gr1"
  have l': "length (inputs gr) = input_count gr" using l n ins by simp
  have E: "evaluate_gate sg g h = Some ?h1" by (rule evaluate_gate_effect[OF g l' rd])
  have v: "g < length h" using get_gate_valid[OF g] .
  have N1: "net_of ?h1 = net_of h" and S1: "status_of ?h1 = status_of h"
    by (rule net_of_value_upd[OF g])+
  have cl': "\<forall>sl \<in> set (inputs gr). slot_closed D sl"
    using cl l n ins by (auto simp: in_set_conv_nth)
  have so1: "solved sg ?h1 (insert g D)"
    unfolding solved_def
  proof
    fix d assume d: "d \<in> insert g D"
    show "\<exists>gr. get_gate ?h1 d = Some gr \<and> length (inputs gr) = input_count gr
        \<and> (\<forall>sl \<in> set (inputs gr). slot_closed (insert g D) sl) \<and> gate_solved sg ?h1 gr"
    proof (cases "d = g")
      case True
      have a: "get_gate ?h1 d = Some ?gr1" using True v by simp
      have b: "\<forall>sl \<in> set (inputs ?gr1). slot_closed (insert g D) sl"
        using cl' by (auto intro: slot_closed_mono)
      have "gate_solved sg ?h1 ?gr1 = gate_solved sg h ?gr1"
        by (rule gate_solved_cong) (use cl' slot_closed_upd[OF _ gD v] in simp)
      moreover have "gate_solved sg h ?gr1" by (simp add: gate_solved_def)
      ultimately show ?thesis using a b l' by simp
    next
      case False
      with d have dD: "d \<in> D" by simp
      with Cons.prems(3) obtain dr where dr: "get_gate h d = Some dr"
        "length (inputs dr) = input_count dr" "\<forall>sl \<in> set (inputs dr). slot_closed D sl"
        "gate_solved sg h dr"
        unfolding solved_def by blast
      have a: "get_gate ?h1 d = Some dr" using False v dr(1) by (simp add: get_gate_set_gate)
      have b: "\<forall>sl \<in> set (inputs dr). slot_closed (insert g D) sl"
        using dr(3) by (auto intro: slot_closed_mono)
      have "gate_solved sg ?h1 dr = gate_solved sg h dr"
        by (rule gate_solved_cong) (use dr(3) slot_closed_upd[OF _ gD v] in simp)
      with dr(4) a b dr(2) show ?thesis by simp
    qed
  qed
  have eo1: "eval_order (net_of ?h1) (insert g D) T" using eo N1 by simp
  have nok1: "net_ok (net_of ?h1)" using Cons.prems(2) N1 by simp
  from Cons.IH[OF eo1 nok1 so1] obtain h' where
    r: "evaluate_sorted sg T ?h1 = Some h'" "solved sg h' (insert g D \<union> set T)"
       "net_of h' = net_of ?h1" "status_of h' = status_of ?h1"
       "\<forall>a. a \<notin> set T \<longrightarrow> get_gate h' a = get_gate ?h1 a"
    by blast
  have "\<forall>a. a \<notin> set (g # T) \<longrightarrow> get_gate h' a = get_gate h a"
    using r(5) v by (simp add: get_gate_set_gate)
  with r E N1 S1 show ?case by simp
qed


definition signal_of :: "heap \<Rightarrow> nat \<Rightarrow> bool" where
  "signal_of h a = (case get_gate h a of Some g \<Rightarrow> signal g | None \<Rightarrow> False)"

definition crit_of :: "heap \<Rightarrow> nat \<Rightarrow> int" where
  "crit_of h a = (case get_gate h a of Some g \<Rightarrow> crit_path_len g | None \<Rightarrow> 0)"

lemma collect_results_effect:
  assumes "\<forall>g \<in> set gs. get_gate h g \<noteq> None"
  shows "collect_results h gs l = Some (map (signal_of h) gs, foldl max l (map (crit_of h) gs))"
  using assms
proof (induction gs arbitrary: l)
  case Nil
  then show ?case by simp
next
  case (Cons g gs)
  from Cons.prems obtain gr where g: "get_gate h g = Some gr" by auto
  have mx: "\<And>a b::int. (if a < b then b else a) = max a b" by (simp add: max_def)
  from Cons.prems have "\<forall>g \<in> set gs. get_gate h g \<noteq> None" by simp
  from Cons.IH[OF this] g show ?case by (simp add: signal_of_def crit_of_def mx)
qed

lemma unvisited_status_of: "unvisited h \<longleftrightarrow> (\<forall>a s. status_of h a = Some s \<longrightarrow> s = NOT_VISITED)"
  by (auto simp: unvisited_iff status_of_Some)

lemma slot_values_eq:
  assumes "slot_closed D sl" 
    and "\<And>s. s \<in> D \<Longrightarrow> in_ptr sl = GatePtr s \<Longrightarrow>
            get_gate h1 s \<noteq> None \<and> get_gate h2 s \<noteq> None
            \<and> signal_of h1 s = signal_of h2 s \<and> crit_of h1 s = crit_of h2 s"
  shows "slot_signal sg h1 sl = slot_signal sg h2 sl \<and> slot_delay h1 sl = slot_delay h2 sl"
proof (cases "in_ptr sl")
  case (GatePtr s)
  with assms(1) have "s \<in> D" by (auto simp: slot_closed_def)
  from assms(2)[OF this GatePtr] GatePtr show ?thesis
    by (auto simp: slot_signal_def slot_delay_def signal_of_def crit_of_def)
qed (simp_all add: slot_signal_def slot_delay_def)

lemma solved_unique:
  assumes "topo_ok (net_of h1) L" "net_of h2 = net_of h1" "solved sg h1 D1" "solved sg h2 D2"
  shows "\<forall>a \<in> set L \<inter> D1 \<inter> D2. signal_of h1 a = signal_of h2 a \<and> crit_of h1 a = crit_of h2 a"
  using assms(1)
proof (induction L)
  case Nil
  then show ?case by simp
next
  case (Cons a as)
  from Cons.prems have tas: "topo_ok (net_of h1) as" by simp
  note IH = Cons.IH[OF tas]
  show ?case
  proof
    fix x assume x: "x \<in> set (a # as) \<inter> D1 \<inter> D2"
    show "signal_of h1 x = signal_of h2 x \<and> crit_of h1 x = crit_of h2 x"
    proof (cases "x \<in> set as")
      case True
      with x IH show ?thesis by blast
    next
      case False
      with x have xa: "x = a" and a1: "a \<in> D1" and a2: "a \<in> D2" by auto
      from assms(3) a1 obtain g1 where g1: "get_gate h1 a = Some g1"
        "length (inputs g1) = input_count g1" "\<forall>sl \<in> set (inputs g1). slot_closed D1 sl"
        "gate_solved sg h1 g1"
        unfolding solved_def by blast
      from assms(4) a2 obtain g2 where g2: "get_gate h2 a = Some g2"
        "length (inputs g2) = input_count g2" "\<forall>sl \<in> set (inputs g2). slot_closed D2 sl"
        "gate_solved sg h2 g2"
        unfolding solved_def by blast
      from g1(1) have "net_of h1 a = Some (input_count g1, inputs g1)" by (simp add: net_of_def)
      moreover from g2(1) have "net_of h2 a = Some (input_count g2, inputs g2)" by (simp add: net_of_def)
      ultimately have ie: "inputs g2 = inputs g1" using assms(2) by simp
      from Cons.prems g1(1) have src: "\<And>k. k < input_count g1 \<Longrightarrow>
          in_type (inputs g1 ! k) = NAND_GATE_INPUT \<Longrightarrow>
          (\<exists>s. in_ptr (inputs g1 ! k) = GatePtr s \<and> s \<in> set as)"
        by (auto simp: net_of_def)
      have eq: "\<forall>sl \<in> set (inputs g1). slot_signal sg h1 sl = slot_signal sg h2 sl
                                        \<and> slot_delay h1 sl = slot_delay h2 sl"
      proof
        fix sl assume m: "sl \<in> set (inputs g1)"
        then obtain k where k: "k < input_count g1" "sl = inputs g1 ! k"
          using g1(2) by (auto simp: in_set_conv_nth)
        from m g1(3) have c1: "slot_closed D1 sl" by simp
        from m g2(3) ie have c2: "slot_closed D2 sl" by simp
        show "slot_signal sg h1 sl = slot_signal sg h2 sl \<and> slot_delay h1 sl = slot_delay h2 sl"
        proof (rule slot_values_eq[OF c1])
          fix s assume s: "s \<in> D1" "in_ptr sl = GatePtr s"
          with c2 have s2: "s \<in> D2" by (auto simp: slot_closed_def)
          from s c1 have "in_type sl = NAND_GATE_INPUT" by (auto simp: slot_closed_def)
          with src[OF k(1)] k(2) s(2) have "s \<in> set as" by auto
          with s(1) s2 IH have e: "signal_of h1 s = signal_of h2 s \<and> crit_of h1 s = crit_of h2 s"
            by blast
          from assms(3) s(1) have "get_gate h1 s \<noteq> None" unfolding solved_def by auto
          moreover from assms(4) s2 have "get_gate h2 s \<noteq> None" unfolding solved_def by auto
          ultimately show "get_gate h1 s \<noteq> None \<and> get_gate h2 s \<noteq> None
            \<and> signal_of h1 s = signal_of h2 s \<and> crit_of h1 s = crit_of h2 s"
            using e by simp
        qed
      qed
      from eq have m: "map (slot_delay h1) (inputs g1) = map (slot_delay h2) (inputs g1)" by simp
      from eq have l: "list_all (slot_signal sg h1) (inputs g1) = list_all (slot_signal sg h2) (inputs g1)"
        by (simp add: list_all_iff)
      from g1(4) g2(4) have "signal g1 = signal g2 \<and> crit_path_len g1 = crit_path_len g2"
        unfolding gate_solved_def ie m l by simp
      with g1(1) g2(1) xa show ?thesis by (simp add: signal_of_def crit_of_def)
    qed
  qed
qed


text \<open>
  The gates that a call of \<^verbatim>\<open>nand_evaluate_all\<close> evaluates, in the order in which
  \<^verbatim>\<open>evaluate_sorted\<close> takes them: the list that its call of \<^verbatim>\<open>topo_sort\<close> returns.
\<close>

definition evaluation_order :: "world \<Rightarrow> nat list \<Rightarrow> nat list" where
  "evaluation_order w gs = snd (snd (topo_sort (w\<lparr>alloc := tl (alloc w)\<rparr>) gs []))"

lemma nand_evaluate_all_sound:
  assumes nok: "net_ok (net_of (heap w))" and u: "unvisited (heap w)"
    and v: "\<forall>g \<in> set gs. get_gate (heap w) g \<noteq> None"
    and res: "nand_evaluate_all w sg gs = (r, w')"
  shows "r \<noteq> Undef \<and> r \<noteq> Errno EINVAL \<and> unvisited (heap w') \<and> net_of (heap w') = net_of (heap w)
         \<and> (\<forall>e. r = Errno e \<longrightarrow> heap w' = heap w)
         \<and> (\<forall>x. r = Done x \<longrightarrow>
               topo_ok (net_of (heap w)) (rev (evaluation_order w gs))
               \<and> set gs \<subseteq> set (evaluation_order w gs)
               \<and> solved sg (heap w') (set (evaluation_order w gs))
               \<and> (\<forall>a. a \<notin> set (evaluation_order w gs) \<longrightarrow> get_gate (heap w') a = get_gate (heap w) a)
               \<and> x = (map (signal_of (heap w')) gs, foldl max 0 (map (crit_of (heap w')) gs)))
         \<and> (never_fails (alloc w) \<longrightarrow> never_fails (alloc w') \<and> r \<noteq> Errno ENOMEM)"
proof (cases "alloc_ok (alloc w)")
  case False
  then have nf: "\<not> never_fails (alloc w)" by auto
  from False res have "r = Errno ENOMEM" "heap w' = heap w"
    by (auto simp: nand_evaluate_all_def)
  with nf u show ?thesis by simp
next
  case True
  let ?w0 = "w\<lparr>alloc := tl (alloc w)\<rparr>"
  obtain r1 w1 T where t: "topo_sort ?w0 gs [] = (r1, w1, T)" by (cases "topo_sort ?w0 gs []") auto
  have T: "evaluation_order w gs = T" by (simp add: evaluation_order_def t)
  have nok0: "net_ok (net_of (heap ?w0))" and u0: "unvisited (heap ?w0)"
    and v0: "\<forall>g \<in> set gs. get_gate (heap ?w0) g \<noteq> None"
    using nok u v by simp_all
  note S = topo_sort_inv[OF nok0 u0 v0 t]
  from S have h1: "heap w1 = heap w" by simp
  have nf: "never_fails (alloc w) \<Longrightarrow> never_fails (alloc w1) \<and> r1 \<noteq> Errno ENOMEM"
    using S by simp
  show ?thesis
  proof (cases r1)
    case Undef
    with S show ?thesis by simp
  next
    case (Errno e)
    with True t res have "r = Errno e" "w' = w1" by (simp_all add: nand_evaluate_all_def)
    with S Errno h1 u nf show ?thesis by auto
  next
    case (Done x1)
    with S have to: "topo_ok (net_of (heap w)) (rev T)" and sub: "set gs \<subseteq> set T" by simp_all
    from topo_ok_eval_order[OF to, of "[]"] have eo: "eval_order (net_of (heap w1)) {} T"
      using h1 by simp
    have so: "solved sg (heap w1) {}" by (simp add: solved_def)
    from nok h1 have nok1: "net_ok (net_of (heap w1))" by simp
    from evaluate_sorted_effect[OF eo nok1 so] obtain h' where
      E: "evaluate_sorted sg T (heap w1) = Some h'" "solved sg h' (set T)"
         "net_of h' = net_of (heap w1)" "status_of h' = status_of (heap w1)"
         "\<forall>a. a \<notin> set T \<longrightarrow> get_gate h' a = get_gate (heap w1) a"
      by auto
    from E(2) sub have vg: "\<forall>g \<in> set gs. get_gate h' g \<noteq> None" unfolding solved_def by auto
    note C = collect_results_effect[OF vg, of 0]
    from True t Done E(1) C res
    have r: "r = Done (map (signal_of h') gs, foldl max 0 (map (crit_of h') gs))"
      and w': "w' = w1\<lparr>heap := h'\<rparr>"
      by (simp_all add: nand_evaluate_all_def)
    have uv: "unvisited h'" using u E(4) h1 by (simp add: unvisited_status_of)
    from r w' uv E h1 to sub T nf Done show ?thesis by simp
  qed
qed


section \<open>When the traversal gives up\<close>

text \<open>
  \<open>src N a s\<close>: gate \<open>s\<close> drives a slot of gate \<open>a\<close>.  \<open>has_empty N a\<close>: gate \<open>a\<close> has an
  empty slot.
\<close>

definition src :: "net \<Rightarrow> nat \<Rightarrow> nat \<Rightarrow> bool" where
  "src N a s \<longleftrightarrow>
     (\<exists>n ins k. N a = Some (n, ins) \<and> k < n \<and> in_type (ins ! k) = NAND_GATE_INPUT
        \<and> in_ptr (ins ! k) = GatePtr s)"

definition has_empty :: "net \<Rightarrow> nat \<Rightarrow> bool" where
  "has_empty N a \<longleftrightarrow>
     (\<exists>n ins k. N a = Some (n, ins) \<and> k < n \<and> in_type (ins ! k) = EMPTY_INPUT)"

lemma process_node_shape:
  assumes I: "state_inv st" and stk: "stack st = f # rest" and pn: "process_node st = (r, st')"
  shows "(r = Done () \<longrightarrow>
            map dfs_gate (stack st') = map dfs_gate rest
            \<or> map dfs_gate (stack st') = map dfs_gate (f # rest)
            \<or> (\<exists>s. src (net_of (st_heap st)) (dfs_gate f) s
                  \<and> map dfs_gate (stack st') = s # map dfs_gate (f # rest)))
         \<and> (r = Errno ECANCELED \<longrightarrow>
              has_empty (net_of (st_heap st)) (dfs_gate f)
              \<or> (\<exists>s. src (net_of (st_heap st)) (dfs_gate f) s \<and> s \<in> dfs_gate ` set (f # rest)))"
proof -
  let ?h = "st_heap st"
  let ?N = "net_of ?h"
  let ?S = "status_of ?h"
  let ?g = "dfs_gate f"
  let ?k = "dfs_ind f"
  from I stk have NO: "net_ok ?N"
    and DI: "dfs_inv ?N ?S (f # rest) (topo_order st) (all_gates st)"
    by (simp_all add: state_inv_def)
  from DI have fr: "frame_ok ?N ?S None f"
    and cp: "\<And>a. ?S a = Some CURRENTLY_PROCESSING \<longleftrightarrow> a \<in> dfs_gate ` set (f # rest)"
    unfolding dfs_inv_def by auto
  from fr obtain gr where gr: "get_gate ?h ?g = Some gr" and kle: "?k \<le> input_count gr"
    unfolding frame_ok_def net_of_Some by auto
  have Ng: "?N ?g = Some (input_count gr, inputs gr)" using gr by (simp add: net_of_Some)
  from NO Ng have len: "length (inputs gr) = input_count gr"
    unfolding net_ok_def by blast
  show ?thesis
  proof (cases "?k = input_count gr")
    case True
    from pn process_node_finish[OF stk gr True]
    have "r \<noteq> Errno ECANCELED" "r = Done () \<longrightarrow> stack st' = rest"
      by (auto split: if_splits)
    then show ?thesis by simp
  next
    case False
    with kle have k: "?k < input_count gr" by simp
    with len have kl: "?k < length (inputs gr)" by simp
    note step = process_node_step[OF stk gr k kl]
    show ?thesis
    proof (cases "alloc_ok (st_alloc st)")
      case False
      with pn step have r: "r = Errno ENOMEM" by simp
      then show ?thesis by simp
    next
      case al: True
      let ?f' = "f\<lparr>dfs_ind := ?k + 1\<rparr>"
      let ?st1 = "st\<lparr>st_alloc := tl (st_alloc st), stack := ?f' # rest\<rparr>"
      let ?sl = "inputs gr ! ?k"
      from pn step al have pi: "process_input ?sl ?st1 = (r, st')" by simp
      consider (empty) "in_type ?sl = EMPTY_INPUT" | (bool) "in_type ?sl = BOOLEAN_SIGNAL_INPUT"
        | (gate) "in_type ?sl = NAND_GATE_INPUT"
        by (cases "in_type ?sl") auto
      then show ?thesis
      proof cases
        case empty
        with pi have r: "r = Errno ECANCELED" by (simp add: process_input_cases)
        have "has_empty ?N ?g" unfolding has_empty_def using Ng k empty by blast
        with r show ?thesis by simp
      next
        case bool
        with pi have r: "r = Done ()" and st': "st' = ?st1"
          by (simp_all add: process_input_cases)
        show ?thesis unfolding r st' by simp
      next
        case gate
        from NO Ng k gate obtain s where pt: "in_ptr ?sl = GatePtr s" and "?N s \<noteq> None"
          unfolding net_ok_def by blast
        then obtain sr where sr: "get_gate ?h s = Some sr" by (auto simp: net_of_def)
        have sc: "src ?N ?g s" unfolding src_def using Ng k gate pt by blast
        from pi gate pt have pin: "process_input_nand s ?st1 = (r, st')"
          by (simp add: process_input_cases)
        have sr1: "get_gate (st_heap ?st1) s = Some sr" using sr by simp
        show ?thesis
        proof (cases "status sr = NOT_VISITED")
          case False
          note old = process_input_nand_old[OF sr1 False]
          show ?thesis
          proof (cases "status sr = CURRENTLY_PROCESSING")
            case True
            with pin old have r: "r = Errno ECANCELED" by simp
            from True sr have "?S s = Some CURRENTLY_PROCESSING" by (simp add: status_of_Some)
            then have "s \<in> dfs_gate ` set (f # rest)" by (simp only: cp)
            with sc r show ?thesis by blast
          next
            case nc: False
            with pin old have r: "r = Done ()" and st': "st' = ?st1" by simp_all
            show ?thesis unfolding r st' by simp
          qed
        next
          case nv: True
          note new = process_input_nand_new[OF sr1 nv]
          from pin new have "r \<noteq> Errno ECANCELED"
            and "r = Done () \<longrightarrow> stack st' = \<lparr>dfs_gate = s, dfs_ind = 0\<rparr> # ?f' # rest"
            by (auto split: if_splits)
          with sc show ?thesis by auto
        qed
      qed
    qed
  qed
qed

text \<open>
  No order of evaluation \<open>L\<close> holds a gate that depends on itself or a gate with an
  empty slot, and it holds the sources of its gates.
\<close>

lemma topo_ok_src: "topo_ok N L \<Longrightarrow> a \<in> set L \<Longrightarrow> src N a s \<Longrightarrow> s \<in> set L"
proof (induction L)
  case Nil
  then show ?case by simp
next
  case (Cons b bs)
  show ?case
  proof (cases "a = b")
    case True
    with Cons.prems show ?thesis unfolding src_def by fastforce
  next
    case False
    with Cons show ?thesis by simp
  qed
qed

lemma topo_ok_no_empty: "topo_ok N L \<Longrightarrow> a \<in> set L \<Longrightarrow> \<not> has_empty N a"
proof (induction L)
  case Nil
  then show ?case by simp
next
  case (Cons b bs)
  show ?case
  proof (cases "a = b")
    case True
    with Cons.prems show ?thesis unfolding has_empty_def by fastforce
  next
    case False
    with Cons show ?thesis by simp
  qed
qed

lemma topo_ok_head_src: "topo_ok N (a # as) \<Longrightarrow> src N a s \<Longrightarrow> s \<in> set as"
  unfolding src_def by fastforce

lemma topo_ok_below:
  assumes "(src N)\<^sup>+\<^sup>+ a s" "topo_ok N (a # as)"
  shows "s \<in> set as"
  using assms
proof (induction rule: tranclp_induct)
  case (base y)
  then show ?case by (rule topo_ok_head_src[rotated])
next
  case (step y z)
  from step.prems have "topo_ok N as" by simp
  from topo_ok_src[OF this step.IH[OF step.prems] step.hyps(2)] show ?case .
qed

lemma topo_ok_acyclic: "topo_ok N L \<Longrightarrow> a \<in> set L \<Longrightarrow> \<not> (src N)\<^sup>+\<^sup>+ a a"
proof (induction L)
  case Nil
  then show ?case by simp
next
  case (Cons b bs)
  show ?case
  proof (cases "a = b")
    case True
    show ?thesis
    proof
      assume "(src N)\<^sup>+\<^sup>+ a a"
      from topo_ok_below[OF this] Cons.prems(1) True have "a \<in> set bs" by simp
      with Cons.prems(1) True show False by simp
    qed
  next
    case False
    with Cons show ?thesis by simp
  qed
qed

text \<open>The gates of the stack, top first, form a chain of sources.\<close>

fun chain :: "net \<Rightarrow> nat list \<Rightarrow> bool" where
  "chain N (u # f # rest) = (src N f u \<and> chain N (f # rest))"
| "chain N _ = True"

lemma chain_reach: "chain N (t # rest) \<Longrightarrow> s \<in> set (t # rest) \<Longrightarrow> (src N)\<^sup>*\<^sup>* s t"
proof (induction rest arbitrary: t)
  case Nil
  then show ?case by simp
next
  case (Cons f rest)
  show ?case
  proof (cases "s = t")
    case True
    then show ?thesis by simp
  next
    case False
    with Cons.prems have "s \<in> set (f # rest)" "chain N (f # rest)" "src N f t" by simp_all
    from Cons.IH[OF this(2) this(1)] this(3) show ?thesis by simp
  qed
qed

text \<open>
  \<open>reach N R a\<close>: gate \<open>a\<close> is in the dependency closure of the gates \<open>R\<close>.  The closure
  is \<open>blocked\<close> when one of its gates has an empty slot or depends on itself.
\<close>

definition reach :: "net \<Rightarrow> nat set \<Rightarrow> nat \<Rightarrow> bool" where
  "reach N R a \<longleftrightarrow> (\<exists>g \<in> R. (src N)\<^sup>*\<^sup>* g a)"

definition blocked :: "net \<Rightarrow> nat set \<Rightarrow> bool" where
  "blocked N R \<longleftrightarrow> (\<exists>a. reach N R a \<and> (has_empty N a \<or> (src N)\<^sup>+\<^sup>+ a a))"

definition path_inv :: "net \<Rightarrow> nat set \<Rightarrow> nat list \<Rightarrow> bool" where
  "path_inv N R gs \<longleftrightarrow> chain N gs \<and> (\<forall>a \<in> set gs. reach N R a)"

lemma reach_src: "reach N R a \<Longrightarrow> src N a s \<Longrightarrow> reach N R s"
  unfolding reach_def by (meson rtranclp.rtrancl_into_rtrancl)

lemma reach_topo_ok:
  assumes "topo_ok N L" "R \<subseteq> set L" "reach N R a"
  shows "a \<in> set L"
proof -
  from assms(3) obtain g where g: "g \<in> R" "(src N)\<^sup>*\<^sup>* g a" unfolding reach_def by blast
  from g(2) show ?thesis
  proof (induction rule: rtranclp_induct)
    case base
    with g(1) assms(2) show ?case by auto
  next
    case (step y z)
    from topo_ok_src[OF assms(1) step.IH step.hyps(2)] show ?case .
  qed
qed

lemma blocked_no_order:
  assumes "blocked N R"
  shows "\<not> (\<exists>L. topo_ok N L \<and> R \<subseteq> set L)"
proof
  assume "\<exists>L. topo_ok N L \<and> R \<subseteq> set L"
  then obtain L where L: "topo_ok N L" "R \<subseteq> set L" by blast
  from assms obtain a where a: "reach N R a" "has_empty N a \<or> (src N)\<^sup>+\<^sup>+ a a"
    unfolding blocked_def by blast
  from reach_topo_ok[OF L a(1)] have "a \<in> set L" .
  with a(2) topo_ok_no_empty[OF L(1)] topo_ok_acyclic[OF L(1)] show False by blast
qed

lemma path_inv_tl: "path_inv N R (a # as) \<Longrightarrow> path_inv N R as"
  unfolding path_inv_def by (cases as) auto

lemma path_inv_push: "path_inv N R (a # as) \<Longrightarrow> src N a s \<Longrightarrow> path_inv N R (s # a # as)"
  unfolding path_inv_def using reach_src by auto

lemma path_inv_empty: "path_inv N R (a # as) \<Longrightarrow> has_empty N a \<Longrightarrow> blocked N R"
  unfolding path_inv_def blocked_def by auto

lemma path_inv_cycle:
  assumes "path_inv N R (a # as)" "src N a s" "s \<in> set (a # as)"
  shows "blocked N R"
proof -
  from assms(1) have c: "chain N (a # as)" and f: "reach N R a" unfolding path_inv_def by auto
  from chain_reach[OF c assms(3)] assms(2) have "(src N)\<^sup>+\<^sup>+ a a" by simp
  with f show ?thesis unfolding blocked_def by blast
qed


lemma process_node_path:
  assumes I: "state_inv st" and ne: "stack st \<noteq> []"
    and P: "path_inv (net_of (st_heap st)) R (map dfs_gate (stack st))"
    and pn: "process_node st = (r, st')"
  shows "(r = Done () \<longrightarrow> path_inv (net_of (st_heap st)) R (map dfs_gate (stack st')))
         \<and> (r = Errno ECANCELED \<longrightarrow> blocked (net_of (st_heap st)) R)"
proof -
  let ?N = "net_of (st_heap st)"
  from ne obtain f rest where stk: "stack st = f # rest" by (cases "stack st") auto
  from P stk have P': "path_inv ?N R (dfs_gate f # map dfs_gate rest)" by simp
  note S = process_node_shape[OF I stk pn]
  have a: "path_inv ?N R (map dfs_gate (stack st'))" if d: "r = Done ()"
  proof -
    from S have "r = Done () \<longrightarrow>
            map dfs_gate (stack st') = map dfs_gate rest
            \<or> map dfs_gate (stack st') = map dfs_gate (f # rest)
            \<or> (\<exists>s. src ?N (dfs_gate f) s
                  \<and> map dfs_gate (stack st') = s # map dfs_gate (f # rest))" by (rule conjunct1)
    from this d have "map dfs_gate (stack st') = map dfs_gate rest
            \<or> map dfs_gate (stack st') = map dfs_gate (f # rest)
            \<or> (\<exists>s. src ?N (dfs_gate f) s
                  \<and> map dfs_gate (stack st') = s # map dfs_gate (f # rest))" by (rule mp)
    then show ?thesis
    proof (elim disjE exE conjE)
      assume "map dfs_gate (stack st') = map dfs_gate rest"
      with path_inv_tl[OF P'] show ?thesis by simp
    next
      assume "map dfs_gate (stack st') = map dfs_gate (f # rest)"
      with P' show ?thesis by simp
    next
      fix s assume s: "src ?N (dfs_gate f) s" "map dfs_gate (stack st') = s # map dfs_gate (f # rest)"
      from path_inv_push[OF P' s(1)] s(2) show ?thesis by simp
    qed
  qed
  have b: "blocked ?N R" if c: "r = Errno ECANCELED"
  proof -
    from S have "r = Errno ECANCELED \<longrightarrow>
              has_empty ?N (dfs_gate f)
              \<or> (\<exists>s. src ?N (dfs_gate f) s \<and> s \<in> dfs_gate ` set (f # rest))" by (rule conjunct2)
    from this c have "has_empty ?N (dfs_gate f)
              \<or> (\<exists>s. src ?N (dfs_gate f) s \<and> s \<in> dfs_gate ` set (f # rest))" by (rule mp)
    then show ?thesis
    proof (elim disjE exE conjE)
      assume e: "has_empty ?N (dfs_gate f)"
      show ?thesis by (rule path_inv_empty[OF P' e])
    next
      fix s assume s: "src ?N (dfs_gate f) s" "s \<in> dfs_gate ` set (f # rest)"
      from s(2) have m: "s \<in> set (dfs_gate f # map dfs_gate rest)" by auto
      show ?thesis by (rule path_inv_cycle[OF P' s(1) m])
    qed
  qed
  from a b show ?thesis by simp
qed

lemma dfs_loop_path:
  assumes "state_inv st" "path_inv (net_of (st_heap st)) R (map dfs_gate (stack st))"
    "dfs_loop st = (Errno ECANCELED, st')"
  shows "blocked (net_of (st_heap st)) R"
  using assms
proof (induction st arbitrary: st' rule: dfs_loop.induct)
  case (1 st)
  show ?case
  proof (cases "0 < length (stack st)")
    case False
    with "1.prems"(3) show ?thesis by (simp add: dfs_loop.simps[of st])
  next
    case True
    then have ne: "stack st \<noteq> []" by auto
    obtain r1 st1 where pn: "process_node st = (r1, st1)" by (cases "process_node st")
    note PI = process_node_inv[OF "1.prems"(1) ne pn]
    note PP = process_node_path[OF "1.prems"(1) ne "1.prems"(2) pn]
    show ?thesis
    proof (cases "r1 = Done ()")
      case False
      then have "\<And>u. r1 \<noteq> Done u" by simp
      with True pn "1.prems"(3) have "r1 = Errno ECANCELED"
        by (simp add: dfs_loop.simps[of st] split: result.splits)
      with PP show ?thesis by simp
    next
      case d: True
      with True pn "1.prems"(3) have loop: "dfs_loop st1 = (Errno ECANCELED, st')"
        by (simp add: dfs_loop.simps[of st])
      from PI d have I1: "state_inv st1" by simp
      from PI have "erase_status (st_heap st1) = erase_status (st_heap st)" by simp
      from erase_status_eq_net[OF this] have N: "net_of (st_heap st1) = net_of (st_heap st)" .
      from PP d N have P1: "path_inv (net_of (st_heap st1)) R (map dfs_gate (stack st1))" by simp
      from "1.IH"[OF True pn[symmetric] d I1 P1 loop] N show ?thesis by simp
    qed
  qed
qed

lemma topo_sort_dfs_path:
  assumes I: "state_inv st" and e: "stack st = []" and g: "get_gate (st_heap st) g = Some gr"
    and nv: "status gr \<noteq> VISITED" and R: "g \<in> R"
    and res: "topo_sort_dfs g st = (Errno ECANCELED, st')"
  shows "blocked (net_of (st_heap st)) R"
proof -
  let ?N = "net_of (st_heap st)" and ?S = "status_of (st_heap st)"
  from I have nok: "net_ok ?N" and D: "dfs_inv ?N ?S (stack st) (topo_order st) (all_gates st)"
    unfolding state_inv_def by auto
  from D e have cp: "\<And>a. ?S a \<noteq> Some CURRENTLY_PROCESSING" unfolding dfs_inv_def by auto
  from cp[of g] g nv have s: "?S g = Some NOT_VISITED"
    by (cases "status gr") (auto simp: status_of_def)
  from g have Ng: "?N g = Some (input_count gr, inputs gr)" by (simp add: net_of_def)
  let ?st0 = "st\<lparr>st_heap := set_gate (st_heap st) g (gr\<lparr>status := CURRENTLY_PROCESSING\<rparr>),
                        st_alloc := tl (tl (st_alloc st)),
                        stack := \<lparr>dfs_gate = g, dfs_ind = 0\<rparr> # stack st,
                        all_gates := g # all_gates st\<rparr>"
  have al: "alloc_ok (st_alloc st)"
  proof (rule ccontr)
    assume "\<not> alloc_ok (st_alloc st)"
    with res topo_sort_dfs_cases[OF g] show False by simp
  qed
  have al2: "alloc_ok (tl (st_alloc st))"
  proof (rule ccontr)
    assume "\<not> alloc_ok (tl (st_alloc st))"
    with al res topo_sort_dfs_cases[OF g] show False by simp
  qed
  from al al2 res topo_sort_dfs_cases[OF g] have loop: "dfs_loop ?st0 = (Errno ECANCELED, st')"
    by simp
  from D e have D0: "dfs_inv ?N ?S [] (topo_order st) (all_gates st)" by simp
  have I0: "state_inv ?st0"
    unfolding state_inv_def
    using nok dfs_inv_start[OF D0 s Ng] e
    by (simp add: net_of_status_upd[OF g] status_of_status_upd[OF g])
  have N0: "net_of (st_heap ?st0) = ?N" by (simp add: net_of_status_upd[OF g])
  have "path_inv ?N R [g]" unfolding path_inv_def reach_def using R by auto
  with N0 e have P0: "path_inv (net_of (st_heap ?st0)) R (map dfs_gate (stack ?st0))" by simp
  from dfs_loop_path[OF I0 P0 loop] N0 show ?thesis by simp
qed

lemma topo_sort_for_path:
  assumes "state_inv st" "stack st = []" "\<forall>g \<in> set gs. get_gate (st_heap st) g \<noteq> None"
    "set gs \<subseteq> R" "topo_sort_for gs st = (Errno ECANCELED, st')"
  shows "blocked (net_of (st_heap st)) R"
  using assms
proof (induction gs arbitrary: st st')
  case Nil
  then show ?case by simp
next
  case (Cons g gs)
  from Cons.prems(3) obtain gr where g: "get_gate (st_heap st) g = Some gr" by auto
  from Cons.prems(3) have v: "\<forall>g \<in> set gs. get_gate (st_heap st) g \<noteq> None" by simp
  from Cons.prems(4) have R: "set gs \<subseteq> R" "g \<in> R" by simp_all
  show ?case
  proof (cases "status gr = VISITED")
    case True
    with g Cons.prems(5) have rec: "topo_sort_for gs st = (Errno ECANCELED, st')" by simp
    from Cons.IH[OF Cons.prems(1) Cons.prems(2) v R(1) rec] show ?thesis .
  next
    case False
    obtain r1 st1 where d: "topo_sort_dfs g st = (r1, st1)" by (cases "topo_sort_dfs g st")
    note D = topo_sort_dfs_inv[OF Cons.prems(1) Cons.prems(2) g False d]
    show ?thesis
    proof (cases "r1 = Done ()")
      case ne: False
      with g False d Cons.prems(5) have "r1 = Errno ECANCELED" "st' = st1"
        by (auto split: result.splits)
      with d topo_sort_dfs_path[OF Cons.prems(1) Cons.prems(2) g False R(2)] show ?thesis by simp
    next
      case True
      with g False d Cons.prems(5) have rec: "topo_sort_for gs st1 = (Errno ECANCELED, st')" by simp
      from D True have I1: "state_inv st1" and e1: "stack st1 = []" by auto
      from D have er: "erase_status (st_heap st1) = erase_status (st_heap st)" by simp
      from v erase_status_eq_valid[OF er]
      have v1: "\<forall>g \<in> set gs. get_gate (st_heap st1) g \<noteq> None" by simp
      from Cons.IH[OF I1 e1 v1 R(1) rec] erase_status_eq_net[OF er] show ?thesis by simp
    qed
  qed
qed

lemma topo_sort_complete:
  assumes nok: "net_ok (net_of (heap w))" and u: "unvisited (heap w)"
    and v: "\<forall>g \<in> set gs. get_gate (heap w) g \<noteq> None"
    and res: "topo_sort w gs [] = (Errno ECANCELED, w', topo)"
  shows "blocked (net_of (heap w)) (set gs)"
proof -
  let ?st0 = "\<lparr>st_heap = heap w, st_alloc = tl (tl (alloc w)), stack = [],
                topo_order = [], all_gates = []\<rparr>"
  obtain r1 st where f: "topo_sort_for gs ?st0 = (r1, st)" by (cases "topo_sort_for gs ?st0")
  have al: "alloc_ok (alloc w)"
  proof (rule ccontr)
    assume "\<not> alloc_ok (alloc w)"
    with res show False by (simp add: topo_sort_def)
  qed
  have al2: "alloc_ok (tl (alloc w))"
  proof (rule ccontr)
    assume "\<not> alloc_ok (tl (alloc w))"
    with al res show False by (simp add: topo_sort_def)
  qed
  from al al2 res f have r1: "r1 = Errno ECANCELED"
    by (cases "clear_gates (st_heap st) (all_gates st)") (simp_all add: topo_sort_def)
  from u have nv: "\<And>a s. status_of (heap w) a = Some s \<Longrightarrow> s = NOT_VISITED"
    by (auto simp: unvisited_iff status_of_Some)
  have D0: "dfs_inv (net_of (heap w)) (status_of (heap w)) [] [] []"
    unfolding dfs_inv_def marks_inv_def using nv by fastforce
  have I0: "state_inv ?st0" unfolding state_inv_def using nok D0 by simp
  have e0: "stack ?st0 = []" by simp
  have v0: "\<forall>g \<in> set gs. get_gate (st_heap ?st0) g \<noteq> None" using v by simp
  from topo_sort_for_path[OF I0 e0 v0 subset_refl] f r1 show ?thesis by simp
qed


section \<open>Well-formed stores\<close>

text \<open>
  \<^verbatim>\<open>nand_connect_signal\<close> is the only function that makes a slot a signal source, and
  it stores the address of a boolean there.  A store is well formed when it is paired,
  every signal source holds such an address, and no gate carries a traversal mark.
\<close>

definition signals_typed :: "heap \<Rightarrow> bool" where
  "signals_typed h =
     list_all (\<lambda>c. case c of
          None \<Rightarrow> True
        | Some g \<Rightarrow>
            list_all (\<lambda>sl. in_type sl \<noteq> BOOLEAN_SIGNAL_INPUT
                             \<or> (case in_ptr sl of BoolPtr b \<Rightarrow> True | _ \<Rightarrow> False)) (inputs g)) h"

definition well_formed :: "heap \<Rightarrow> bool" where
  "well_formed h \<longleftrightarrow> pairing h \<and> signals_typed h \<and> unvisited h"

definition live :: "heap \<Rightarrow> nat list \<Rightarrow> bool" where
  "live h gs = list_all (\<lambda>g. get_gate h g \<noteq> None) gs"

lemma signals_typedD:
  assumes "signals_typed h" "get_gate h a = Some g" "k < length (inputs g)"
    "in_type (inputs g ! k) = BOOLEAN_SIGNAL_INPUT"
  shows "\<exists>b. in_ptr (inputs g ! k) = BoolPtr b"
proof -
  from assms(2) have "a < length h" "h ! a = Some g" by (auto simp: get_gate_def split: if_splits)
  then have "Some g \<in> set h" by (metis nth_mem)
  with assms(1) have "\<forall>sl \<in> set (inputs g). in_type sl \<noteq> BOOLEAN_SIGNAL_INPUT
      \<or> (case in_ptr sl of BoolPtr b \<Rightarrow> True | _ \<Rightarrow> False)"
    by (auto simp: signals_typed_def list_all_iff)
  moreover have "inputs g ! k \<in> set (inputs g)" using assms(3) by simp
  ultimately have "case in_ptr (inputs g ! k) of BoolPtr b \<Rightarrow> True | _ \<Rightarrow> False"
    using assms(4) by blast
  then show ?thesis by (cases "in_ptr (inputs g ! k)") auto
qed

lemma well_formed_net_ok:
  assumes "well_formed h"
  shows "net_ok (net_of h)"
  unfolding net_ok_def
proof (intro allI impI)
  fix a n ins assume "net_of h a = Some (n, ins)"
  then obtain g where g: "get_gate h a = Some g" "n = input_count g" "ins = inputs g"
    by (auto simp: net_of_Some)
  from assms have P: "pairing_ex {} h" and ST: "signals_typed h"
    by (simp_all add: well_formed_def pairing_iff)
  from P g(1) have l: "length (inputs g) = input_count g"
    and sp: "\<And>k. k < input_count g \<Longrightarrow> slot_paired h a k (inputs g ! k)"
    unfolding pairing_ex_def by blast+
  have "\<forall>k < n. (in_type (ins ! k) = NAND_GATE_INPUT \<longrightarrow>
                       (\<exists>s. in_ptr (ins ! k) = GatePtr s \<and> net_of h s \<noteq> None))
                  \<and> (in_type (ins ! k) = BOOLEAN_SIGNAL_INPUT \<longrightarrow>
                       (\<exists>b. in_ptr (ins ! k) = BoolPtr b))"
  proof (intro allI impI conjI)
    fix k assume k: "k < n" and t: "in_type (ins ! k) = NAND_GATE_INPUT"
    from k g have "slot_paired h a k (inputs g ! k)" by (simp add: sp)
    from slot_pairedD[OF this] t g(3) obtain S s where "in_ptr (inputs g ! k) = GatePtr S"
      "get_gate h S = Some s" by metis
    with g(3) show "\<exists>s. in_ptr (ins ! k) = GatePtr s \<and> net_of h s \<noteq> None"
      by (auto simp: net_of_def)
  next
    fix k assume k: "k < n" and t: "in_type (ins ! k) = BOOLEAN_SIGNAL_INPUT"
    from k g l have "k < length (inputs g)" by simp
    from signals_typedD[OF ST g(1) this] t g(3) show "\<exists>b. in_ptr (ins ! k) = BoolPtr b" by simp
  qed
  with l g show "length ins = n \<and> (\<forall>k < n. (in_type (ins ! k) = NAND_GATE_INPUT \<longrightarrow>
                       (\<exists>s. in_ptr (ins ! k) = GatePtr s \<and> net_of h s \<noteq> None))
                  \<and> (in_type (ins ! k) = BOOLEAN_SIGNAL_INPUT \<longrightarrow>
                       (\<exists>b. in_ptr (ins ! k) = BoolPtr b)))" by simp
qed

lemma nand_evaluate_Some:
  "gs \<noteq> [] \<Longrightarrow> length gs < 2 ^ 32
   \<Longrightarrow> nand_evaluate w sg (map Some gs) = nand_evaluate_all w sg gs"
  by (auto simp: nand_evaluate_def comp_def)

lemma nand_evaluate_all_complete:
  assumes nok: "net_ok (net_of (heap w))" and u: "unvisited (heap w)"
    and v: "\<forall>g \<in> set gs. get_gate (heap w) g \<noteq> None"
    and res: "nand_evaluate_all w sg gs = (Errno ECANCELED, w')"
  shows "blocked (net_of (heap w)) (set gs)"
proof -
  let ?w0 = "w\<lparr>alloc := tl (alloc w)\<rparr>"
  obtain r1 w1 T where t: "topo_sort ?w0 gs [] = (r1, w1, T)" by (cases "topo_sort ?w0 gs []") auto
  have al: "alloc_ok (alloc w)"
  proof (rule ccontr)
    assume "\<not> alloc_ok (alloc w)"
    with res show False by (simp add: nand_evaluate_all_def)
  qed
  have "r1 = Errno ECANCELED"
  proof (cases r1)
    case (Done x)
    with al t res show ?thesis
      by (auto simp: nand_evaluate_all_def split: option.splits)
  next
    case (Errno e)
    with al t res show ?thesis by (simp add: nand_evaluate_all_def)
  next
    case Undef
    with al t res show ?thesis by (simp add: nand_evaluate_all_def)
  qed
  with t have t': "topo_sort ?w0 gs [] = (Errno ECANCELED, w1, T)" by simp
  have nok0: "net_ok (net_of (heap ?w0))" and u0: "unvisited (heap ?w0)"
    and v0: "\<forall>g \<in> set gs. get_gate (heap ?w0) g \<noteq> None"
    using nok u v by simp_all
  from topo_sort_complete[OF nok0 u0 v0 t'] show ?thesis by simp
qed

text \<open>
  The outcome of an evaluation of live gates in a well-formed store.  It never leaves
  the defined behaviour, never reports \<open>EINVAL\<close>, and leaves the store well formed.
\<close>

lemma nand_evaluate_sound:
  assumes wf: "well_formed (heap w)" and ne: "gs \<noteq> []" and len: "length gs < 2 ^ 32"
    and lv: "live (heap w) gs"
    and res: "nand_evaluate w sg (map Some gs) = (r, w')"
  shows "r \<noteq> Undef" "r \<noteq> Errno EINVAL" "unvisited (heap w')" "net_of (heap w') = net_of (heap w)"
    "\<And>e. r = Errno e \<Longrightarrow> heap w' = heap w"
    "\<And>x. r = Done x \<Longrightarrow>
        topo_ok (net_of (heap w)) (rev (evaluation_order w gs))
        \<and> set gs \<subseteq> set (evaluation_order w gs)
        \<and> solved sg (heap w') (set (evaluation_order w gs))
        \<and> (\<forall>a. a \<notin> set (evaluation_order w gs) \<longrightarrow> get_gate (heap w') a = get_gate (heap w) a)
        \<and> x = (map (signal_of (heap w')) gs, foldl max 0 (map (crit_of (heap w')) gs))"
    "never_fails (alloc w) \<Longrightarrow> never_fails (alloc w') \<and> r \<noteq> Errno ENOMEM"
    "r = Errno ECANCELED \<Longrightarrow> \<not> (\<exists>L. topo_ok (net_of (heap w)) L \<and> set gs \<subseteq> set L)"
    "r = Errno ECANCELED \<Longrightarrow> blocked (net_of (heap w)) (set gs)"
proof -
  from wf have nok: "net_ok (net_of (heap w))" by (rule well_formed_net_ok)
  from wf have u: "unvisited (heap w)" by (simp add: well_formed_def)
  from lv have v: "\<forall>g \<in> set gs. get_gate (heap w) g \<noteq> None" by (simp add: live_def list_all_iff)
  from res ne len have res': "nand_evaluate_all w sg gs = (r, w')" by (simp add: nand_evaluate_Some)
  note S = nand_evaluate_all_sound[OF nok u v res']
  from S show "r \<noteq> Undef" "r \<noteq> Errno EINVAL" "unvisited (heap w')"
    "net_of (heap w') = net_of (heap w)" by simp_all
  from S show "\<And>e. r = Errno e \<Longrightarrow> heap w' = heap w" by simp
  from S show "\<And>x. r = Done x \<Longrightarrow>
        topo_ok (net_of (heap w)) (rev (evaluation_order w gs))
        \<and> set gs \<subseteq> set (evaluation_order w gs)
        \<and> solved sg (heap w') (set (evaluation_order w gs))
        \<and> (\<forall>a. a \<notin> set (evaluation_order w gs) \<longrightarrow> get_gate (heap w') a = get_gate (heap w) a)
        \<and> x = (map (signal_of (heap w')) gs, foldl max 0 (map (crit_of (heap w')) gs))"
    by blast
  from S show "never_fails (alloc w) \<Longrightarrow> never_fails (alloc w') \<and> r \<noteq> Errno ENOMEM" by simp
  show b: "r = Errno ECANCELED \<Longrightarrow> blocked (net_of (heap w)) (set gs)"
    using nand_evaluate_all_complete[OF nok u v] res' by simp
  show "r = Errno ECANCELED \<Longrightarrow> \<not> (\<exists>L. topo_ok (net_of (heap w)) L \<and> set gs \<subseteq> set L)"
    using blocked_no_order[OF b] by simp
qed


section \<open>The critical path of an evaluated gate\<close>

lemma foldl_max_Max: "foldl max (a::int) xs = Max (insert a (set xs))"
proof (induction xs arbitrary: a)
  case Nil
  then show ?case by simp
next
  case (Cons x xs)
  have "Max (insert (max a x) (set xs)) = Max (insert a (insert x (set xs)))"
  proof (cases "set xs = {}")
    case True
    then show ?thesis by simp
  next
    case False
    then show ?thesis by (simp add: max.assoc)
  qed
  with Cons show ?case by simp
qed

lemma foldl_max_ge: "a \<le> foldl max (a::int) xs"
  by (simp add: foldl_max_Max)

lemma solved_delay_pos:
  assumes "solved sg h D" "slot_closed D sl"
  shows "1 \<le> slot_delay h sl"
proof (cases "in_ptr sl")
  case (GatePtr s)
  with assms(2) have "s \<in> D" by (auto simp: slot_closed_def)
  with assms(1) obtain gr where gr: "get_gate h s = Some gr" "gate_solved sg h gr"
    unfolding solved_def by blast
  from gr(2) have "0 \<le> crit_path_len gr" by (simp add: gate_solved_def foldl_max_ge)
  with gr(1) GatePtr show ?thesis by (simp add: slot_delay_def)
next
  case NULL
  with assms(2) show ?thesis by (auto simp: slot_closed_def)
qed (simp add: slot_delay_def)

lemma solved_crit:
  assumes "solved sg h D" "g \<in> D" "get_gate h g = Some gr"
  shows "crit_path_len gr =
     (if inputs gr = [] then 0 else Max (slot_delay h ` set (inputs gr)))"
proof -
  from assms have cl: "\<forall>sl \<in> set (inputs gr). slot_closed D sl"
    and c: "crit_path_len gr = foldl max 0 (map (slot_delay h) (inputs gr))"
    unfolding solved_def gate_solved_def by auto
  show ?thesis
  proof (cases "inputs gr = []")
    case True
    with c show ?thesis by simp
  next
    case False
    let ?S = "slot_delay h ` set (inputs gr)"
    have f: "finite ?S" and n: "?S \<noteq> {}" using False by simp_all
    have "\<forall>x \<in> ?S. 1 \<le> x" using cl solved_delay_pos[OF assms(1)] by auto
    with f n have "1 \<le> Max ?S" by (meson Max_in)
    then have "Max (insert 0 ?S) = Max ?S" using f n by simp
    with c False show ?thesis by (simp add: foldl_max_Max)
  qed
qed


text \<open>
  A chain, last gate first: the first gate of the chain has at least one slot and all
  its slots are signal sources; every other gate has a slot driven by its predecessor
  and all its remaining slots are signal sources or driven by the predecessor too.
\<close>

definition signal_fed :: "nand_t \<Rightarrow> bool" where
  "signal_fed gr \<longleftrightarrow>
     inputs gr \<noteq> [] \<and> list_all (\<lambda>sl. in_type sl = BOOLEAN_SIGNAL_INPUT) (inputs gr)"

definition fed_by :: "nand_t \<Rightarrow> nat \<Rightarrow> bool" where
  "fed_by gr p \<longleftrightarrow>
     list_ex (\<lambda>sl. in_type sl = NAND_GATE_INPUT \<and> in_ptr sl = GatePtr p) (inputs gr)
     \<and> list_all (\<lambda>sl. in_type sl = BOOLEAN_SIGNAL_INPUT
                      \<or> (in_type sl = NAND_GATE_INPUT \<and> in_ptr sl = GatePtr p)) (inputs gr)"

fun is_chain :: "heap \<Rightarrow> nat list \<Rightarrow> bool" where
  "is_chain h [] = False"
| "is_chain h [a] = (case get_gate h a of Some gr \<Rightarrow> signal_fed gr | None \<Rightarrow> False)"
| "is_chain h (a # p # rest) =
     ((case get_gate h a of Some gr \<Rightarrow> fed_by gr p | None \<Rightarrow> False) \<and> is_chain h (p # rest))"

lemma solved_signal_fed:
  assumes so: "solved sg h D" and g: "g \<in> D" "get_gate h g = Some gr" and sf: "signal_fed gr"
  shows "crit_path_len gr = 1"
proof -
  from so g have cl: "\<forall>sl \<in> set (inputs gr). slot_closed D sl" unfolding solved_def by auto
  from sf have ne: "inputs gr \<noteq> []" and b: "\<forall>sl \<in> set (inputs gr). in_type sl = BOOLEAN_SIGNAL_INPUT"
    by (simp_all add: signal_fed_def list_all_iff)
  have "\<forall>sl \<in> set (inputs gr). slot_delay h sl = 1"
  proof
    fix sl assume m: "sl \<in> set (inputs gr)"
    with cl b have "\<exists>b. in_ptr sl = BoolPtr b" by (auto simp: slot_closed_def)
    then show "slot_delay h sl = 1" by (auto simp: slot_delay_def)
  qed
  then have "slot_delay h ` set (inputs gr) = {1}" using ne by (cases "inputs gr") auto
  with solved_crit[OF so g] ne show ?thesis by simp
qed

lemma solved_fed_by:
  assumes so: "solved sg h D" and g: "g \<in> D" "get_gate h g = Some gr" and fb: "fed_by gr p"
  shows "p \<in> D \<and> crit_path_len gr = crit_of h p + 1"
proof -
  from so g have cl: "\<forall>sl \<in> set (inputs gr). slot_closed D sl" unfolding solved_def by auto
  from fb obtain sl0 where sl0: "sl0 \<in> set (inputs gr)" "in_type sl0 = NAND_GATE_INPUT"
    "in_ptr sl0 = GatePtr p"
    by (auto simp: fed_by_def list_ex_iff)
  from fb have al: "\<forall>sl \<in> set (inputs gr). in_type sl = BOOLEAN_SIGNAL_INPUT
                      \<or> (in_type sl = NAND_GATE_INPUT \<and> in_ptr sl = GatePtr p)"
    by (simp add: fed_by_def list_all_iff)
  from cl sl0 have p: "p \<in> D" by (auto simp: slot_closed_def)
  with so obtain pr where pr: "get_gate h p = Some pr" "gate_solved sg h pr"
    unfolding solved_def by blast
  from pr(2) have p0: "0 \<le> crit_path_len pr" by (simp add: gate_solved_def foldl_max_ge)
  from pr(1) have cp: "crit_of h p = crit_path_len pr" by (simp add: crit_of_def)
  from sl0 have ne: "inputs gr \<noteq> []" by auto
  let ?S = "slot_delay h ` set (inputs gr)"
  have top: "crit_path_len pr + 1 \<in> ?S"
  proof -
    from sl0(3) pr(1) have "slot_delay h sl0 = crit_path_len pr + 1" by (simp add: slot_delay_def)
    with sl0(1) show ?thesis by force
  qed
  have le: "\<forall>x \<in> ?S. x \<le> crit_path_len pr + 1"
  proof
    fix x assume "x \<in> ?S"
    then obtain sl where sl: "sl \<in> set (inputs gr)" "x = slot_delay h sl" by auto
    from al sl(1) consider "in_type sl = BOOLEAN_SIGNAL_INPUT"
      | "in_type sl = NAND_GATE_INPUT \<and> in_ptr sl = GatePtr p" by blast
    then show "x \<le> crit_path_len pr + 1"
    proof cases
      case 1
      with cl sl(1) have "\<exists>b. in_ptr sl = BoolPtr b" by (auto simp: slot_closed_def)
      with sl(2) p0 show ?thesis by (auto simp: slot_delay_def)
    next
      case 2
      with sl(2) pr(1) show ?thesis by (simp add: slot_delay_def)
    qed
  qed
  have "Max ?S = crit_path_len pr + 1"
    by (rule Max_eqI) (use top le in auto)
  with solved_crit[OF so g] ne cp p show ?thesis by simp
qed

lemma same_net_inputs:
  assumes "net_of h' = net_of h" "get_gate h a = Some gr0" "get_gate h' a = Some gr"
  shows "inputs gr = inputs gr0"
proof -
  from assms(2) have "net_of h a = Some (input_count gr0, inputs gr0)" by (simp add: net_of_def)
  moreover from assms(3) have "net_of h' a = Some (input_count gr, inputs gr)" by (simp add: net_of_def)
  ultimately show ?thesis using assms(1) by simp
qed

lemma chain_crit:
  assumes so: "solved sg h' D"
  shows "is_chain h ch \<Longrightarrow> net_of h' = net_of h \<Longrightarrow> hd ch \<in> D
         \<Longrightarrow> crit_of h' (hd ch) = int (length ch)"
proof (induction h ch rule: is_chain.induct)
  case (1 h)
  then show ?case by simp
next
  case (2 h a)
  then obtain gr0 where g0: "get_gate h a = Some gr0" "signal_fed gr0"
    by (auto split: option.splits)
  from 2 have aD: "a \<in> D" by simp
  with so obtain gr where gr: "get_gate h' a = Some gr" unfolding solved_def by auto
  from same_net_inputs[OF "2.prems"(2) g0(1) gr] g0(2) have "signal_fed gr"
    by (simp add: signal_fed_def)
  from solved_signal_fed[OF so aD gr this] gr show ?case by (simp add: crit_of_def)
next
  case (3 h a p rest)
  then obtain gr0 where g0: "get_gate h a = Some gr0" "fed_by gr0 p" and ch: "is_chain h (p # rest)"
    by (auto split: option.splits)
  from 3 have aD: "a \<in> D" by simp
  with so obtain gr where gr: "get_gate h' a = Some gr" unfolding solved_def by auto
  from same_net_inputs[OF "3.prems"(2) g0(1) gr] g0(2) have "fed_by gr p" by (simp add: fed_by_def)
  from solved_fed_by[OF so aD gr this] have p: "p \<in> D" and c: "crit_path_len gr = crit_of h' p + 1"
    by simp_all
  from "3.IH"[OF ch "3.prems"(2)] p have "crit_of h' p = int (length (p # rest))" by simp
  with c gr show ?case by (simp add: crit_of_def)
qed


text \<open>
  Which outcome an evaluation has: it succeeds only if the dependency closure of the
  requested gates is not blocked, it is cancelled only if the closure is blocked, and
  when no allocation fails these are the only two outcomes.
\<close>

lemma nand_evaluate_outcome:
  assumes wf: "well_formed (heap w)" and ne: "gs \<noteq> []" and len: "length gs < 2 ^ 32"
    and lv: "live (heap w) gs"
    and res: "nand_evaluate w sg (map Some gs) = (r, w')"
  shows "(\<exists>x. r = Done x) \<or> r = Errno ECANCELED \<or> r = Errno ENOMEM"
    "\<And>x. r = Done x \<Longrightarrow> \<not> blocked (net_of (heap w)) (set gs)"
    "r = Errno ECANCELED \<Longrightarrow> blocked (net_of (heap w)) (set gs)"
    "never_fails (alloc w) \<Longrightarrow> (r = Errno ECANCELED \<longleftrightarrow> blocked (net_of (heap w)) (set gs))"
    "never_fails (alloc w) \<Longrightarrow> ((\<exists>x. r = Done x) \<longleftrightarrow> \<not> blocked (net_of (heap w)) (set gs))"
proof -
  note S = nand_evaluate_sound[OF wf ne len lv res]
  show c: "(\<exists>x. r = Done x) \<or> r = Errno ECANCELED \<or> r = Errno ENOMEM"
  proof (cases r)
    case (Done x)
    then show ?thesis by simp
  next
    case (Errno e)
    with S(2) show ?thesis by (cases e) simp_all
  next
    case Undef
    with S(1) show ?thesis by simp
  qed
  show d: "\<not> blocked (net_of (heap w)) (set gs)" if "r = Done x" for x
  proof
    assume b: "blocked (net_of (heap w)) (set gs)"
    from S(6)[OF that] have "topo_ok (net_of (heap w)) (rev (evaluation_order w gs))
        \<and> set gs \<subseteq> set (rev (evaluation_order w gs))" by simp
    then have "\<exists>L. topo_ok (net_of (heap w)) L \<and> set gs \<subseteq> set L" by blast
    with blocked_no_order[OF b] show False by simp
  qed
  show e: "r = Errno ECANCELED \<Longrightarrow> blocked (net_of (heap w)) (set gs)" by (rule S(9))
  show "r = Errno ECANCELED \<longleftrightarrow> blocked (net_of (heap w)) (set gs)" if nf: "never_fails (alloc w)"
    using c d e S(7)[OF nf] by auto
  show "(\<exists>x. r = Done x) \<longleftrightarrow> \<not> blocked (net_of (heap w)) (set gs)" if nf: "never_fails (alloc w)"
    using c d e S(7)[OF nf] by auto
qed

lemma reach_self: "g \<in> R \<Longrightarrow> reach N R g"
  unfolding reach_def by blast

lemma no_src_not_blocked:
  assumes "\<And>s. \<not> src N g s" "\<not> has_empty N g"
  shows "\<not> blocked N {g}"
proof
  assume "blocked N {g}"
  then obtain a where a: "(src N)\<^sup>*\<^sup>* g a" "has_empty N a \<or> (src N)\<^sup>+\<^sup>+ a a"
    unfolding blocked_def reach_def by blast
  from a(1) assms(1) have "a = g" by (metis converse_rtranclpE)
  with a(2) assms(2) have "(src N)\<^sup>+\<^sup>+ g g" by simp
  with assms(1) show False by (metis tranclpD)
qed


section \<open>A gate without inputs\<close>

lemma well_formed_new:
  assumes "well_formed h"
  shows "well_formed (h @ [Some \<lparr>crit_path_len = 0, inputs = replicate n empty_slot,
                   outputs = [], input_count = n, status = NOT_VISITED, signal = False\<rparr>])"
proof -
  let ?w = "\<lparr>heap = h, alloc = []\<rparr>"
  from assms have "pairing (heap ?w)" by (simp add: well_formed_def)
  from nand_new_pairing[OF this, of n]
  have "pairing (h @ [Some \<lparr>crit_path_len = 0, inputs = replicate n empty_slot,
                   outputs = [], input_count = n, status = NOT_VISITED, signal = False\<rparr>])"
    by (simp add: nand_new_def alloc_ok_def)
  moreover have "list_all (\<lambda>sl. in_type sl \<noteq> BOOLEAN_SIGNAL_INPUT
                             \<or> (case in_ptr sl of BoolPtr b \<Rightarrow> True | _ \<Rightarrow> False))
                   (replicate n empty_slot)"
    by (simp add: list_all_iff empty_slot_def)
  ultimately show ?thesis
    using assms by (simp add: well_formed_def signals_typed_def unvisited_def)
qed

lemma nand_new_Done:
  assumes "nand_new w n = (Done g, w1)"
  shows "g = length (heap w)"
    and "heap w1 = heap w @ [Some \<lparr>crit_path_len = 0, inputs = replicate n empty_slot,
                   outputs = [], input_count = n, status = NOT_VISITED, signal = False\<rparr>]"
  using assms by (auto simp: nand_new_def Let_def split: if_splits)

lemma nand_new_never_fails:
  assumes "never_fails (alloc w)"
  shows "nand_new w n = (Done (length (heap w)),
      \<lparr>heap = heap w @ [Some \<lparr>crit_path_len = 0, inputs = replicate n empty_slot,
                   outputs = [], input_count = n, status = NOT_VISITED, signal = False\<rparr>],
       alloc = tl (tl (tl (alloc w)))\<rparr>)"
  using assms by (simp add: nand_new_def Let_def)


text \<open>
  C10: \<^verbatim>\<open>nand_new(0)\<close> is never rejected with \<open>EINVAL\<close>, it succeeds when no allocation
  fails, and the gate it returns lives in a well-formed store and has no slot.  An
  evaluation of any gate without slots in a well-formed store, whatever signal and
  critical path the gate stores beforehand, ends with \<open>ENOMEM\<close> or succeeds with the
  signal false and the critical path \<open>0\<close>, never with \<open>ECANCELED\<close>; it succeeds when no
  allocation fails, and then these values are stored in the gate.
\<close>

theorem nand_new_zero_evaluates:
  assumes wf: "well_formed (heap w)"
  shows "fst (nand_new w 0) \<noteq> Errno EINVAL
         \<and> (never_fails (alloc w) \<longrightarrow> fst (nand_new w 0) = Done (length (heap w)))
         \<and> (\<forall>g w1. nand_new w 0 = (Done g, w1) \<longrightarrow>
               well_formed (heap w1)
               \<and> (\<exists>gr. get_gate (heap w1) g = Some gr \<and> input_count gr = 0))
         \<and> (\<forall>g gr r w'. get_gate (heap w) g = Some gr \<and> input_count gr = 0
               \<and> nand_evaluate w sg [Some g] = (r, w') \<longrightarrow>
               (r = Done ([False], 0) \<or> r = Errno ENOMEM)
               \<and> (never_fails (alloc w) \<longrightarrow> r = Done ([False], 0))
               \<and> (r = Done ([False], 0) \<longrightarrow>
                    signal_of (heap w') g = False \<and> crit_of (heap w') g = 0))"
proof (intro conjI allI impI)
  show "fst (nand_new w 0) \<noteq> Errno EINVAL" by (simp add: nand_new_def Let_def)
next
  assume "never_fails (alloc w)"
  from nand_new_never_fails[OF this, of 0] show "fst (nand_new w 0) = Done (length (heap w))" by simp
next
  fix g w1 assume a: "nand_new w 0 = (Done g, w1)"
  let ?new = "\<lparr>crit_path_len = 0, inputs = [], outputs = [], input_count = 0,
               status = NOT_VISITED, signal = False\<rparr>"
  from nand_new_Done[OF a] have g: "g = length (heap w)"
    and h1: "heap w1 = heap w @ [Some ?new]" by simp_all
  from well_formed_new[OF wf, of 0] h1 show "well_formed (heap w1)" by simp
  have "get_gate (heap w1) g = Some ?new" by (simp add: h1 g get_gate_append)
  then show "\<exists>gr. get_gate (heap w1) g = Some gr \<and> input_count gr = 0" by simp
next
  fix g gr r w'
  assume a: "get_gate (heap w) g = Some gr \<and> input_count gr = 0
               \<and> nand_evaluate w sg [Some g] = (r, w')"
  then have gg: "get_gate (heap w) g = Some gr" and z: "input_count gr = 0"
    and ev: "nand_evaluate w sg (map Some [g]) = (r, w')" by simp_all
  from wf have "pairing_ex {} (heap w)" by (simp add: well_formed_def pairing_iff)
  with gg z have i0: "inputs gr = []" unfolding pairing_ex_def by fastforce
  from gg have lv: "live (heap w) [g]" by (simp add: live_def)
  have ne: "[g] \<noteq> []" and len: "length [g] < (2::nat) ^ 32" by simp_all
  note S = nand_evaluate_sound[OF wf ne len lv ev]
  note O = nand_evaluate_outcome[OF wf ne len lv ev]
  have N: "net_of (heap w) g = Some (0, [])" using gg z i0 by (simp add: net_of_def)
  have ns: "\<And>s. \<not> src (net_of (heap w)) g s" using N by (simp add: src_def)
  have nh: "\<not> has_empty (net_of (heap w)) g" using N by (simp add: has_empty_def)
  from no_src_not_blocked[OF ns nh] have nb: "\<not> blocked (net_of (heap w)) (set [g])" by simp
  have d: "x = ([False], 0) \<and> signal_of (heap w') g = False \<and> crit_of (heap w') g = 0"
    if "r = Done x" for x
  proof -
    from S(6)[OF that] have sub: "g \<in> set (evaluation_order w [g])"
      and so: "solved sg (heap w') (set (evaluation_order w [g]))"
      and x: "x = (map (signal_of (heap w')) [g], foldl max 0 (map (crit_of (heap w')) [g]))"
      by simp_all
    from so sub obtain gr' where gr: "get_gate (heap w') g = Some gr'" "gate_solved sg (heap w') gr'"
      unfolding solved_def by blast
    from S(4) N have "net_of (heap w') g = Some (0, [])" by simp
    with gr(1) have "inputs gr' = []" by (simp add: net_of_def)
    with gr(2) have "signal gr' = False" "crit_path_len gr' = 0" by (simp_all add: gate_solved_def)
    with gr(1) x show ?thesis by (simp add: signal_of_def crit_of_def)
  qed
  from O(1) O(3) nb d show c: "r = Done ([False], 0) \<or> r = Errno ENOMEM" by blast
  show "r = Done ([False], 0)" if "never_fails (alloc w)"
    using c S(7)[OF that] by auto
  show "signal_of (heap w') g = False" if "r = Done ([False], 0)" using d[OF that] by simp
  show "crit_of (heap w') g = 0" if "r = Done ([False], 0)" using d[OF that] by simp
qed

text \<open>A store whose only gate has no slot and stores a signal and a length from elsewhere.\<close>

definition stale_zero :: world where
  "stale_zero = \<lparr>heap =
     [Some \<lparr>crit_path_len = 5, inputs = [], outputs = [], input_count = 0,
            status = NOT_VISITED, signal = True\<rparr>],
     alloc = []\<rparr>"

lemma stale_zero_well_formed: "well_formed (heap stale_zero)"
  by code_simp

theorem nand_new_zero_evaluates_witness:
  "well_formed (heap stale_zero)
   \<and> signal_of (heap stale_zero) 0 = True \<and> crit_of (heap stale_zero) 0 = 5
   \<and> fst (nand_evaluate stale_zero (\<lambda>b. True) [Some 0]) = Done ([False], 0)
   \<and> signal_of (heap (snd (nand_evaluate stale_zero (\<lambda>b. True) [Some 0]))) 0 = False
   \<and> crit_of (heap (snd (nand_evaluate stale_zero (\<lambda>b. True) [Some 0]))) 0 = 0
   \<and> fst (nand_new stale_zero 0) = Done 1
   \<and> fst (nand_evaluate (snd (nand_new stale_zero 0)) (\<lambda>b. True) [Some 1]) = Done ([False], 0)"
proof -
  let ?sg = "\<lambda>b::nat. True"
  let ?gr = "\<lparr>crit_path_len = 5, inputs = [], outputs = [], input_count = 0,
            status = NOT_VISITED, signal = True\<rparr>"
  have gg: "get_gate (heap stale_zero) 0 = Some ?gr" by (simp add: stale_zero_def get_gate_def)
  have nf: "never_fails (alloc stale_zero)" by (simp add: stale_zero_def never_fails_def)
  have old: "signal_of (heap stale_zero) 0 = True" "crit_of (heap stale_zero) 0 = 5"
    using gg by (simp_all add: signal_of_def crit_of_def)
  note T = nand_new_zero_evaluates[OF stale_zero_well_formed, of ?sg]
  from T nf have n: "fst (nand_new stale_zero 0) = Done 1" by (simp add: stale_zero_def)
  from T have ev: "\<forall>g gr r w'. get_gate (heap stale_zero) g = Some gr \<and> input_count gr = 0
               \<and> nand_evaluate stale_zero ?sg [Some g] = (r, w') \<longrightarrow>
               (r = Done ([False], 0) \<or> r = Errno ENOMEM)
               \<and> (never_fails (alloc stale_zero) \<longrightarrow> r = Done ([False], 0))
               \<and> (r = Done ([False], 0) \<longrightarrow>
                    signal_of (heap w') g = False \<and> crit_of (heap w') g = 0)" by (elim conjE)
  have e: "get_gate (heap stale_zero) 0 = Some ?gr \<and> input_count ?gr = 0
      \<and> nand_evaluate stale_zero ?sg [Some 0]
          = (fst (nand_evaluate stale_zero ?sg [Some 0]), snd (nand_evaluate stale_zero ?sg [Some 0]))"
    using gg by simp
  from ev[rule_format, OF e] nf
  have 1: "fst (nand_evaluate stale_zero ?sg [Some 0]) = Done ([False], 0)"
    and 2: "signal_of (heap (snd (nand_evaluate stale_zero ?sg [Some 0]))) 0 = False"
    and 3: "crit_of (heap (snd (nand_evaluate stale_zero ?sg [Some 0]))) 0 = 0"
    by simp_all
  let ?w1 = "snd (nand_new stale_zero 0)"
  from n have nn: "nand_new stale_zero 0 = (Done 1, ?w1)" by (simp add: prod_eq_iff)
  from T have "\<forall>g w1. nand_new stale_zero 0 = (Done g, w1) \<longrightarrow>
               well_formed (heap w1)
               \<and> (\<exists>gr. get_gate (heap w1) g = Some gr \<and> input_count gr = 0)" by (elim conjE)
  from this[rule_format, OF nn] obtain gr1 where wf1: "well_formed (heap ?w1)"
    and g1: "get_gate (heap ?w1) 1 = Some gr1" "input_count gr1 = 0" by blast
  have nf1: "never_fails (alloc ?w1)"
    by (simp add: nand_new_def Let_def stale_zero_def alloc_ok_def never_fails_def)
  from nand_new_zero_evaluates[OF wf1, of ?sg]
  have ev1: "\<forall>g gr r w'. get_gate (heap ?w1) g = Some gr \<and> input_count gr = 0
               \<and> nand_evaluate ?w1 ?sg [Some g] = (r, w') \<longrightarrow>
               (r = Done ([False], 0) \<or> r = Errno ENOMEM)
               \<and> (never_fails (alloc ?w1) \<longrightarrow> r = Done ([False], 0))
               \<and> (r = Done ([False], 0) \<longrightarrow>
                    signal_of (heap w') g = False \<and> crit_of (heap w') g = 0)" by (elim conjE)
  have e1: "get_gate (heap ?w1) 1 = Some gr1 \<and> input_count gr1 = 0
      \<and> nand_evaluate ?w1 ?sg [Some 1]
          = (fst (nand_evaluate ?w1 ?sg [Some 1]), snd (nand_evaluate ?w1 ?sg [Some 1]))"
    using g1 by simp
  from ev1[rule_format, OF e1] nf1
  have 4: "fst (nand_evaluate ?w1 ?sg [Some 1]) = Done ([False], 0)" by simp
  from stale_zero_well_formed old 1 2 3 n 4 show ?thesis by simp
qed


section \<open>The traversal visits the dependency closure only\<close>

lemma process_node_topo:
  assumes I: "state_inv st" and stk: "stack st = f # rest" and pn: "process_node st = (Done (), st')"
  shows "set (topo_order st') \<subseteq> insert (dfs_gate f) (set (topo_order st))"
proof -
  let ?h = "st_heap st"
  let ?N = "net_of ?h"
  let ?S = "status_of ?h"
  let ?g = "dfs_gate f"
  let ?k = "dfs_ind f"
  from I stk have NO: "net_ok ?N"
    and DI: "dfs_inv ?N ?S (f # rest) (topo_order st) (all_gates st)"
    by (simp_all add: state_inv_def)
  from DI have fr: "frame_ok ?N ?S None f" unfolding dfs_inv_def by auto
  from fr obtain gr where gr: "get_gate ?h ?g = Some gr" and kle: "?k \<le> input_count gr"
    unfolding frame_ok_def net_of_Some by auto
  have Ng: "?N ?g = Some (input_count gr, inputs gr)" using gr by (simp add: net_of_Some)
  from NO Ng have len: "length (inputs gr) = input_count gr"
    unfolding net_ok_def by blast
  show ?thesis
  proof (cases "?k = input_count gr")
    case True
    from pn process_node_finish[OF stk gr True]
    have "topo_order st' = ?g # topo_order st" by (auto split: if_splits)
    then show ?thesis by auto
  next
    case False
    with kle have k: "?k < input_count gr" by simp
    with len have kl: "?k < length (inputs gr)" by simp
    note step = process_node_step[OF stk gr k kl]
    have al: "alloc_ok (st_alloc st)"
    proof (rule ccontr)
      assume "\<not> alloc_ok (st_alloc st)"
      with pn step show False by simp
    qed
    let ?f' = "f\<lparr>dfs_ind := ?k + 1\<rparr>"
    let ?st1 = "st\<lparr>st_alloc := tl (st_alloc st), stack := ?f' # rest\<rparr>"
    let ?sl = "inputs gr ! ?k"
    from pn step al have pi: "process_input ?sl ?st1 = (Done (), st')" by simp
    consider (empty) "in_type ?sl = EMPTY_INPUT" | (bool) "in_type ?sl = BOOLEAN_SIGNAL_INPUT"
      | (gate) "in_type ?sl = NAND_GATE_INPUT"
      by (cases "in_type ?sl") auto
    then show ?thesis
    proof cases
      case empty
      with pi show ?thesis by (simp add: process_input_cases)
    next
      case bool
      with pi have "st' = ?st1" by (simp add: process_input_cases)
      then show ?thesis by auto
    next
      case gate
      from NO Ng k gate obtain s where pt: "in_ptr ?sl = GatePtr s" and "?N s \<noteq> None"
        unfolding net_ok_def by blast
      then obtain sr where sr: "get_gate ?h s = Some sr" by (auto simp: net_of_def)
      from pi gate pt have pin: "process_input_nand s ?st1 = (Done (), st')"
        by (simp add: process_input_cases)
      have sr1: "get_gate (st_heap ?st1) s = Some sr" using sr by simp
      show ?thesis
      proof (cases "status sr = NOT_VISITED")
        case False
        from pin process_input_nand_old[OF sr1 False] have "st' = ?st1"
          by (auto split: if_splits)
        then show ?thesis by auto
      next
        case nv: True
        from pin process_input_nand_new[OF sr1 nv]
        have "topo_order st' = topo_order st" by (auto split: if_splits)
        then show ?thesis by auto
      qed
    qed
  qed
qed

lemma dfs_loop_visits:
  assumes "state_inv st" "path_inv (net_of (st_heap st)) R (map dfs_gate (stack st))"
    "\<forall>a \<in> set (topo_order st). reach (net_of (st_heap st)) R a"
    "dfs_loop st = (Done (), st')"
  shows "\<forall>a \<in> set (topo_order st'). reach (net_of (st_heap st)) R a"
  using assms
proof (induction st arbitrary: st' rule: dfs_loop.induct)
  case (1 st)
  show ?case
  proof (cases "0 < length (stack st)")
    case False
    with "1.prems"(4) have "st' = st" by (simp add: dfs_loop.simps[of st])
    with "1.prems"(3) show ?thesis by simp
  next
    case True
    then obtain f rest where stk: "stack st = f # rest" by (cases "stack st") auto
    then have ne: "stack st \<noteq> []" by simp
    obtain r1 st1 where pn: "process_node st = (r1, st1)" by (cases "process_node st")
    have d: "r1 = Done ()"
    proof (rule ccontr)
      assume "r1 \<noteq> Done ()"
      then have "\<And>u. r1 \<noteq> Done u" by simp
      with True pn "1.prems"(4) show False
        by (simp add: dfs_loop.simps[of st] split: result.splits)
    qed
    note PI = process_node_inv[OF "1.prems"(1) ne pn]
    note PP = process_node_path[OF "1.prems"(1) ne "1.prems"(2) pn]
    from d True pn "1.prems"(4) have loop: "dfs_loop st1 = (Done (), st')"
      by (simp add: dfs_loop.simps[of st])
    from PI d have I1: "state_inv st1" by simp
    from PI have "erase_status (st_heap st1) = erase_status (st_heap st)" by simp
    from erase_status_eq_net[OF this] have N: "net_of (st_heap st1) = net_of (st_heap st)" .
    from PP d N have P1: "path_inv (net_of (st_heap st1)) R (map dfs_gate (stack st1))" by simp
    from pn d have pn': "process_node st = (Done (), st1)" by simp
    from "1.prems"(2) stk have "reach (net_of (st_heap st)) R (dfs_gate f)"
      unfolding path_inv_def by simp
    with process_node_topo[OF "1.prems"(1) stk pn'] "1.prems"(3) N
    have T1: "\<forall>a \<in> set (topo_order st1). reach (net_of (st_heap st1)) R a" by auto
    from "1.IH"[OF True pn[symmetric] d I1 P1 T1 loop] N show ?thesis by simp
  qed
qed

lemma topo_sort_dfs_visits:
  assumes I: "state_inv st" and e: "stack st = []" and g: "get_gate (st_heap st) g = Some gr"
    and nv: "status gr \<noteq> VISITED" and R: "g \<in> R"
    and T: "\<forall>a \<in> set (topo_order st). reach (net_of (st_heap st)) R a"
    and res: "topo_sort_dfs g st = (Done (), st')"
  shows "\<forall>a \<in> set (topo_order st'). reach (net_of (st_heap st)) R a"
proof -
  let ?N = "net_of (st_heap st)" and ?S = "status_of (st_heap st)"
  from I have nok: "net_ok ?N" and D: "dfs_inv ?N ?S (stack st) (topo_order st) (all_gates st)"
    unfolding state_inv_def by auto
  from D e have cp: "\<And>a. ?S a \<noteq> Some CURRENTLY_PROCESSING" unfolding dfs_inv_def by auto
  from cp[of g] g nv have s: "?S g = Some NOT_VISITED"
    by (cases "status gr") (auto simp: status_of_def)
  from g have Ng: "?N g = Some (input_count gr, inputs gr)" by (simp add: net_of_def)
  let ?st0 = "st\<lparr>st_heap := set_gate (st_heap st) g (gr\<lparr>status := CURRENTLY_PROCESSING\<rparr>),
                        st_alloc := tl (tl (st_alloc st)),
                        stack := \<lparr>dfs_gate = g, dfs_ind = 0\<rparr> # stack st,
                        all_gates := g # all_gates st\<rparr>"
  have al: "alloc_ok (st_alloc st)"
  proof (rule ccontr)
    assume "\<not> alloc_ok (st_alloc st)"
    with res topo_sort_dfs_cases[OF g] show False by simp
  qed
  have al2: "alloc_ok (tl (st_alloc st))"
  proof (rule ccontr)
    assume "\<not> alloc_ok (tl (st_alloc st))"
    with al res topo_sort_dfs_cases[OF g] show False by simp
  qed
  from al al2 res topo_sort_dfs_cases[OF g] have loop: "dfs_loop ?st0 = (Done (), st')"
    by simp
  from D e have D0: "dfs_inv ?N ?S [] (topo_order st) (all_gates st)" by simp
  have I0: "state_inv ?st0"
    unfolding state_inv_def
    using nok dfs_inv_start[OF D0 s Ng] e
    by (simp add: net_of_status_upd[OF g] status_of_status_upd[OF g])
  have N0: "net_of (st_heap ?st0) = ?N" by (simp add: net_of_status_upd[OF g])
  have "path_inv ?N R [g]" unfolding path_inv_def reach_def using R by auto
  with N0 e have P0: "path_inv (net_of (st_heap ?st0)) R (map dfs_gate (stack ?st0))" by simp
  from T N0 have T0: "\<forall>a \<in> set (topo_order ?st0). reach (net_of (st_heap ?st0)) R a" by simp
  from dfs_loop_visits[OF I0 P0 T0 loop] N0 show ?thesis by simp
qed

lemma topo_sort_for_visits:
  assumes "state_inv st" "stack st = []" "\<forall>g \<in> set gs. get_gate (st_heap st) g \<noteq> None"
    "set gs \<subseteq> R" "\<forall>a \<in> set (topo_order st). reach (net_of (st_heap st)) R a"
    "topo_sort_for gs st = (Done (), st')"
  shows "\<forall>a \<in> set (topo_order st'). reach (net_of (st_heap st)) R a"
  using assms
proof (induction gs arbitrary: st st')
  case Nil
  then show ?case by simp
next
  case (Cons g gs)
  from Cons.prems(3) obtain gr where g: "get_gate (st_heap st) g = Some gr" by auto
  from Cons.prems(3) have v: "\<forall>g \<in> set gs. get_gate (st_heap st) g \<noteq> None" by simp
  from Cons.prems(4) have R: "set gs \<subseteq> R" "g \<in> R" by simp_all
  show ?case
  proof (cases "status gr = VISITED")
    case True
    with g Cons.prems(6) have rec: "topo_sort_for gs st = (Done (), st')" by simp
    from Cons.IH[OF Cons.prems(1) Cons.prems(2) v R(1) Cons.prems(5) rec] show ?thesis .
  next
    case False
    obtain r1 st1 where d: "topo_sort_dfs g st = (r1, st1)" by (cases "topo_sort_dfs g st")
    note D = topo_sort_dfs_inv[OF Cons.prems(1) Cons.prems(2) g False d]
    have r1: "r1 = Done ()"
    proof (rule ccontr)
      assume "r1 \<noteq> Done ()"
      with g False d Cons.prems(6) show False by (auto split: result.splits)
    qed
    with g False d Cons.prems(6) have rec: "topo_sort_for gs st1 = (Done (), st')" by simp
    from D r1 have I1: "state_inv st1" and e1: "stack st1 = []" by auto
    from D have er: "erase_status (st_heap st1) = erase_status (st_heap st)" by simp
    note N = erase_status_eq_net[OF er]
    from v erase_status_eq_valid[OF er]
    have v1: "\<forall>g \<in> set gs. get_gate (st_heap st1) g \<noteq> None" by simp
    from d r1 have d': "topo_sort_dfs g st = (Done (), st1)" by simp
    from topo_sort_dfs_visits[OF Cons.prems(1) Cons.prems(2) g False R(2) Cons.prems(5) d'] N
    have T1: "\<forall>a \<in> set (topo_order st1). reach (net_of (st_heap st1)) R a" by simp
    from Cons.IH[OF I1 e1 v1 R(1) T1 rec] N show ?thesis by simp
  qed
qed

lemma topo_sort_visits:
  assumes nok: "net_ok (net_of (heap w))" and u: "unvisited (heap w)"
    and v: "\<forall>g \<in> set gs. get_gate (heap w) g \<noteq> None"
    and res: "topo_sort w gs [] = (Done (), w', topo)"
  shows "set topo = {a. reach (net_of (heap w)) (set gs) a}"
proof -
  let ?N = "net_of (heap w)"
  let ?st0 = "\<lparr>st_heap = heap w, st_alloc = tl (tl (alloc w)), stack = [],
                topo_order = [], all_gates = []\<rparr>"
  obtain r1 st where f: "topo_sort_for gs ?st0 = (r1, st)" by (cases "topo_sort_for gs ?st0")
  have al: "alloc_ok (alloc w)"
  proof (rule ccontr)
    assume "\<not> alloc_ok (alloc w)"
    with res show False by (simp add: topo_sort_def)
  qed
  have al2: "alloc_ok (tl (alloc w))"
  proof (rule ccontr)
    assume "\<not> alloc_ok (tl (alloc w))"
    with al res show False by (simp add: topo_sort_def)
  qed
  from al al2 res f have r1: "r1 = Done ()" and t: "topo = rev (topo_order st)"
    by (cases "clear_gates (st_heap st) (all_gates st)"; simp add: topo_sort_def stack_reverse_def)+
  from u have nv: "\<And>a s. status_of (heap w) a = Some s \<Longrightarrow> s = NOT_VISITED"
    by (auto simp: unvisited_iff status_of_Some)
  have D0: "dfs_inv ?N (status_of (heap w)) [] [] []"
    unfolding dfs_inv_def marks_inv_def using nv by fastforce
  have I0: "state_inv ?st0" unfolding state_inv_def using nok D0 by simp
  have e0: "stack ?st0 = []" by simp
  have v0: "\<forall>g \<in> set gs. get_gate (st_heap ?st0) g \<noteq> None" using v by simp
  have T0: "\<forall>a \<in> set (topo_order ?st0). reach (net_of (st_heap ?st0)) (set gs) a" by simp
  from f r1 have f': "topo_sort_for gs ?st0 = (Done (), st)" by simp
  from topo_sort_for_visits[OF I0 e0 v0 subset_refl T0 f'] t
  have sub: "set topo \<subseteq> {a. reach ?N (set gs) a}" by auto
  from topo_sort_inv[OF nok u v res] have to: "topo_ok ?N (rev topo)" and gs: "set gs \<subseteq> set (rev topo)"
    by simp_all
  have "{a. reach ?N (set gs) a} \<subseteq> set topo"
    using reach_topo_ok[OF to gs] by auto
  with sub show ?thesis by blast
qed


lemma evaluation_order_closure:
  assumes wf: "well_formed (heap w)" and ne: "gs \<noteq> []" and len: "length gs < 2 ^ 32"
    and lv: "live (heap w) gs"
    and res: "nand_evaluate w sg (map Some gs) = (Done x, w')"
  shows "set (evaluation_order w gs) = {a. reach (net_of (heap w)) (set gs) a}"
proof -
  from wf have nok: "net_ok (net_of (heap w))" by (rule well_formed_net_ok)
  from wf have u: "unvisited (heap w)" by (simp add: well_formed_def)
  from lv have v: "\<forall>g \<in> set gs. get_gate (heap w) g \<noteq> None" by (simp add: live_def list_all_iff)
  from res ne len have res': "nand_evaluate_all w sg gs = (Done x, w')" by (simp add: nand_evaluate_Some)
  let ?w0 = "w\<lparr>alloc := tl (alloc w)\<rparr>"
  obtain r1 w1 T where t: "topo_sort ?w0 gs [] = (r1, w1, T)" by (cases "topo_sort ?w0 gs []") auto
  have al: "alloc_ok (alloc w)"
  proof (rule ccontr)
    assume "\<not> alloc_ok (alloc w)"
    with res' show False by (simp add: nand_evaluate_all_def)
  qed
  have "r1 = Done ()"
  proof (cases r1)
    case (Done y)
    then show ?thesis by simp
  next
    case (Errno e)
    with al t res' show ?thesis by (simp add: nand_evaluate_all_def)
  next
    case Undef
    with al t res' show ?thesis by (simp add: nand_evaluate_all_def)
  qed
  with t have t': "topo_sort ?w0 gs [] = (Done (), w1, T)" by simp
  have nok0: "net_ok (net_of (heap ?w0))" and u0: "unvisited (heap ?w0)"
    and v0: "\<forall>g \<in> set gs. get_gate (heap ?w0) g \<noteq> None"
    using nok u v by simp_all
  from topo_sort_visits[OF nok0 u0 v0 t'] t show ?thesis by (simp add: evaluation_order_def)
qed

text \<open>
  What a successful evaluation leaves behind: the dependency closure of the requested
  gates is solved, every other cell of the store is as before, and the result lists
  the stored signals of the requested gates and their greatest critical path.
\<close>

lemma nand_evaluate_done:
  assumes wf: "well_formed (heap w)" and ne: "gs \<noteq> []" and len: "length gs < 2 ^ 32"
    and lv: "live (heap w) gs"
    and res: "nand_evaluate w sg (map Some gs) = (Done x, w')"
  shows "solved sg (heap w') {a. reach (net_of (heap w)) (set gs) a}"
    "\<And>a. \<not> reach (net_of (heap w)) (set gs) a \<Longrightarrow> get_gate (heap w') a = get_gate (heap w) a"
    "x = (map (signal_of (heap w')) gs, foldl max 0 (map (crit_of (heap w')) gs))"
    "net_of (heap w') = net_of (heap w)"
    "\<And>g. g \<in> set gs \<Longrightarrow> reach (net_of (heap w)) (set gs) g"
proof -
  note S = nand_evaluate_sound[OF wf ne len lv res]
  note C = evaluation_order_closure[OF wf ne len lv res]
  from S(6)[OF refl] C show "solved sg (heap w') {a. reach (net_of (heap w)) (set gs) a}" by simp
  from S(6)[OF refl] C
  show "\<And>a. \<not> reach (net_of (heap w)) (set gs) a \<Longrightarrow> get_gate (heap w') a = get_gate (heap w) a"
    by simp
  from S(6)[OF refl]
  show "x = (map (signal_of (heap w')) gs, foldl max 0 (map (crit_of (heap w')) gs))" by simp
  show "net_of (heap w') = net_of (heap w)" by (rule S(4))
  show "\<And>g. g \<in> set gs \<Longrightarrow> reach (net_of (heap w)) (set gs) g" by (rule reach_self)
qed


section \<open>The signal of an evaluated gate\<close>

text \<open>
  C2: an evaluation of at most \<open>2 ^ 32 - 1\<close> live gates of a well-formed store never
  leaves the defined behaviour, and when no allocation fails it succeeds exactly when
  the dependency closure of the requested gates is not blocked.  After a success every
  gate of the closure stores the negation of the conjunction of the values of its
  slots, read in the final store: the boolean behind a signal source, the stored
  signal of the gate behind a gate source.  Every slot of such a gate is a signal
  source or a gate source from the closure, the cells outside the closure are as
  before, and the returned sequence lists the stored signals of the requested gates.
  In particular a gate of the closure with two signal sources \<open>a\<close> and \<open>b\<close> stores
  \<open>\<not> (a \<and> b)\<close>.
\<close>

theorem evaluate_signal_is_nand:
  assumes wf: "well_formed (heap w)" and ne: "gs \<noteq> []" and len: "length gs < 2 ^ 32"
    and lv: "live (heap w) gs"
    and res: "nand_evaluate w sg (map Some gs) = (r, w')"
  shows "r \<noteq> Undef \<and> r \<noteq> Errno EINVAL
         \<and> (never_fails (alloc w) \<longrightarrow>
              ((\<exists>s c. r = Done (s, c)) \<longleftrightarrow> \<not> blocked (net_of (heap w)) (set gs)))
         \<and> (\<forall>s c. r = Done (s, c) \<longrightarrow>
               s = map (signal_of (heap w')) gs
               \<and> (\<forall>g. reach (net_of (heap w)) (set gs) g \<longrightarrow> (\<exists>gr.
                     get_gate (heap w') g = Some gr
                     \<and> net_of (heap w) g = Some (input_count gr, inputs gr)
                     \<and> (\<forall>sl \<in> set (inputs gr).
                           slot_closed {a. reach (net_of (heap w)) (set gs) a} sl)
                     \<and> signal gr = (\<not> list_all (slot_signal sg (heap w')) (inputs gr))))
               \<and> (\<forall>g. \<not> reach (net_of (heap w)) (set gs) g \<longrightarrow>
                     get_gate (heap w') g = get_gate (heap w) g)
               \<and> (\<forall>g a b i j. reach (net_of (heap w)) (set gs) g
                     \<and> net_of (heap w) g =
                         Some (2, [\<lparr>in_ptr = BoolPtr a, in_type = BOOLEAN_SIGNAL_INPUT, in_ind = i\<rparr>,
                                   \<lparr>in_ptr = BoolPtr b, in_type = BOOLEAN_SIGNAL_INPUT, in_ind = j\<rparr>])
                     \<longrightarrow> signal_of (heap w') g = (\<not> (sg a \<and> sg b))))"
proof -
  let ?N = "net_of (heap w)"
  let ?C = "{a. reach ?N (set gs) a}"
  note S = nand_evaluate_sound[OF wf ne len lv res]
  note O = nand_evaluate_outcome[OF wf ne len lv res]
  have 1: "r \<noteq> Undef \<and> r \<noteq> Errno EINVAL" using S(1,2) by simp
  have 2: "never_fails (alloc w) \<longrightarrow> ((\<exists>s c. r = Done (s, c)) \<longleftrightarrow> \<not> blocked ?N (set gs))"
    using O(5) by auto
  have 3: "s = map (signal_of (heap w')) gs
               \<and> (\<forall>g. reach ?N (set gs) g \<longrightarrow> (\<exists>gr.
                     get_gate (heap w') g = Some gr
                     \<and> ?N g = Some (input_count gr, inputs gr)
                     \<and> (\<forall>sl \<in> set (inputs gr). slot_closed ?C sl)
                     \<and> signal gr = (\<not> list_all (slot_signal sg (heap w')) (inputs gr))))
               \<and> (\<forall>g. \<not> reach ?N (set gs) g \<longrightarrow> get_gate (heap w') g = get_gate (heap w) g)
               \<and> (\<forall>g a b i j. reach ?N (set gs) g
                     \<and> ?N g =
                         Some (2, [\<lparr>in_ptr = BoolPtr a, in_type = BOOLEAN_SIGNAL_INPUT, in_ind = i\<rparr>,
                                   \<lparr>in_ptr = BoolPtr b, in_type = BOOLEAN_SIGNAL_INPUT, in_ind = j\<rparr>])
                     \<longrightarrow> signal_of (heap w') g = (\<not> (sg a \<and> sg b)))"
    if d: "r = Done (s, c)" for s c
  proof -
    from res d have res': "nand_evaluate w sg (map Some gs) = (Done (s, c), w')" by simp
    note D = nand_evaluate_done[OF wf ne len lv res']
    from D(3) have a: "s = map (signal_of (heap w')) gs" by simp
    have b: "\<forall>g. reach ?N (set gs) g \<longrightarrow> (\<exists>gr.
                     get_gate (heap w') g = Some gr
                     \<and> ?N g = Some (input_count gr, inputs gr)
                     \<and> (\<forall>sl \<in> set (inputs gr). slot_closed ?C sl)
                     \<and> signal gr = (\<not> list_all (slot_signal sg (heap w')) (inputs gr)))"
    proof (intro allI impI)
      fix g assume "reach ?N (set gs) g"
      then have "g \<in> ?C" by simp
      with D(1) obtain gr where gr: "get_gate (heap w') g = Some gr"
        "\<forall>sl \<in> set (inputs gr). slot_closed ?C sl" "gate_solved sg (heap w') gr"
        unfolding solved_def by blast
      from gr(1) have "net_of (heap w') g = Some (input_count gr, inputs gr)" by (simp add: net_of_def)
      with D(4) gr show "\<exists>gr. get_gate (heap w') g = Some gr
                     \<and> ?N g = Some (input_count gr, inputs gr)
                     \<and> (\<forall>sl \<in> set (inputs gr). slot_closed ?C sl)
                     \<and> signal gr = (\<not> list_all (slot_signal sg (heap w')) (inputs gr))"
        by (simp add: gate_solved_def)
    qed
    have e: "\<forall>g a b i j. reach ?N (set gs) g
                     \<and> ?N g =
                         Some (2, [\<lparr>in_ptr = BoolPtr a, in_type = BOOLEAN_SIGNAL_INPUT, in_ind = i\<rparr>,
                                   \<lparr>in_ptr = BoolPtr b, in_type = BOOLEAN_SIGNAL_INPUT, in_ind = j\<rparr>])
                     \<longrightarrow> signal_of (heap w') g = (\<not> (sg a \<and> sg b))"
    proof (intro allI impI)
      fix g a b i j
      assume h: "reach ?N (set gs) g
                     \<and> ?N g =
                         Some (2, [\<lparr>in_ptr = BoolPtr a, in_type = BOOLEAN_SIGNAL_INPUT, in_ind = i\<rparr>,
                                   \<lparr>in_ptr = BoolPtr b, in_type = BOOLEAN_SIGNAL_INPUT, in_ind = j\<rparr>])"
      with b obtain gr where gr: "get_gate (heap w') g = Some gr"
        "?N g = Some (input_count gr, inputs gr)"
        "signal gr = (\<not> list_all (slot_signal sg (heap w')) (inputs gr))" by blast
      from gr(2) h have "inputs gr = [\<lparr>in_ptr = BoolPtr a, in_type = BOOLEAN_SIGNAL_INPUT, in_ind = i\<rparr>,
                             \<lparr>in_ptr = BoolPtr b, in_type = BOOLEAN_SIGNAL_INPUT, in_ind = j\<rparr>]"
        by simp
      with gr(3) have "signal gr = (\<not> (sg a \<and> sg b))" by (simp add: slot_signal_def)
      with gr(1) show "signal_of (heap w') g = (\<not> (sg a \<and> sg b))" by (simp add: signal_of_def)
    qed
    from a b D(2) e show ?thesis by blast
  qed
  from 1 2 3 show ?thesis by blast
qed

text \<open>
  Gate \<open>0\<close> reads the signals \<open>0\<close> and \<open>1\<close>, gate \<open>1\<close> reads gate \<open>0\<close> and the signal \<open>2\<close>,
  gate \<open>2\<close> has no slot.  Gates \<open>0\<close> and \<open>2\<close> store values of some earlier state.
\<close>

definition nand_pair :: world where
  "nand_pair = \<lparr>heap =
     [Some \<lparr>crit_path_len = 7,
            inputs = [\<lparr>in_ptr = BoolPtr 0, in_type = BOOLEAN_SIGNAL_INPUT, in_ind = 0\<rparr>,
                      \<lparr>in_ptr = BoolPtr 1, in_type = BOOLEAN_SIGNAL_INPUT, in_ind = 0\<rparr>],
            outputs = [\<lparr>out_gate = 1, out_ind = 0\<rparr>],
            input_count = 2, status = NOT_VISITED, signal = True\<rparr>,
      Some \<lparr>crit_path_len = 0,
            inputs = [\<lparr>in_ptr = GatePtr 0, in_type = NAND_GATE_INPUT, in_ind = 0\<rparr>,
                      \<lparr>in_ptr = BoolPtr 2, in_type = BOOLEAN_SIGNAL_INPUT, in_ind = 0\<rparr>],
            outputs = [], input_count = 2, status = NOT_VISITED, signal = False\<rparr>,
      Some \<lparr>crit_path_len = 4, inputs = [], outputs = [], input_count = 0,
            status = NOT_VISITED, signal = True\<rparr>],
     alloc = []\<rparr>"

lemma nand_pair_well_formed: "well_formed (heap nand_pair)"
  by code_simp

lemma nand_pair_live: "live (heap nand_pair) [1]"
  by code_simp

lemma nand_pair_all: "nand_evaluate nand_pair sg (map Some [1]) = nand_evaluate_all nand_pair sg [1]"
  by (rule nand_evaluate_Some) simp_all

lemma nand_pair_tt: "fst (nand_evaluate_all nand_pair (\<lambda>b. True) [1]) = Done ([True], 2)"
  by code_simp

lemma nand_pair_tf: "fst (nand_evaluate_all nand_pair (\<lambda>b. b \<noteq> 1) [1]) = Done ([False], 2)"
  by code_simp

lemma nand_pair_ft: "fst (nand_evaluate_all nand_pair (\<lambda>b. b \<noteq> 0) [1]) = Done ([False], 2)"
  by code_simp

lemma nand_pair_ff: "fst (nand_evaluate_all nand_pair (\<lambda>b. b = 2) [1]) = Done ([False], 2)"
  by code_simp

lemma nand_pair_net: "net_of (heap nand_pair) 0 =
    Some (2, [\<lparr>in_ptr = BoolPtr 0, in_type = BOOLEAN_SIGNAL_INPUT, in_ind = 0\<rparr>,
              \<lparr>in_ptr = BoolPtr 1, in_type = BOOLEAN_SIGNAL_INPUT, in_ind = 0\<rparr>])"
  by (simp add: nand_pair_def net_of_def get_gate_def)

lemma nand_pair_reach: "reach (net_of (heap nand_pair)) (set [1]) 0"
proof -
  have "src (net_of (heap nand_pair)) 1 0"
    unfolding src_def
    by (rule exI[of _ 2], rule exI[of _ "[\<lparr>in_ptr = GatePtr 0, in_type = NAND_GATE_INPUT, in_ind = 0\<rparr>,
                      \<lparr>in_ptr = BoolPtr 2, in_type = BOOLEAN_SIGNAL_INPUT, in_ind = 0\<rparr>]"],
        rule exI[of _ 0]) (simp add: nand_pair_def net_of_def get_gate_def)
  then show ?thesis unfolding reach_def by auto
qed

theorem evaluate_signal_is_nand_witness:
  "well_formed (heap nand_pair) \<and> live (heap nand_pair) [1]
   \<and> signal_of (heap nand_pair) 0 = True
   \<and> fst (nand_evaluate nand_pair (\<lambda>b. True) [Some 1]) = Done ([True], 2)
   \<and> signal_of (heap (snd (nand_evaluate nand_pair (\<lambda>b. True) [Some 1]))) 0 = False
   \<and> signal_of (heap (snd (nand_evaluate nand_pair (\<lambda>b. True) [Some 1]))) 1 = True
   \<and> fst (nand_evaluate nand_pair (\<lambda>b. b \<noteq> 1) [Some 1]) = Done ([False], 2)
   \<and> signal_of (heap (snd (nand_evaluate nand_pair (\<lambda>b. b \<noteq> 1) [Some 1]))) 0 = True
   \<and> fst (nand_evaluate nand_pair (\<lambda>b. b \<noteq> 0) [Some 1]) = Done ([False], 2)
   \<and> signal_of (heap (snd (nand_evaluate nand_pair (\<lambda>b. b \<noteq> 0) [Some 1]))) 0 = True
   \<and> fst (nand_evaluate nand_pair (\<lambda>b. b = 2) [Some 1]) = Done ([False], 2)
   \<and> signal_of (heap (snd (nand_evaluate nand_pair (\<lambda>b. b = 2) [Some 1]))) 0 = True"
proof -
  have ne: "[1::nat] \<noteq> []" and len: "length [1::nat] < 2 ^ 32" by simp_all
  have v: "signal_of (heap (snd (nand_evaluate nand_pair sg [Some 1]))) 0 = (\<not> (sg 0 \<and> sg 1))
           \<and> [x] = map (signal_of (heap (snd (nand_evaluate nand_pair sg [Some 1])))) [1]"
    if f: "fst (nand_evaluate_all nand_pair sg [1]) = Done ([x], c)" for sg x c
  proof -
    let ?w' = "snd (nand_evaluate nand_pair sg [Some 1])"
    from f nand_pair_all[of sg]
    have r: "nand_evaluate nand_pair sg (map Some [1]) = (Done ([x], c), ?w')"
      by (simp add: prod_eq_iff)
    note T = evaluate_signal_is_nand[OF nand_pair_well_formed ne len nand_pair_live r]
    from T have a: "[x] = map (signal_of (heap ?w')) [1]" by blast
    from T have "\<forall>g a b i j. reach (net_of (heap nand_pair)) (set [1]) g
                     \<and> net_of (heap nand_pair) g =
                         Some (2, [\<lparr>in_ptr = BoolPtr a, in_type = BOOLEAN_SIGNAL_INPUT, in_ind = i\<rparr>,
                                   \<lparr>in_ptr = BoolPtr b, in_type = BOOLEAN_SIGNAL_INPUT, in_ind = j\<rparr>])
                     \<longrightarrow> signal_of (heap ?w') g = (\<not> (sg a \<and> sg b))" by blast
    from this[rule_format, OF conjI[OF nand_pair_reach nand_pair_net]] a show ?thesis by simp
  qed
  have old: "signal_of (heap nand_pair) 0 = True"
    by (simp add: nand_pair_def signal_of_def get_gate_def)
  from v[OF nand_pair_tt] v[OF nand_pair_tf] v[OF nand_pair_ft] v[OF nand_pair_ff]
    nand_pair_tt nand_pair_tf nand_pair_ft nand_pair_ff nand_pair_all
    nand_pair_well_formed nand_pair_live old
  show ?thesis by simp
qed


section \<open>The critical path after an evaluation\<close>

text \<open>
  C3: after a successful evaluation of fewer than \<open>2 ^ 32\<close> live gates of a well-formed
  store, the critical path stored in a gate of the dependency closure is \<open>0\<close> when the
  gate has no slot and otherwise the greatest delay of its slots, where a signal source
  has delay \<open>1\<close> and a gate source one more than the critical path stored in the source
  gate; it is \<open>1\<close> when the gate has a slot and all its slots are signal sources, and
  it is \<open>k\<close> for the last gate of a chain of \<open>k\<close> gates.  The returned length is the
  greatest critical path of the requested gates.  The evaluation never leaves the
  defined behaviour, and when no allocation fails it succeeds exactly when the closure
  is not blocked.
\<close>

theorem evaluate_critical_path:
  assumes wf: "well_formed (heap w)" and ne: "gs \<noteq> []" and len: "length gs < 2 ^ 32"
    and lv: "live (heap w) gs"
    and res: "nand_evaluate w sg (map Some gs) = (r, w')"
  shows "r \<noteq> Undef \<and> r \<noteq> Errno EINVAL
         \<and> (never_fails (alloc w) \<longrightarrow>
              ((\<exists>s c. r = Done (s, c)) \<longleftrightarrow> \<not> blocked (net_of (heap w)) (set gs)))
         \<and> (\<forall>s c. r = Done (s, c) \<longrightarrow>
               c = Max (insert 0 (crit_of (heap w') ` set gs))
               \<and> (\<forall>g. reach (net_of (heap w)) (set gs) g \<longrightarrow> (\<exists>gr.
                     get_gate (heap w') g = Some gr
                     \<and> net_of (heap w) g = Some (input_count gr, inputs gr)
                     \<and> (\<forall>sl \<in> set (inputs gr).
                           slot_closed {a. reach (net_of (heap w)) (set gs) a} sl)
                     \<and> crit_path_len gr =
                         (if input_count gr = 0 then 0
                          else Max (slot_delay (heap w') ` set (inputs gr)))
                     \<and> (signal_fed gr \<longrightarrow> crit_path_len gr = 1)))
               \<and> (\<forall>ch. is_chain (heap w) ch \<and> reach (net_of (heap w)) (set gs) (hd ch)
                     \<longrightarrow> crit_of (heap w') (hd ch) = int (length ch)))"
proof -
  let ?N = "net_of (heap w)"
  let ?C = "{a. reach ?N (set gs) a}"
  note S = nand_evaluate_sound[OF wf ne len lv res]
  note O = nand_evaluate_outcome[OF wf ne len lv res]
  have 1: "r \<noteq> Undef \<and> r \<noteq> Errno EINVAL" using S(1,2) by simp
  have 2: "never_fails (alloc w) \<longrightarrow> ((\<exists>s c. r = Done (s, c)) \<longleftrightarrow> \<not> blocked ?N (set gs))"
    using O(5) by auto
  have 3: "c = Max (insert 0 (crit_of (heap w') ` set gs))
               \<and> (\<forall>g. reach ?N (set gs) g \<longrightarrow> (\<exists>gr.
                     get_gate (heap w') g = Some gr
                     \<and> ?N g = Some (input_count gr, inputs gr)
                     \<and> (\<forall>sl \<in> set (inputs gr). slot_closed ?C sl)
                     \<and> crit_path_len gr =
                         (if input_count gr = 0 then 0
                          else Max (slot_delay (heap w') ` set (inputs gr)))
                     \<and> (signal_fed gr \<longrightarrow> crit_path_len gr = 1)))
               \<and> (\<forall>ch. is_chain (heap w) ch \<and> reach ?N (set gs) (hd ch)
                     \<longrightarrow> crit_of (heap w') (hd ch) = int (length ch))"
    if d: "r = Done (s, c)" for s c
  proof -
    from res d have res': "nand_evaluate w sg (map Some gs) = (Done (s, c), w')" by simp
    note D = nand_evaluate_done[OF wf ne len lv res']
    from D(3) have a: "c = Max (insert 0 (crit_of (heap w') ` set gs))"
      by (simp add: foldl_max_Max)
    have b: "\<forall>g. reach ?N (set gs) g \<longrightarrow> (\<exists>gr.
                     get_gate (heap w') g = Some gr
                     \<and> ?N g = Some (input_count gr, inputs gr)
                     \<and> (\<forall>sl \<in> set (inputs gr). slot_closed ?C sl)
                     \<and> crit_path_len gr =
                         (if input_count gr = 0 then 0
                          else Max (slot_delay (heap w') ` set (inputs gr)))
                     \<and> (signal_fed gr \<longrightarrow> crit_path_len gr = 1))"
    proof (intro allI impI)
      fix g assume "reach ?N (set gs) g"
      then have g: "g \<in> ?C" by simp
      with D(1) obtain gr where gr: "get_gate (heap w') g = Some gr"
        "length (inputs gr) = input_count gr"
        "\<forall>sl \<in> set (inputs gr). slot_closed ?C sl"
        unfolding solved_def by blast
      from gr(1) have n: "net_of (heap w') g = Some (input_count gr, inputs gr)"
        by (simp add: net_of_def)
      from gr(2) have e: "input_count gr = 0 \<longleftrightarrow> inputs gr = []" by auto
      from solved_crit[OF D(1) g gr(1)] e
      have cr: "crit_path_len gr =
                   (if input_count gr = 0 then 0 else Max (slot_delay (heap w') ` set (inputs gr)))"
        by simp
      have sf: "signal_fed gr \<longrightarrow> crit_path_len gr = 1"
        using solved_signal_fed[OF D(1) g gr(1)] by blast
      from gr(1) n D(4) gr(3) cr sf
      show "\<exists>gr. get_gate (heap w') g = Some gr
                     \<and> ?N g = Some (input_count gr, inputs gr)
                     \<and> (\<forall>sl \<in> set (inputs gr). slot_closed ?C sl)
                     \<and> crit_path_len gr =
                         (if input_count gr = 0 then 0
                          else Max (slot_delay (heap w') ` set (inputs gr)))
                     \<and> (signal_fed gr \<longrightarrow> crit_path_len gr = 1)"
        by simp
    qed
    have e: "\<forall>ch. is_chain (heap w) ch \<and> reach ?N (set gs) (hd ch)
               \<longrightarrow> crit_of (heap w') (hd ch) = int (length ch)"
      using chain_crit[OF D(1) _ D(4)] by blast
    from a b e show ?thesis by blast
  qed
  from 1 2 3 show ?thesis by blast
qed

text \<open>
  Three gates in a chain; gate \<open>1\<close> has a second slot tied to a signal, and the gates
  store lengths of some earlier state.
\<close>

definition chain3 :: world where
  "chain3 = \<lparr>heap =
     [Some \<lparr>crit_path_len = 9,
            inputs = [\<lparr>in_ptr = BoolPtr 0, in_type = BOOLEAN_SIGNAL_INPUT, in_ind = 0\<rparr>],
            outputs = [\<lparr>out_gate = 1, out_ind = 0\<rparr>],
            input_count = 1, status = NOT_VISITED, signal = False\<rparr>,
      Some \<lparr>crit_path_len = 0,
            inputs = [\<lparr>in_ptr = GatePtr 0, in_type = NAND_GATE_INPUT, in_ind = 0\<rparr>,
                      \<lparr>in_ptr = BoolPtr 1, in_type = BOOLEAN_SIGNAL_INPUT, in_ind = 0\<rparr>],
            outputs = [\<lparr>out_gate = 2, out_ind = 0\<rparr>],
            input_count = 2, status = NOT_VISITED, signal = False\<rparr>,
      Some \<lparr>crit_path_len = 6,
            inputs = [\<lparr>in_ptr = GatePtr 1, in_type = NAND_GATE_INPUT, in_ind = 0\<rparr>],
            outputs = [],
            input_count = 1, status = NOT_VISITED, signal = True\<rparr>],
     alloc = []\<rparr>"

lemma chain3_well_formed: "well_formed (heap chain3)"
  by code_simp

lemma chain3_live: "live (heap chain3) [2]"
  by code_simp

lemma chain3_all: "nand_evaluate chain3 sg (map Some [2]) = nand_evaluate_all chain3 sg [2]"
  by (rule nand_evaluate_Some) simp_all

lemma chain3_result: "fst (nand_evaluate_all chain3 (\<lambda>b. True) [2]) = Done ([False], 3)"
  by code_simp

lemma chain3_is_chain: "is_chain (heap chain3) [2, 1, 0]"
  by code_simp

theorem evaluate_critical_path_witness:
  "well_formed (heap chain3) \<and> live (heap chain3) [2] \<and> is_chain (heap chain3) [2, 1, 0]
   \<and> crit_of (heap chain3) 2 = 6
   \<and> fst (nand_evaluate chain3 (\<lambda>b. True) [Some 2]) = Done ([False], 3)
   \<and> crit_of (heap (snd (nand_evaluate chain3 (\<lambda>b. True) [Some 2]))) 2 = 3"
proof -
  let ?sg = "\<lambda>b::nat. True"
  let ?w' = "snd (nand_evaluate chain3 ?sg [Some 2])"
  have ne: "[2::nat] \<noteq> []" and len: "length [2::nat] < 2 ^ 32" by simp_all
  from chain3_result chain3_all[of ?sg]
  have r: "nand_evaluate chain3 ?sg (map Some [2]) = (Done ([False], 3), ?w')"
    by (simp add: prod_eq_iff)
  note T = evaluate_critical_path[OF chain3_well_formed ne len chain3_live r]
  from T have "\<forall>ch. is_chain (heap chain3) ch \<and> reach (net_of (heap chain3)) (set [2]) (hd ch)
                     \<longrightarrow> crit_of (heap ?w') (hd ch) = int (length ch)" by blast
  from this[rule_format, of "[2, 1, 0]"] chain3_is_chain reach_self[of 2 "set [2]"]
  have c: "crit_of (heap ?w') 2 = 3" by simp
  have old: "crit_of (heap chain3) 2 = 6" by (simp add: chain3_def crit_of_def get_gate_def)
  from chain3_result chain3_all[of ?sg]
  have f: "fst (nand_evaluate chain3 ?sg [Some 2]) = Done ([False], 3)" by simp
  from chain3_well_formed chain3_live chain3_is_chain old f c show ?thesis by blast
qed


section \<open>An evaluation keeps the store well formed\<close>

text \<open>
  The evaluation pass writes the signal and the critical path of a gate and nothing
  else.  \<open>erase_values\<close> forgets these two fields.
\<close>

definition erase_values :: "heap \<Rightarrow> heap" where
  "erase_values h = map (map_option (\<lambda>g. g\<lparr>crit_path_len := 0, signal := False\<rparr>)) h"

lemma erase_values_get:
  "get_gate (erase_values h) a
     = map_option (\<lambda>g. g\<lparr>crit_path_len := 0, signal := False\<rparr>) (get_gate h a)"
  by (simp add: erase_values_def get_gate_def)

lemma erase_values_upd:
  assumes "get_gate h a = Some gr"
    and "gr'\<lparr>crit_path_len := 0, signal := False\<rparr> = gr\<lparr>crit_path_len := 0, signal := False\<rparr>"
  shows "erase_values (set_gate h a gr') = erase_values h"
proof -
  have a: "a < length h" and e: "h ! a = Some gr"
    using assms by (auto simp: get_gate_def split: if_splits)
  show ?thesis
    unfolding erase_values_def set_gate_def
    by (rule nth_equalityI) (use a e assms(2) in \<open>auto simp: nth_list_update\<close>)
qed

lemma evaluate_input_links:
  assumes "evaluate_input sg g i h = Some h'"
  shows "erase_values h' = erase_values h"
  using assms
  by (auto simp: evaluate_input_def erase_values_upd split: Option.bind_splits if_splits ptr.splits)

lemma evaluate_inputs_links:
  "evaluate_inputs sg g js h = Some h' \<Longrightarrow> erase_values h' = erase_values h"
proof (induction js arbitrary: h)
  case Nil
  then show ?case by simp
next
  case (Cons j js)
  then obtain h1 where h1: "evaluate_input sg g j h = Some h1" "evaluate_inputs sg g js h1 = Some h'"
    by (auto split: option.splits)
  from Cons.IH[OF h1(2)] evaluate_input_links[OF h1(1)] show ?case by simp
qed

lemma evaluate_gate_links:
  assumes "evaluate_gate sg g h = Some h'"
  shows "erase_values h' = erase_values h"
proof -
  from assms obtain gr where gr: "get_gate h g = Some gr"
    by (cases "get_gate h g") (simp_all add: evaluate_gate_def)
  let ?h0 = "set_gate h g (gr\<lparr>crit_path_len := 0, signal := True\<rparr>)"
  from assms gr obtain h1 where h1: "evaluate_inputs sg g [0..<input_count gr] ?h0 = Some h1"
    by (cases "evaluate_inputs sg g [0..<input_count gr] ?h0") (simp_all add: evaluate_gate_def)
  from assms gr h1 obtain gr1 where gr1: "get_gate h1 g = Some gr1"
    and h': "h' = set_gate h1 g (gr1\<lparr>signal := \<not> signal gr1\<rparr>)"
    by (cases "get_gate h1 g") (simp_all add: evaluate_gate_def)
  from h' erase_values_upd[OF gr1, of "gr1\<lparr>signal := \<not> signal gr1\<rparr>"]
  have "erase_values h' = erase_values h1" by simp
  moreover from erase_values_upd[OF gr, of "gr\<lparr>crit_path_len := 0, signal := True\<rparr>"]
  have "erase_values ?h0 = erase_values h" by simp
  ultimately show ?thesis using evaluate_inputs_links[OF h1] by simp
qed

lemma evaluate_sorted_links:
  "evaluate_sorted sg T h = Some h' \<Longrightarrow> erase_values h' = erase_values h"
proof (induction T arbitrary: h)
  case Nil
  then show ?case by simp
next
  case (Cons g T)
  then obtain h1 where h1: "evaluate_gate sg g h = Some h1" "evaluate_sorted sg T h1 = Some h'"
    by (auto split: option.splits)
  from Cons.IH[OF h1(2)] evaluate_gate_links[OF h1(1)] show ?case by simp
qed

lemma erase_values_all:
  "(\<forall>a g. get_gate (erase_values h) a = Some g \<longrightarrow> P a g)
   \<longleftrightarrow> (\<forall>a g. get_gate h a = Some g \<longrightarrow> P a (g\<lparr>crit_path_len := 0, signal := False\<rparr>))"
  unfolding erase_values_get
proof (intro iffI allI impI)
  fix a g
  assume H: "\<forall>a g. map_option (\<lambda>g. g\<lparr>crit_path_len := 0, signal := False\<rparr>) (get_gate h a) = Some g
               \<longrightarrow> P a g"
    and g: "get_gate h a = Some g"
  from g have "map_option (\<lambda>g. g\<lparr>crit_path_len := 0, signal := False\<rparr>) (get_gate h a)
      = Some (g\<lparr>crit_path_len := 0, signal := False\<rparr>)" by simp
  with H show "P a (g\<lparr>crit_path_len := 0, signal := False\<rparr>)" by blast
next
  fix a g
  assume H: "\<forall>a g. get_gate h a = Some g \<longrightarrow> P a (g\<lparr>crit_path_len := 0, signal := False\<rparr>)"
    and g: "map_option (\<lambda>g. g\<lparr>crit_path_len := 0, signal := False\<rparr>) (get_gate h a) = Some g"
  then obtain z where "get_gate h a = Some z" "g = z\<lparr>crit_path_len := 0, signal := False\<rparr>" by auto
  with H show "P a g" by blast
qed

lemma erase_values_pairing: "pairing_ex X (erase_values h) \<longleftrightarrow> pairing_ex X h"
proof -
  let ?e = "\<lambda>g::nand_t. g\<lparr>crit_path_len := 0, signal := False\<rparr>"
  let ?Q = "\<lambda>a (g::nand_t). length (inputs g) = input_count g
        \<and> (\<forall>k < input_count g. slot_paired h a k (inputs g ! k))
        \<and> (\<forall>i < length (outputs g). (a, i) \<notin> X \<longrightarrow> record_paired h a i (outputs g ! i))"
  have sp: "slot_paired (erase_values h) a k sl \<longleftrightarrow> slot_paired h a k sl" for a k sl
    by (auto simp: slot_paired_def erase_values_get split: ptr.splits option.splits)
  have rp: "record_paired (erase_values h) a i r \<longleftrightarrow> record_paired h a i r" for a i r
    by (auto simp: record_paired_def erase_values_get split: option.splits)
  have Q: "?Q a (?e g) \<longleftrightarrow> ?Q a g" for a g by simp
  have "pairing_ex X (erase_values h) \<longleftrightarrow> (\<forall>a g. get_gate (erase_values h) a = Some g \<longrightarrow> ?Q a g)"
    unfolding pairing_ex_def sp rp ..
  also have "\<dots> \<longleftrightarrow> (\<forall>a g. get_gate h a = Some g \<longrightarrow> ?Q a (?e g))"
    by (rule erase_values_all)
  also have "\<dots> \<longleftrightarrow> (\<forall>a g. get_gate h a = Some g \<longrightarrow> ?Q a g)"
    unfolding Q ..
  also have "\<dots> \<longleftrightarrow> pairing_ex X h" unfolding pairing_ex_def ..
  finally show ?thesis .
qed

lemma erase_values_typed: "signals_typed (erase_values h) \<longleftrightarrow> signals_typed h"
  unfolding signals_typed_def erase_values_def list_all_iff
  by (auto split: option.splits)

lemma erase_values_unvisited: "unvisited (erase_values h) \<longleftrightarrow> unvisited h"
  unfolding unvisited_def erase_values_def list_all_iff
  by (auto split: option.splits)

lemma well_formed_links:
  assumes "erase_values h' = erase_values h"
  shows "well_formed h' \<longleftrightarrow> well_formed h"
proof -
  have "well_formed h' \<longleftrightarrow> well_formed (erase_values h')"
    by (simp add: well_formed_def pairing_iff erase_values_pairing erase_values_typed
        erase_values_unvisited)
  also have "\<dots> \<longleftrightarrow> well_formed (erase_values h)" using assms by simp
  also have "\<dots> \<longleftrightarrow> well_formed h"
    by (simp add: well_formed_def pairing_iff erase_values_pairing erase_values_typed
        erase_values_unvisited)
  finally show ?thesis .
qed


lemma erase_values_net:
  assumes "erase_values h' = erase_values h"
  shows "net_of h' = net_of h"
proof
  fix a
  have e: "get_gate (erase_values h') a = get_gate (erase_values h) a" using assms by simp
  show "net_of h' a = net_of h a"
  proof (cases "get_gate h a")
    case None
    with e have "get_gate h' a = None" by (simp add: erase_values_get)
    with None show ?thesis by (simp add: net_of_def)
  next
    case (Some g)
    with e obtain g' where g': "get_gate h' a = Some g'"
      by (cases "get_gate h' a") (simp_all add: erase_values_get)
    from e Some g' have eq: "g'\<lparr>crit_path_len := 0, signal := False\<rparr> = g\<lparr>crit_path_len := 0, signal := False\<rparr>"
      by (simp add: erase_values_get)
    have "inputs g' = inputs (g'\<lparr>crit_path_len := 0, signal := False\<rparr>)"
      "input_count g' = input_count (g'\<lparr>crit_path_len := 0, signal := False\<rparr>)" by simp_all
    then have "inputs g' = inputs g" "input_count g' = input_count g" unfolding eq by simp_all
    with Some g' show ?thesis by (simp add: net_of_def)
  qed
qed

lemma erase_values_live:
  assumes "erase_values h' = erase_values h"
  shows "live h' gs \<longleftrightarrow> live h gs"
proof -
  have "get_gate h' a = None \<longleftrightarrow> get_gate h a = None" for a
  proof -
    have "get_gate (erase_values h') a = get_gate (erase_values h) a" using assms by simp
    then show ?thesis by (auto simp: erase_values_get)
  qed
  then show ?thesis by (simp add: live_def)
qed

lemma nand_evaluate_all_links:
  assumes nok: "net_ok (net_of (heap w))" and u: "unvisited (heap w)"
    and v: "\<forall>g \<in> set gs. get_gate (heap w) g \<noteq> None"
    and res: "nand_evaluate_all w sg gs = (r, w')"
  shows "erase_values (heap w') = erase_values (heap w)"
proof (cases "alloc_ok (alloc w)")
  case False
  with res have "heap w' = heap w" by (auto simp: nand_evaluate_all_def)
  then show ?thesis by simp
next
  case True
  let ?w0 = "w\<lparr>alloc := tl (alloc w)\<rparr>"
  obtain r1 w1 T where t: "topo_sort ?w0 gs [] = (r1, w1, T)" by (cases "topo_sort ?w0 gs []") auto
  have nok0: "net_ok (net_of (heap ?w0))" and u0: "unvisited (heap ?w0)"
    and v0: "\<forall>g \<in> set gs. get_gate (heap ?w0) g \<noteq> None"
    using nok u v by simp_all
  from topo_sort_inv[OF nok0 u0 v0 t] have h1: "heap w1 = heap w" by simp
  show ?thesis
  proof (cases r1)
    case Undef
    with True t res have "w' = w1" by (simp add: nand_evaluate_all_def)
    with h1 show ?thesis by simp
  next
    case (Errno e)
    with True t res have "w' = w1" by (simp add: nand_evaluate_all_def)
    with h1 show ?thesis by simp
  next
    case (Done x1)
    show ?thesis
    proof (cases "evaluate_sorted sg T (heap w1)")
      case None
      with Done True t res have "w' = w1" by (simp add: nand_evaluate_all_def)
      with h1 show ?thesis by simp
    next
      case (Some h)
      note L = evaluate_sorted_links[OF Some]
      show ?thesis
      proof (cases "collect_results h gs 0")
        case None
        with Some Done True t res have "w' = w1" by (simp add: nand_evaluate_all_def)
        with h1 show ?thesis by simp
      next
        case (Some y)
        with \<open>evaluate_sorted sg T (heap w1) = Some h\<close> Done True t res
        have "w' = w1\<lparr>heap := h\<rparr>" by (simp add: nand_evaluate_all_def)
        with L h1 show ?thesis by simp
      qed
    qed
  qed
qed

text \<open>An evaluation leaves a well-formed store well formed, with the same gates and links.\<close>

lemma nand_evaluate_links:
  assumes wf: "well_formed (heap w)" and ne: "gs \<noteq> []" and len: "length gs < 2 ^ 32"
    and lv: "live (heap w) gs"
    and res: "nand_evaluate w sg (map Some gs) = (r, w')"
  shows "erase_values (heap w') = erase_values (heap w)" "well_formed (heap w')"
    "live (heap w') gs"
proof -
  from wf have nok: "net_ok (net_of (heap w))" by (rule well_formed_net_ok)
  from wf have u: "unvisited (heap w)" by (simp add: well_formed_def)
  from lv have v: "\<forall>g \<in> set gs. get_gate (heap w) g \<noteq> None" by (simp add: live_def list_all_iff)
  from res ne len have res': "nand_evaluate_all w sg gs = (r, w')" by (simp add: nand_evaluate_Some)
  show e: "erase_values (heap w') = erase_values (heap w)"
    by (rule nand_evaluate_all_links[OF nok u v res'])
  from well_formed_links[OF e] wf show "well_formed (heap w')" by simp
  from erase_values_live[OF e] lv show "live (heap w') gs" by simp
qed

text \<open>
  Two evaluations under the same signals, the second in a store with the gates and
  links of the first and for the same set of gates: neither succeeds where the other
  is cancelled, and if both succeed they leave the same values in the closure.
\<close>

lemma second_evaluation:
  assumes wf: "well_formed (heap w)" and ne: "gs \<noteq> []" and len: "length gs < 2 ^ 32"
    and lv: "live (heap w) gs"
    and res: "nand_evaluate w sg (map Some gs) = (r, w1)"
    and same: "erase_values (heap w2) = erase_values (heap w)"
    and ne': "gs' \<noteq> []" and len': "length gs' < 2 ^ 32" and set: "set gs' = set gs"
    and res': "nand_evaluate w2 sg (map Some gs') = (r', w2')"
  shows "r' \<noteq> Undef" "r' \<noteq> Errno EINVAL"
    "\<And>x. r = Done x \<Longrightarrow> r' \<noteq> Errno ECANCELED"
    "\<And>x'. r = Errno ECANCELED \<Longrightarrow> r' \<noteq> Done x'"
    "\<And>x x' a. r = Done x \<Longrightarrow> r' = Done x' \<Longrightarrow> reach (net_of (heap w)) (set gs) a
       \<Longrightarrow> signal_of (heap w2') a = signal_of (heap w1) a \<and> crit_of (heap w2') a = crit_of (heap w1) a"
    "never_fails (alloc w2) \<Longrightarrow> r' \<noteq> Errno ENOMEM"
proof -
  let ?N = "net_of (heap w)"
  from well_formed_links[OF same] wf have wf2: "well_formed (heap w2)" by simp
  from erase_values_net[OF same] have N2: "net_of (heap w2) = ?N" .
  from lv have "live (heap w) gs'" using set by (simp add: live_def list_all_iff)
  with erase_values_live[OF same] have lv2: "live (heap w2) gs'" by simp
  note S1 = nand_evaluate_sound[OF wf ne len lv res]
  note O1 = nand_evaluate_outcome[OF wf ne len lv res]
  note S2 = nand_evaluate_sound[OF wf2 ne' len' lv2 res']
  note O2 = nand_evaluate_outcome[OF wf2 ne' len' lv2 res']
  show "r' \<noteq> Undef" "r' \<noteq> Errno EINVAL" by (rule S2(1), rule S2(2))
  show "r' \<noteq> Errno ECANCELED" if "r = Done x" for x
    using O1(2)[OF that] O2(3) N2 set by auto
  show "r' \<noteq> Done x'" if "r = Errno ECANCELED" for x'
    using O1(3)[OF that] O2(2)[of x'] N2 set by auto
  show "never_fails (alloc w2) \<Longrightarrow> r' \<noteq> Errno ENOMEM" using S2(7) by simp
  show "signal_of (heap w2') a = signal_of (heap w1) a \<and> crit_of (heap w2') a = crit_of (heap w1) a"
    if d: "r = Done x" and d': "r' = Done x'" and a: "reach ?N (set gs) a" for x x' a
  proof -
    from res d have r1: "nand_evaluate w sg (map Some gs) = (Done x, w1)" by simp
    from res' d' have r2: "nand_evaluate w2 sg (map Some gs') = (Done x', w2')" by simp
    note D1 = nand_evaluate_done[OF wf ne len lv r1]
    note D2 = nand_evaluate_done[OF wf2 ne' len' lv2 r2]
    let ?C = "{a. reach ?N (set gs) a}"
    let ?L = "rev (evaluation_order w gs)"
    from S1(6)[OF d] have to: "topo_ok ?N ?L" by simp
    from evaluation_order_closure[OF wf ne len lv r1] have L: "set ?L = ?C" by simp
    from to D1(4) have to1: "topo_ok (net_of (heap w1)) ?L" by simp
    from D2(4) N2 D1(4) have N: "net_of (heap w2') = net_of (heap w1)" by simp
    from D2(1) N2 set have so2: "solved sg (heap w2') ?C" by simp
    from solved_unique[OF to1 N D1(1) so2] L a show ?thesis by auto
  qed
qed


section \<open>Traversal marks are cleared and evaluation is repeatable\<close>

text \<open>
  C5: whatever the outcome of an evaluation of fewer than \<open>2 ^ 32\<close> live gates of a
  well-formed store (success, \<open>ECANCELED\<close> for a cycle or an empty slot, \<open>ENOMEM\<close>),
  the call stays within the defined behaviour and no gate carries a traversal mark
  afterwards; the store is well formed again, and after a failure it is the store from
  before the call.  A second evaluation of the same gates under the same signals in
  the store left by a successful first one can only fail for lack of memory and
  otherwise returns the same signals and the same length; after a cancelled first
  evaluation the second cannot succeed.
\<close>

theorem evaluate_restores_statuses:
  assumes wf: "well_formed (heap w)" and ne: "gs \<noteq> []" and len: "length gs < 2 ^ 32"
    and lv: "live (heap w) gs"
    and res: "nand_evaluate w sg (map Some gs) = (r, w')"
  shows "r \<noteq> Undef
         \<and> unvisited (heap w') \<and> well_formed (heap w') \<and> live (heap w') gs
         \<and> (\<forall>e. r = Errno e \<longrightarrow> heap w' = heap w)
         \<and> (never_fails (alloc w) \<longrightarrow> never_fails (alloc w'))
         \<and> (\<forall>r2 w2. nand_evaluate w' sg (map Some gs) = (r2, w2) \<longrightarrow>
               r2 \<noteq> Undef \<and> unvisited (heap w2)
               \<and> (\<forall>x. r = Done x \<longrightarrow>
                     (r2 = Done x \<or> r2 = Errno ENOMEM)
                     \<and> (never_fails (alloc w') \<longrightarrow> r2 = Done x))
               \<and> (r = Errno ECANCELED \<longrightarrow> r2 = Errno ECANCELED \<or> r2 = Errno ENOMEM))"
proof -
  note S = nand_evaluate_sound[OF wf ne len lv res]
  note K = nand_evaluate_links[OF wf ne len lv res]
  have 2: "r2 \<noteq> Undef \<and> unvisited (heap w2)
               \<and> (\<forall>x. r = Done x \<longrightarrow>
                     (r2 = Done x \<or> r2 = Errno ENOMEM)
                     \<and> (never_fails (alloc w') \<longrightarrow> r2 = Done x))
               \<and> (r = Errno ECANCELED \<longrightarrow> r2 = Errno ECANCELED \<or> r2 = Errno ENOMEM)"
    if res2: "nand_evaluate w' sg (map Some gs) = (r2, w2)" for r2 w2
  proof -
    note S2 = nand_evaluate_sound[OF K(2) ne len K(3) res2]
    note O2 = nand_evaluate_outcome[OF K(2) ne len K(3) res2]
    note T = second_evaluation[OF wf ne len lv res K(1) ne len refl res2]
    have a: "(r2 = Done x \<or> r2 = Errno ENOMEM) \<and> (never_fails (alloc w') \<longrightarrow> r2 = Done x)"
      if d: "r = Done x" for x
    proof -
      from res d have r1: "nand_evaluate w sg (map Some gs) = (Done x, w')" by simp
      note D1 = nand_evaluate_done[OF wf ne len lv r1]
      have e: "x2 = x" if d2: "r2 = Done x2" for x2
      proof -
        from res2 d2 have r2': "nand_evaluate w' sg (map Some gs) = (Done x2, w2)" by simp
        note D2 = nand_evaluate_done[OF K(2) ne len K(3) r2']
        have "\<forall>g \<in> set gs. signal_of (heap w2) g = signal_of (heap w') g
                             \<and> crit_of (heap w2) g = crit_of (heap w') g"
          using T(5)[OF d d2] D1(5) by blast
        then have "map (signal_of (heap w2)) gs = map (signal_of (heap w')) gs"
          "map (crit_of (heap w2)) gs = map (crit_of (heap w')) gs" by simp_all
        with D1(3) D2(3) show ?thesis by simp
      qed
      from O2(1) T(3)[OF d] e have c: "r2 = Done x \<or> r2 = Errno ENOMEM" by blast
      with T(6) show ?thesis by blast
    qed
    have b: "r2 = Errno ECANCELED \<or> r2 = Errno ENOMEM" if "r = Errno ECANCELED"
      using O2(1) T(4)[OF that] by blast
    from S2(1) S2(3) a b show ?thesis by blast
  qed
  from S(1) S(3) K(2) K(3) S(5) S(7) 2 show ?thesis by blast
qed

text \<open>A gate wired to itself, and a gate with an empty slot.\<close>

definition self_loop :: world where
  "self_loop = \<lparr>heap =
     [Some \<lparr>crit_path_len = 0,
            inputs = [\<lparr>in_ptr = GatePtr 0, in_type = NAND_GATE_INPUT, in_ind = 0\<rparr>],
            outputs = [\<lparr>out_gate = 0, out_ind = 0\<rparr>],
            input_count = 1, status = NOT_VISITED, signal = False\<rparr>],
     alloc = []\<rparr>"

definition open_input :: world where
  "open_input = \<lparr>heap =
     [Some \<lparr>crit_path_len = 0,
            inputs = [\<lparr>in_ptr = BoolPtr 0, in_type = BOOLEAN_SIGNAL_INPUT, in_ind = 0\<rparr>,
                      \<lparr>in_ptr = NULL, in_type = EMPTY_INPUT, in_ind = 0\<rparr>],
            outputs = [], input_count = 2, status = NOT_VISITED, signal = False\<rparr>],
     alloc = []\<rparr>"

lemma self_loop_well_formed: "well_formed (heap self_loop)"
  by code_simp

lemma open_input_well_formed: "well_formed (heap open_input)"
  by code_simp

lemma self_loop_all: "nand_evaluate self_loop sg (map Some [0]) = nand_evaluate_all self_loop sg [0]"
  by (rule nand_evaluate_Some) simp_all

lemma open_input_all: "nand_evaluate open_input sg (map Some [0]) = nand_evaluate_all open_input sg [0]"
  by (rule nand_evaluate_Some) simp_all

lemma self_loop_result: "fst (nand_evaluate_all self_loop (\<lambda>b. True) [0]) = Errno ECANCELED"
  by code_simp

lemma open_input_result: "fst (nand_evaluate_all open_input (\<lambda>b. True) [0]) = Errno ECANCELED"
  by code_simp

text \<open>The store \<open>nand_pair\<close> with an allocator that fails at the sixth request.\<close>

definition nand_pair_short :: world where
  "nand_pair_short = nand_pair\<lparr>alloc := [True, True, True, True, True, False]\<rparr>"

lemma nand_pair_short_all:
  "nand_evaluate nand_pair_short sg (map Some [1]) = nand_evaluate_all nand_pair_short sg [1]"
  by (rule nand_evaluate_Some) simp_all

lemma nand_pair_short_result:
  "fst (nand_evaluate_all nand_pair_short (\<lambda>b. True) [1]) = Errno ENOMEM"
  by code_simp

lemma nand_pair_twice:
  "fst (nand_evaluate_all (snd (nand_evaluate_all nand_pair (\<lambda>b. True) [1])) (\<lambda>b. True) [1])
     = Done ([True], 2)"
  by code_simp

theorem evaluate_restores_statuses_witness:
  "well_formed (heap nand_pair) \<and> live (heap nand_pair) [1]
   \<and> fst (nand_evaluate nand_pair (\<lambda>b. True) [Some 1]) = Done ([True], 2)
   \<and> unvisited (heap (snd (nand_evaluate nand_pair (\<lambda>b. True) [Some 1])))
   \<and> fst (nand_evaluate (snd (nand_evaluate nand_pair (\<lambda>b. True) [Some 1])) (\<lambda>b. True) [Some 1])
       = Done ([True], 2)
   \<and> fst (nand_evaluate self_loop (\<lambda>b. True) [Some 0]) = Errno ECANCELED
   \<and> heap (snd (nand_evaluate self_loop (\<lambda>b. True) [Some 0])) = heap self_loop
   \<and> fst (nand_evaluate open_input (\<lambda>b. True) [Some 0]) = Errno ECANCELED
   \<and> heap (snd (nand_evaluate open_input (\<lambda>b. True) [Some 0])) = heap open_input
   \<and> fst (nand_evaluate nand_pair_short (\<lambda>b. True) [Some 1]) = Errno ENOMEM
   \<and> heap (snd (nand_evaluate nand_pair_short (\<lambda>b. True) [Some 1])) = heap nand_pair_short
   \<and> unvisited (heap (snd (nand_evaluate nand_pair_short (\<lambda>b. True) [Some 1])))"
proof -
  let ?sg = "\<lambda>b::nat. True"
  have ne1: "[1::nat] \<noteq> []" and len1: "length [1::nat] < 2 ^ 32"
    and ne0: "[0::nat] \<noteq> []" and len0: "length [0::nat] < 2 ^ 32" by simp_all
  have sp: "p = (fst p, snd p)" for p :: "(bool list \<times> int) result \<times> world" by simp
  let ?w1 = "snd (nand_evaluate nand_pair ?sg [Some 1])"
  from nand_pair_tt nand_pair_all[of ?sg]
  have f1: "fst (nand_evaluate nand_pair ?sg [Some 1]) = Done ([True], 2)" by simp
  then have r1: "nand_evaluate nand_pair ?sg (map Some [1]) = (Done ([True], 2), ?w1)"
    by (simp add: prod_eq_iff)
  note T1 = evaluate_restores_statuses[OF nand_pair_well_formed ne1 len1 nand_pair_live r1]
  have nf: "never_fails (alloc nand_pair)" by (simp add: nand_pair_def never_fails_def)
  from T1 have u1: "unvisited (heap ?w1)" by blast
  from T1 nf have nf1: "never_fails (alloc ?w1)" by blast
  from T1 have "\<forall>r2 w2. nand_evaluate ?w1 ?sg (map Some [1]) = (r2, w2) \<longrightarrow>
               r2 \<noteq> Undef \<and> unvisited (heap w2)
               \<and> (\<forall>x. Done ([True], 2) = Done x \<longrightarrow>
                     (r2 = Done x \<or> r2 = Errno ENOMEM)
                     \<and> (never_fails (alloc ?w1) \<longrightarrow> r2 = Done x))
               \<and> (Done ([True], 2) = Errno ECANCELED \<longrightarrow> r2 = Errno ECANCELED \<or> r2 = Errno ENOMEM)"
    by blast
  from this[rule_format, OF sp] nf1
  have f2: "fst (nand_evaluate ?w1 ?sg [Some 1]) = Done ([True], 2)" by simp
  have lv0: "live (heap self_loop) [0]" "live (heap open_input) [0]" by code_simp+
  have lvs: "live (heap nand_pair_short) [1]" "well_formed (heap nand_pair_short)" by code_simp+
  from self_loop_result self_loop_all[of ?sg]
  have fa: "fst (nand_evaluate self_loop ?sg [Some 0]) = Errno ECANCELED" by simp
  then have ra: "nand_evaluate self_loop ?sg (map Some [0])
      = (Errno ECANCELED, snd (nand_evaluate self_loop ?sg [Some 0]))" by (simp add: prod_eq_iff)
  from evaluate_restores_statuses[OF self_loop_well_formed ne0 len0 lv0(1) ra]
  have ha: "heap (snd (nand_evaluate self_loop ?sg [Some 0])) = heap self_loop" by blast
  from open_input_result open_input_all[of ?sg]
  have fb: "fst (nand_evaluate open_input ?sg [Some 0]) = Errno ECANCELED" by simp
  then have rb: "nand_evaluate open_input ?sg (map Some [0])
      = (Errno ECANCELED, snd (nand_evaluate open_input ?sg [Some 0]))" by (simp add: prod_eq_iff)
  from evaluate_restores_statuses[OF open_input_well_formed ne0 len0 lv0(2) rb]
  have hb: "heap (snd (nand_evaluate open_input ?sg [Some 0])) = heap open_input" by blast
  from nand_pair_short_result nand_pair_short_all[of ?sg]
  have fc: "fst (nand_evaluate nand_pair_short ?sg [Some 1]) = Errno ENOMEM" by simp
  then have rc: "nand_evaluate nand_pair_short ?sg (map Some [1])
      = (Errno ENOMEM, snd (nand_evaluate nand_pair_short ?sg [Some 1]))" by (simp add: prod_eq_iff)
  note Tc = evaluate_restores_statuses[OF lvs(2) ne1 len1 lvs(1) rc]
  from Tc have hc: "heap (snd (nand_evaluate nand_pair_short ?sg [Some 1])) = heap nand_pair_short"
    by blast
  from Tc have uc: "unvisited (heap (snd (nand_evaluate nand_pair_short ?sg [Some 1])))" by blast
  from nand_pair_well_formed nand_pair_live f1 u1 f2 fa ha fb hb fc hc uc
  show ?thesis by blast
qed


section \<open>The order of the requests\<close>











section \<open>Cycles and empty slots\<close>






end
